(* ===== verification/Prelude.thy ===== *)
theory Prelude
  imports Main "HOL-Library.Word" "HOL-Library.List_Lexorder" "HOL-Library.Product_Lexorder"
begin

text \<open>
  What every component of the chain shares: the machine integers of the Rust
  sources with their checked and saturating operations, byte strings with
  big-endian integer encodings and slices, Rust's \<open>Result\<close> and the
  \<open>?\<close> operator, and the ordered map \<open>BTreeMap\<close> as an association list
  sorted by its keys.
\<close>

named_theorems machine_simps \<open>machine integers read as natural numbers\<close>
named_theorems bytes_simps \<open>lengths, slices and big-endian integers\<close>
named_theorems result_simps \<open>splitting computations in the Result type\<close>

section \<open>Definitions\<close>

subsection \<open>Machine integers\<close>

type_synonym u8 = "8 word"
type_synonym u32 = "32 word"
type_synonym u64 = "64 word"
type_synonym u128 = "128 word"
type_synonym bytes = "8 word list"

definition checked_add :: "'a::len word \<Rightarrow> 'a word \<Rightarrow> 'a word option" where
  "checked_add a b = (if unat a + unat b < 2 ^ LENGTH('a) then Some (a + b) else None)"

definition checked_sub :: "'a::len word \<Rightarrow> 'a word \<Rightarrow> 'a word option" where
  "checked_sub a b = (if b \<le> a then Some (a - b) else None)"

definition checked_mul :: "'a::len word \<Rightarrow> 'a word \<Rightarrow> 'a word option" where
  "checked_mul a b = (if unat a * unat b < 2 ^ LENGTH('a) then Some (a * b) else None)"

definition saturating_add :: "'a::len word \<Rightarrow> 'a word \<Rightarrow> 'a word" where
  "saturating_add a b = (if unat a + unat b < 2 ^ LENGTH('a) then a + b else - 1)"

definition saturating_sub :: "'a::len word \<Rightarrow> 'a word \<Rightarrow> 'a word" where
  "saturating_sub a b = (if b \<le> a then a - b else 0)"

definition saturating_mul :: "'a::len word \<Rightarrow> 'a word \<Rightarrow> 'a word" where
  "saturating_mul a b = (if unat a * unat b < 2 ^ LENGTH('a) then a * b else - 1)"

text \<open>\<open>uN::try_from(n).unwrap_or(uN::MAX)\<close> on a value of a wider type.\<close>

definition sat_from :: "nat \<Rightarrow> 'a::len word" where
  "sat_from n = (if n < 2 ^ LENGTH('a) then of_nat n else - 1)"

subsection \<open>Result\<close>

datatype ('a, 'e) result = Ok 'a | Err 'e

fun and_then :: "('a, 'e) result \<Rightarrow> ('a \<Rightarrow> ('b, 'e) result) \<Rightarrow> ('b, 'e) result" where
  "and_then (Ok x) f = f x"
| "and_then (Err e) f = Err e"

fun map_err :: "('e \<Rightarrow> 'f) \<Rightarrow> ('a, 'e) result \<Rightarrow> ('a, 'f) result" where
  "map_err f (Ok x) = Ok x"
| "map_err f (Err e) = Err (f e)"

fun is_ok :: "('a, 'e) result \<Rightarrow> bool" where
  "is_ok (Ok x) = True"
| "is_ok (Err e) = False"

definition ok_or :: "'e \<Rightarrow> 'a option \<Rightarrow> ('a, 'e) result" where
  "ok_or e o' = (case o' of Some x \<Rightarrow> Ok x | None \<Rightarrow> Err e)"

definition unwrap_or :: "'a \<Rightarrow> 'a option \<Rightarrow> 'a" where
  "unwrap_or d o' = (case o' of Some x \<Rightarrow> x | None \<Rightarrow> d)"

subsection \<open>Byte strings\<close>

text \<open>\<open>be_nat n v\<close> is the \<open>n\<close>-byte big-endian encoding of \<open>v\<close> modulo \<open>256 ^ n\<close>.\<close>

primrec be_nat :: "nat \<Rightarrow> nat \<Rightarrow> bytes" where
  "be_nat 0 v = []"
| "be_nat (Suc n) v = of_nat (v div 256 ^ n) # be_nat n v"

definition from_be :: "bytes \<Rightarrow> nat" where
  "from_be bs = foldl (\<lambda>a b. a * 256 + unat b) 0 bs"

definition u32_be :: "u32 \<Rightarrow> bytes" where
  "u32_be x = be_nat 4 (unat x)"

definition u64_be :: "u64 \<Rightarrow> bytes" where
  "u64_be x = be_nat 8 (unat x)"

definition u128_be :: "u128 \<Rightarrow> bytes" where
  "u128_be x = be_nat 16 (unat x)"

definition u32_from_be :: "bytes \<Rightarrow> u32" where
  "u32_from_be bs = of_nat (from_be bs)"

definition u64_from_be :: "bytes \<Rightarrow> u64" where
  "u64_from_be bs = of_nat (from_be bs)"

definition u128_from_be :: "bytes \<Rightarrow> u128" where
  "u128_from_be bs = of_nat (from_be bs)"

text \<open>The Rust slice \<open>xs[i..j]\<close>; every use in the sources is in range.\<close>

definition slice :: "nat \<Rightarrow> nat \<Rightarrow> 'a list \<Rightarrow> 'a list" where
  "slice i j xs = take (j - i) (drop i xs)"

text \<open>
  A concrete 32-byte digest for the witnesses of theorems about an arbitrary
  hash function: the last 32 bytes of the input, padded with zeros on the left.
\<close>

definition last32 :: "bytes \<Rightarrow> bytes" where
  "last32 b = drop (length b) (replicate 32 0 @ b)"

text \<open>A second one, a byte of a polynomial in the input, where suffixes must not collide.\<close>

definition poly32 :: "bytes \<Rightarrow> bytes" where
  "poly32 b = replicate 31 0 @ [foldl (\<lambda>a x. a * 31 + x) 7 b]"

text \<open>The same encoding computed with binary integers, for evaluation.\<close>

fun be_int :: "nat \<Rightarrow> int \<Rightarrow> bytes \<Rightarrow> bytes" where
  "be_int 0 v acc = acc"
| "be_int (Suc n) v acc = be_int n (v div 256) (of_int v # acc)"

subsection \<open>Ordered maps\<close>

type_synonym ('k, 'v) btree = "('k \<times> 'v) list"

abbreviation bt_get :: "('k, 'v) btree \<Rightarrow> 'k \<Rightarrow> 'v option" where
  "bt_get \<equiv> map_of"

fun bt_insert :: "'k::linorder \<Rightarrow> 'v \<Rightarrow> ('k, 'v) btree \<Rightarrow> ('k, 'v) btree" where
  "bt_insert k v [] = [(k, v)]"
| "bt_insert k v ((a, b) # ps) =
    (if k < a then (k, v) # (a, b) # ps
     else if k = a then (k, v) # ps
     else (a, b) # bt_insert k v ps)"

definition bt_remove :: "'k \<Rightarrow> ('k, 'v) btree \<Rightarrow> ('k, 'v) btree" where
  "bt_remove k m = filter (\<lambda>p. fst p \<noteq> k) m"

text \<open>A total over the values of a map.\<close>

definition bt_sum :: "('v \<Rightarrow> nat) \<Rightarrow> ('k, 'v) btree \<Rightarrow> nat" where
  "bt_sum f m = sum_list (map (f \<circ> snd) m)"

definition bt_keys :: "('k, 'v) btree \<Rightarrow> 'k list" where
  "bt_keys m = map fst m"

text \<open>The representation invariant: strictly increasing keys.\<close>

definition bt_wf :: "('k::linorder, 'v) btree \<Rightarrow> bool" where
  "bt_wf m = sorted_wrt (<) (map fst m)"

section \<open>Machine integers\<close>

lemma unat_lt_pow: "unat (a :: 'a::len word) < 2 ^ LENGTH('a)"
  by (rule unsigned_less)

lemma checked_add_SomeD:
  "checked_add a b = Some c \<Longrightarrow> unat c = unat a + unat b"
  by (auto simp: checked_add_def unat_add_lem split: if_splits)

lemma checked_add_None_iff:
  fixes a b :: "'a::len word"
  shows "checked_add a b = None \<longleftrightarrow> 2 ^ LENGTH('a) \<le> unat a + unat b"
  by (auto simp: checked_add_def)

lemma checked_sub_SomeD:
  "checked_sub a b = Some c \<Longrightarrow> unat b \<le> unat a \<and> unat c = unat a - unat b"
  by (auto simp: checked_sub_def unat_sub word_le_nat_alt split: if_splits)

lemma checked_sub_None_iff: "checked_sub a b = None \<longleftrightarrow> unat a < unat b"
  by (auto simp: checked_sub_def word_le_nat_alt)

lemma unat_minus_one_max: "unat (- 1 :: 'a::len word) = 2 ^ LENGTH('a) - 1"
  by (metis mask_eq_exp_minus_1 unsigned_minus_1_eq_mask)

lemma unat_saturating_add [machine_simps]:
  fixes a b :: "'a::len word"
  shows "unat (saturating_add a b) = min (unat a + unat b) (2 ^ LENGTH('a) - 1)"
proof (cases "unat a + unat b < 2 ^ LENGTH('a)")
  case True
  then show ?thesis by (simp add: saturating_add_def unat_add_lem [THEN iffD1])
next
  case False
  then show ?thesis by (simp add: saturating_add_def unat_minus_one_max)
qed

lemma unat_saturating_sub [machine_simps]:
  "unat (saturating_sub a b) = unat a - unat b"
  by (auto simp: saturating_sub_def unat_sub word_le_nat_alt)

lemma unat_saturating_mul [machine_simps]:
  fixes a b :: "'a::len word"
  shows "unat (saturating_mul a b) = min (unat a * unat b) (2 ^ LENGTH('a) - 1)"
proof (cases "unat a * unat b < 2 ^ LENGTH('a)")
  case True
  then show ?thesis by (simp add: saturating_mul_def unat_mult_lem [THEN iffD1])
next
  case False
  then show ?thesis by (simp add: saturating_mul_def unat_minus_one_max)
qed

lemma unat_sat_from [machine_simps]:
  "unat (sat_from n :: 'a::len word) = min n (2 ^ LENGTH('a) - 1)"
  by (auto simp: sat_from_def unat_of_nat unat_minus_one_max)

lemma le_saturating_add: "a \<le> saturating_add a b"
proof -
  have "unat a \<le> 2 ^ LENGTH('a) - 1"
    using unat_lt_pow [of a] by linarith
  then show ?thesis by (simp add: word_le_nat_alt machine_simps)
qed

lemma unat_plus_one: "a \<noteq> - 1 \<Longrightarrow> unat (a + 1) = Suc (unat a)"
  by (metis add.commute add_eq_0_iff unatSuc)

lemma unat_u32_of_nat: "n < 2 ^ 32 \<Longrightarrow> unat (of_nat n :: u32) = n"
  by (simp add: unat_of_nat)

text \<open>Code equations that compute with binary integers.\<close>

lemma nat_less_pow_int: "m < 2 ^ n \<longleftrightarrow> int m < 2 ^ n"
  by (metis of_nat_less_iff of_nat_numeral of_nat_power)

lemma machine_code [code]:
  fixes a b :: "'a::len word"
  shows "checked_add a b = (if uint a + uint b < 2 ^ LENGTH('a) then Some (a + b) else None)"
    and "checked_mul a b = (if uint a * uint b < 2 ^ LENGTH('a) then Some (a * b) else None)"
    and "saturating_add a b = (if uint a + uint b < 2 ^ LENGTH('a) then a + b else - 1)"
    and "saturating_mul a b = (if uint a * uint b < 2 ^ LENGTH('a) then a * b else - 1)"
    and "(sat_from n :: 'a word) = (if int n < 2 ^ LENGTH('a) then of_nat n else - 1)"
  by (simp_all only: checked_add_def checked_mul_def saturating_add_def saturating_mul_def
      sat_from_def nat_less_pow_int of_nat_add of_nat_mult uint_nat)

section \<open>Result\<close>

lemma and_then_Ok_iff [result_simps]:
  "and_then r f = Ok y \<longleftrightarrow> (\<exists>x. r = Ok x \<and> f x = Ok y)"
  by (cases r) auto

lemma and_then_Err_iff [result_simps]:
  "and_then r f = Err e \<longleftrightarrow> r = Err e \<or> (\<exists>x. r = Ok x \<and> f x = Err e)"
  by (cases r) auto

lemma map_err_Ok_iff [result_simps]: "map_err f r = Ok x \<longleftrightarrow> r = Ok x"
  by (cases r) auto

lemma map_err_Err_iff [result_simps]:
  "map_err f r = Err e \<longleftrightarrow> (\<exists>e'. r = Err e' \<and> e = f e')"
  by (cases r) auto

lemma ok_or_Ok_iff [result_simps]: "ok_or e o' = Ok x \<longleftrightarrow> o' = Some x"
  by (cases o') (auto simp: ok_or_def)

lemma ok_or_Err_iff [result_simps]: "ok_or e o' = Err e' \<longleftrightarrow> o' = None \<and> e' = e"
  by (cases o') (auto simp: ok_or_def)

lemma is_ok_iff: "is_ok r \<longleftrightarrow> (\<exists>x. r = Ok x)"
  by (cases r) auto

lemma ok_or_simps [simp]: "ok_or e (Some x) = Ok x" "ok_or e None = Err e"
  by (simp_all add: ok_or_def)

lemma unwrap_or_simps [simp]: "unwrap_or d (Some x) = x" "unwrap_or d None = d"
  by (simp_all add: unwrap_or_def)

section \<open>Byte strings\<close>

lemma length_be_nat [simp, bytes_simps]: "length (be_nat n v) = n"
  by (induction n) simp_all

lemma foldl_be_acc:
  "foldl (\<lambda>a b. a * 256 + unat b) acc bs = acc * 256 ^ length bs + from_be bs"
proof (induction bs arbitrary: acc)
  case Nil
  then show ?case by (simp add: from_be_def)
next
  case (Cons b bs)
  show ?case
    using Cons [of "acc * 256 + unat b"] Cons [of "unat b"]
    by (simp add: from_be_def distrib_right)
qed

lemma from_be_Nil [simp]: "from_be [] = 0"
  by (simp add: from_be_def)

lemma from_be_Cons: "from_be (b # bs) = unat b * 256 ^ length bs + from_be bs"
  using foldl_be_acc [of "unat b" bs] by (simp add: from_be_def)

lemma from_be_less: "from_be bs < 256 ^ length bs"
proof (induction bs)
  case (Cons b bs)
  have b: "unat b + 1 \<le> 256" using unat_lt_pow [of b] by simp
  have "unat b * 256 ^ length bs + from_be bs < (unat b + 1) * 256 ^ length bs"
    using Cons by simp
  also have "\<dots> \<le> 256 * 256 ^ length bs"
    using b by (rule mult_right_mono) simp
  finally show ?case by (simp add: from_be_Cons)
qed simp

lemma from_be_be_nat: "from_be (be_nat n v) = v mod 256 ^ n"
proof (induction n)
  case (Suc n)
  have "v mod (256 ^ n * 256) = 256 ^ n * (v div 256 ^ n mod 256) + v mod 256 ^ n"
    by (rule mod_mult2_eq)
  moreover have "unat (of_nat (v div 256 ^ n) :: 8 word) = v div 256 ^ n mod 256"
    by (simp add: unat_of_nat)
  ultimately show ?case
    by (simp add: Suc.IH from_be_Cons mult.commute)
qed simp

lemma be_nat_from_be_acc: "be_nat (length bs) (k * 256 ^ length bs + from_be bs) = bs"
proof (induction bs arbitrary: k)
  case (Cons b bs)
  have eq: "k * 256 ^ Suc (length bs) + from_be (b # bs)
      = (k * 256 + unat b) * 256 ^ length bs + from_be bs"
    by (simp add: from_be_Cons distrib_right)
  have "(of_nat (k * 256 + unat b) :: 8 word) = b"
    using unat_lt_pow [of b]
    by (simp add: word_unat_eq_iff unat_of_nat mod_mult_self3 del: of_nat_add of_nat_mult)
  moreover have "((k * 256 + unat b) * 256 ^ length bs + from_be bs) div 256 ^ length bs
      = k * 256 + unat b"
    using from_be_less [of bs] by (simp add: div_add1_eq)
  ultimately show ?case
    by (simp only: eq Cons.IH list.size be_nat.simps add_Suc_right add_0_right)
qed simp

lemma be_nat_from_be: "length bs = n \<Longrightarrow> be_nat n (from_be bs) = bs"
  using be_nat_from_be_acc [of bs 0] by auto

lemma length_u_be [simp, bytes_simps]:
  "length (u32_be a) = 4" "length (u64_be b) = 8" "length (u128_be c) = 16"
  by (simp_all add: u32_be_def u64_be_def u128_be_def)

lemma u_from_be_be [simp, bytes_simps]:
  "u32_from_be (u32_be a) = a" "u64_from_be (u64_be b) = b" "u128_from_be (u128_be c) = c"
  using unat_lt_pow [of a] unat_lt_pow [of b] unat_lt_pow [of c]
  by (simp_all add: u32_from_be_def u64_from_be_def u128_from_be_def
      u32_be_def u64_be_def u128_be_def from_be_be_nat)

lemma u_be_from_be:
  "length bs = 4 \<Longrightarrow> u32_be (u32_from_be bs) = bs"
  "length bs = 8 \<Longrightarrow> u64_be (u64_from_be bs) = bs"
  "length bs = 16 \<Longrightarrow> u128_be (u128_from_be bs) = bs"
  using from_be_less [of bs]
  by (simp_all add: u32_from_be_def u64_from_be_def u128_from_be_def
      u32_be_def u64_be_def u128_be_def be_nat_from_be unat_of_nat)

lemma be_nat_snoc: "be_nat (Suc n) v = be_nat n (v div 256) @ [of_nat v]"
  by (induction n) (simp_all add: div_mult2_eq [symmetric])

lemma be_int_be_nat: "be_int n (int v) acc = be_nat n v @ acc"
proof (induction n arbitrary: v acc)
  case (Suc n)
  have "int v div 256 = int (v div 256)" by simp
  then show ?case by (simp only: be_int.simps Suc be_nat_snoc) simp
qed simp

lemma u_be_code [code]:
  "u32_be a = be_int 4 (uint a) []"
  "u64_be b = be_int 8 (uint b) []"
  "u128_be c = be_int 16 (uint c) []"
  by (simp_all only: u32_be_def u64_be_def u128_be_def uint_nat be_int_be_nat append_Nil2)

lemma from_be_int: "int (from_be bs) = foldl (\<lambda>a b. a * 256 + uint b) 0 bs"
proof -
  have "int (foldl (\<lambda>a b. a * 256 + unat b) n bs) = foldl (\<lambda>a b. a * 256 + uint b) (int n) bs" for n
    by (induction bs arbitrary: n) simp_all
  from this [of 0] show ?thesis by (simp add: from_be_def)
qed

lemma u_from_be_code [code]:
  "u32_from_be bs = of_int (foldl (\<lambda>a b. a * 256 + uint b) 0 bs)"
  "u64_from_be bs = of_int (foldl (\<lambda>a b. a * 256 + uint b) 0 bs)"
  "u128_from_be bs = of_int (foldl (\<lambda>a b. a * 256 + uint b) 0 bs)"
  by (simp_all only: u32_from_be_def u64_from_be_def u128_from_be_def from_be_int [symmetric]
      of_int_of_nat_eq)

lemma u_be_inject [simp]:
  "u32_be a = u32_be a' \<longleftrightarrow> a = a'" "u64_be b = u64_be b' \<longleftrightarrow> b = b'"
  "u128_be c = u128_be c' \<longleftrightarrow> c = c'"
  by (metis u_from_be_be)+

lemma length_slice [simp, bytes_simps]: "j \<le> length xs \<Longrightarrow> length (slice i j xs) = j - i"
  by (simp add: slice_def)

lemma slice_append:
  "slice i j (xs @ ys) =
    (if j \<le> length xs then slice i j xs
     else if length xs \<le> i then slice (i - length xs) (j - length xs) ys
     else drop i xs @ take (j - length xs) ys)"
  by (auto simp: slice_def)

lemma slice_full [simp]: "j = length xs \<Longrightarrow> slice 0 j xs = xs"
  by (simp add: slice_def)

lemma append_take_slice: "i \<le> j \<Longrightarrow> take i xs @ slice i j xs = take j xs"
  by (metis slice_def le_add_diff_inverse take_add)

lemma drop_slice: "i \<le> j \<Longrightarrow> drop i xs = slice i j xs @ drop j xs"
  by (metis append_take_drop_id drop_drop le_add_diff_inverse2 slice_def)

lemma slice_append_drop: "i \<le> j \<Longrightarrow> slice i j xs @ drop j xs = drop i xs"
  by (simp add: drop_slice [symmetric])

lemma slice_join: "i \<le> j \<Longrightarrow> j \<le> k \<Longrightarrow> slice i j xs @ slice j k xs @ ys = slice i k xs @ ys"
  "i \<le> j \<Longrightarrow> j \<le> k \<Longrightarrow> slice i j xs @ slice j k xs = slice i k xs"
  using take_add [of "j - i" "k - j" "drop i xs"] by (simp_all add: slice_def)

lemma slice_end: "length xs \<le> j \<Longrightarrow> slice i j xs = drop i xs"
  by (simp add: slice_def)

lemma drop_nth: "i < length xs \<Longrightarrow> drop i xs = [xs ! i] @ drop (Suc i) xs"
  by (simp add: Cons_nth_drop_Suc)

lemma length_poly32 [simp]: "length (poly32 b) = 32"
  by (simp add: poly32_def)

lemma length_last32 [simp]: "length (last32 b) = 32"
  by (simp add: last32_def)

section \<open>Ordered maps\<close>

lemma bt_get_insert [simp]: "bt_get (bt_insert k v m) = (bt_get m)(k \<mapsto> v)"
  by (induction m) auto

lemma bt_get_remove [simp]: "bt_get (bt_remove k m) = (bt_get m)(k := None)"
  by (induction m) (auto simp: bt_remove_def)

lemma set_bt_insert: "set (map fst (bt_insert k v m)) = insert k (set (map fst m))"
proof (induction m)
  case (Cons p m)
  then show ?case by (cases p) (simp, blast)
qed simp

lemma bt_wf_insert [simp, intro]: "bt_wf m \<Longrightarrow> bt_wf (bt_insert k v m)"
proof (induction m)
  case (Cons p m)
  then show ?case
    using set_bt_insert [of k v m]
    by (cases p) (auto simp: bt_wf_def simp del: set_map)
qed (simp add: bt_wf_def)

lemma bt_wf_remove [simp, intro]: "bt_wf m \<Longrightarrow> bt_wf (bt_remove k m)"
  by (induction m) (auto simp: bt_wf_def bt_remove_def)

lemma bt_wf_Nil [simp]: "bt_wf []"
  by (simp add: bt_wf_def)

lemma bt_wf_distinct: "bt_wf m \<Longrightarrow> distinct (map fst m)"
  unfolding bt_wf_def by (induction m) auto

lemma bt_sum_simps [simp]: "bt_sum f [] = 0" "bt_sum f ((k, v) # m) = f v + bt_sum f m"
  by (simp_all add: bt_sum_def)

lemma bt_wf_Cons: "bt_wf ((k, v) # m) \<longleftrightarrow> (\<forall>x\<in>fst ` set m. k < x) \<and> bt_wf m"
  by (auto simp: bt_wf_def)

lemma bt_get_None_above: "bt_wf ((a, b) # m) \<Longrightarrow> k \<le> a \<Longrightarrow> bt_get m k = None"
  by (auto simp: bt_wf_Cons map_of_eq_None_iff)

text \<open>Rewriting one entry changes a total by the difference of the two values.\<close>

lemma bt_sum_insert:
  "bt_wf m \<Longrightarrow> bt_sum f (bt_insert k v m) + (case bt_get m k of Some w \<Rightarrow> f w | None \<Rightarrow> 0) = bt_sum f m + f v"
proof (induction m)
  case (Cons p m)
  obtain a b where p: "p = (a, b)" by fastforce
  have wf: "bt_wf ((a, b) # m)" "bt_wf m" using Cons.prems by (auto simp: p bt_wf_Cons)
  consider "k < a" | "k = a" | "k > a" by fastforce
  then show ?case
  proof cases
    case 1
    then show ?thesis using bt_get_None_above [OF wf(1), of k] by (auto simp: p)
  next
    case 3
    then have "\<not> k < a" "k \<noteq> a" by auto
    then show ?thesis using Cons.IH [OF wf(2)] by (simp add: p)
  qed (simp add: p)
qed simp

lemma bt_remove_absent: "bt_get m k = None \<Longrightarrow> bt_remove k m = m"
  by (induction m) (auto simp: bt_remove_def split: if_splits)

lemma bt_sum_remove:
  "bt_wf m \<Longrightarrow> bt_sum f (bt_remove k m) + (case bt_get m k of Some w \<Rightarrow> f w | None \<Rightarrow> 0) = bt_sum f m"
proof (induction m)
  case (Cons p m)
  obtain a b where p: "p = (a, b)" by fastforce
  have wf: "bt_wf ((a, b) # m)" "bt_wf m" using Cons.prems by (auto simp: p bt_wf_Cons)
  show ?case
  proof (cases "a = k")
    case True
    then have "bt_remove k m = m" using bt_get_None_above [OF wf(1), of k] bt_remove_absent by auto
    then show ?thesis using True by (simp add: p bt_remove_def)
  next
    case False
    then show ?thesis using Cons.IH [OF wf(2)] by (simp add: p bt_remove_def)
  qed
qed (simp add: bt_remove_def)

lemma bt_sum_ge: "bt_get m k = Some v \<Longrightarrow> f v \<le> bt_sum f m"
  by (induction m) (auto split: if_splits)

end
