(* ===== verification/Types_Core.thy ===== *)
theory Types_Core
  imports Prelude
begin

text \<open>
  The leaf types of \<open>crates/types\<close>: the frozen chain constants (\<open>spec.rs\<close>),
  the error type, the newtype integers, voting power and its two-thirds test,
  the parameter registry, the canonical codec (\<open>encoding.rs\<close>) and the Merkle
  root and domain wrapping of \<open>hashing.rs\<close>. BLAKE3 is the crate \<open>blake3\<close>; it is
  the parameter \<open>H\<close> of every definition that hashes.
\<close>

section \<open>Constants (spec.rs)\<close>

definition HASH_SIZE :: nat where "HASH_SIZE = 32"
definition ADDRESS_SIZE :: nat where "ADDRESS_SIZE = 32"
definition VALIDATOR_ID_SIZE :: nat where "VALIDATOR_ID_SIZE = 48"
definition MAX_BLOCK_BYTES :: u32 where "MAX_BLOCK_BYTES = 2 * 1024 * 1024"
definition MAX_TX_BYTES :: u32 where "MAX_TX_BYTES = 64 * 1024"
definition MEMPOOL_MAX_TXS :: u32 where "MEMPOOL_MAX_TXS = 4096"
definition MIN_TX_FEE :: u128 where "MIN_TX_FEE = 1"
definition MAX_GAS :: u64 where "MAX_GAS = 50000000"
definition GAS_TRANSFER :: u64 where "GAS_TRANSFER = 21000"
definition GAS_DEPLOY :: u64 where "GAS_DEPLOY = 50000"
definition GAS_CALL :: u64 where "GAS_CALL = 21000"
definition EPOCH_LENGTH :: u64 where "EPOCH_LENGTH = 100"
definition UNBONDING_PERIOD :: u64 where "UNBONDING_PERIOD = 1000"
definition CHECKPOINT_INTERVAL :: u64 where "CHECKPOINT_INTERVAL = 10"
definition MIN_SELF_BOND :: u64 where "MIN_SELF_BOND = 100"
definition DELEGATION_CAP :: u64 where "DELEGATION_CAP = 1000"
definition SLASH_PERCENT :: u64 where "SLASH_PERCENT = 5"
definition TIMEOUT_PROPOSE_MS :: u64 where "TIMEOUT_PROPOSE_MS = 3000"
definition TIMEOUT_PREVOTE_MS :: u64 where "TIMEOUT_PREVOTE_MS = 1000"
definition TIMEOUT_PRECOMMIT_MS :: u64 where "TIMEOUT_PRECOMMIT_MS = 1000"
definition TIMEOUT_DELTA_MS :: u64 where "TIMEOUT_DELTA_MS = 500"
definition MAX_TIMESTAMP_DRIFT_MS :: u64 where "MAX_TIMESTAMP_DRIFT_MS = 15000"

lemmas spec_defs = HASH_SIZE_def ADDRESS_SIZE_def VALIDATOR_ID_SIZE_def MAX_BLOCK_BYTES_def
  MAX_TX_BYTES_def MEMPOOL_MAX_TXS_def MIN_TX_FEE_def MAX_GAS_def GAS_TRANSFER_def
  GAS_DEPLOY_def GAS_CALL_def EPOCH_LENGTH_def UNBONDING_PERIOD_def CHECKPOINT_INTERVAL_def
  MIN_SELF_BOND_def DELEGATION_CAP_def SLASH_PERCENT_def TIMEOUT_PROPOSE_MS_def
  TIMEOUT_PREVOTE_MS_def TIMEOUT_PRECOMMIT_MS_def TIMEOUT_DELTA_MS_def
  MAX_TIMESTAMP_DRIFT_MS_def

section \<open>Newtypes and errors\<close>

type_synonym Hash = bytes
type_synonym Address = bytes
type_synonym ValidatorId = bytes
type_synonym Amount = u128
type_synonym Nonce = u64
type_synonym Height = u64
type_synonym Round = u32
type_synonym Epoch = u64
type_synonym ChainId = u64
type_synonym VotingPower = u64

datatype TypesError =
    CodecTruncated
  | CodecVersion u8
  | CodecLength nat nat
  | BadLength nat nat
  | Kv string

text \<open>\<open>Height\<close>, \<open>Round\<close> and \<open>Epoch\<close> have the same successor.\<close>

definition saturating_next :: "'a::len word \<Rightarrow> 'a word" where
  "saturating_next h = saturating_add h 1"

definition hash_from_slice :: "bytes \<Rightarrow> (Hash, TypesError) result" where
  "hash_from_slice v =
    (if length v = HASH_SIZE then Ok v else Err (BadLength HASH_SIZE (length v)))"

definition address_from_slice :: "bytes \<Rightarrow> (Address, TypesError) result" where
  "address_from_slice v =
    (if length v = ADDRESS_SIZE then Ok v else Err (BadLength ADDRESS_SIZE (length v)))"

definition validator_id_from_slice :: "bytes \<Rightarrow> (ValidatorId, TypesError) result" where
  "validator_id_from_slice v =
    (if length v = VALIDATOR_ID_SIZE then Ok v
     else Err (BadLength VALIDATOR_ID_SIZE (length v)))"

definition exceeds_two_thirds :: "VotingPower \<Rightarrow> VotingPower \<Rightarrow> bool" where
  "exceeds_two_thirds p tot = (saturating_mul p 3 > saturating_mul tot 2)"

section \<open>Parameter registry (params.rs)\<close>

datatype ParamId =
    MaxBlockBytes | MaxTxBytes | MaxGas | EpochLength | UnbondingPeriod
  | TimeoutProposeMs | TimeoutPrevoteMs | TimeoutPrecommitMs | TimeoutDeltaMs
  | MaxTimestampDriftMs | MinSelfBond | DelegationCap | SlashPercent

text \<open>The position of a variant in the enum, which is what the derived \<open>Ord\<close> compares.\<close>

fun param_index :: "ParamId \<Rightarrow> nat" where
  "param_index MaxBlockBytes = 0"
| "param_index MaxTxBytes = 1"
| "param_index MaxGas = 2"
| "param_index EpochLength = 3"
| "param_index UnbondingPeriod = 4"
| "param_index TimeoutProposeMs = 5"
| "param_index TimeoutPrevoteMs = 6"
| "param_index TimeoutPrecommitMs = 7"
| "param_index TimeoutDeltaMs = 8"
| "param_index MaxTimestampDriftMs = 9"
| "param_index MinSelfBond = 10"
| "param_index DelegationCap = 11"
| "param_index SlashPercent = 12"

lemma param_index_inject: "param_index a = param_index b \<longleftrightarrow> a = b"
  by (cases a; cases b) simp_all

instantiation ParamId :: linorder
begin

definition less_eq_ParamId :: "ParamId \<Rightarrow> ParamId \<Rightarrow> bool" where
  "less_eq_ParamId a b = (param_index a \<le> param_index b)"

definition less_ParamId :: "ParamId \<Rightarrow> ParamId \<Rightarrow> bool" where
  "less_ParamId a b = (param_index a < param_index b)"

instance
  by standard (auto simp: less_eq_ParamId_def less_ParamId_def param_index_inject)

end

type_synonym ParamsRegistry = "(ParamId, u64) btree"

definition params_set :: "ParamsRegistry \<Rightarrow> ParamId \<Rightarrow> u64 \<Rightarrow> ParamsRegistry" where
  "params_set ps i v = bt_insert i v ps"

definition params_new :: ParamsRegistry where
  "params_new =
    bt_insert MaxTimestampDriftMs MAX_TIMESTAMP_DRIFT_MS
   (bt_insert TimeoutDeltaMs TIMEOUT_DELTA_MS
   (bt_insert TimeoutPrecommitMs TIMEOUT_PRECOMMIT_MS
   (bt_insert TimeoutPrevoteMs TIMEOUT_PREVOTE_MS
   (bt_insert TimeoutProposeMs TIMEOUT_PROPOSE_MS
   (bt_insert UnbondingPeriod UNBONDING_PERIOD
   (bt_insert EpochLength EPOCH_LENGTH
   (bt_insert MaxGas MAX_GAS
   (bt_insert MaxTxBytes (ucast MAX_TX_BYTES)
   (bt_insert MaxBlockBytes (ucast MAX_BLOCK_BYTES) [])))))))))"

definition params_get :: "ParamsRegistry \<Rightarrow> ParamId \<Rightarrow> u64 option" where
  "params_get ps i = bt_get ps i"

section \<open>Canonical codec (encoding.rs)\<close>

definition CODEC_VERSION :: u8 where "CODEC_VERSION = 1"

definition canonical_encode :: "bytes \<Rightarrow> bytes" where
  "canonical_encode payload =
    (let len = (sat_from (length payload) :: u32)
     in [CODEC_VERSION] @ u32_be len @ payload)"

definition canonical_decode :: "bytes \<Rightarrow> (bytes, TypesError) result" where
  "canonical_decode buf =
    (if length buf < 5 then Err CodecTruncated
     else if buf ! 0 \<noteq> CODEC_VERSION then Err (CodecVersion (buf ! 0))
     else let len = unat (u32_from_be (slice 1 5 buf));
              rest = drop 5 buf
          in if length rest \<noteq> len then Err (CodecLength len (length rest))
             else Ok rest)"

section \<open>Hashing (hashing.rs)\<close>

text \<open>The byte string \<open>b"..."\<close> of an ASCII literal.\<close>

definition ascii :: "string \<Rightarrow> bytes" where
  "ascii s = map of_char s"

definition dhash :: "(bytes \<Rightarrow> Hash) \<Rightarrow> bytes \<Rightarrow> Hash" where
  "dhash H payload = H (ascii ''L1/merkle'' @ [0] @ payload)"

definition hash_leaf :: "(bytes \<Rightarrow> Hash) \<Rightarrow> bytes \<Rightarrow> Hash" where
  "hash_leaf H leaf = dhash H ([0x00] @ leaf)"

definition hash_branch :: "(bytes \<Rightarrow> Hash) \<Rightarrow> Hash \<Rightarrow> Hash \<Rightarrow> Hash" where
  "hash_branch H l r = dhash H ([0x01] @ l @ r)"

text \<open>
  One pass over \<open>layer.chunks(2)\<close>. The loop pads the layer to an even length
  first, so the one-element chunk, on which the code would panic, does not occur.
\<close>

fun hash_pairs :: "(bytes \<Rightarrow> Hash) \<Rightarrow> Hash list \<Rightarrow> Hash list" where
  "hash_pairs H [] = []"
| "hash_pairs H [a] = []"
| "hash_pairs H (a # b # rest) = hash_branch H a b # hash_pairs H rest"

definition pad_even :: "'a list \<Rightarrow> 'a list" where
  "pad_even layer = (if length layer mod 2 = 1 then layer @ [last layer] else layer)"

lemma length_hash_pairs: "length (hash_pairs H xs) = length xs div 2"
  by (induction H xs rule: hash_pairs.induct) auto

lemma length_pad_even: "length (pad_even xs) = 2 * ((length xs + 1) div 2)"
  by (auto simp: pad_even_def) presburger+

function merkle_layers :: "(bytes \<Rightarrow> Hash) \<Rightarrow> Hash list \<Rightarrow> Hash list" where
  "merkle_layers H layer =
    (if length layer > 1 then merkle_layers H (hash_pairs H (pad_even layer)) else layer)"
  by pat_completeness auto
termination
  by (relation "measure (\<lambda>(H, layer). length layer)")
    (auto simp: length_hash_pairs length_pad_even)

declare merkle_layers.simps [simp del]

definition merkle_root :: "(bytes \<Rightarrow> Hash) \<Rightarrow> bytes list \<Rightarrow> Hash" where
  "merkle_root H leaves =
    (if leaves = [] then dhash H []
     else merkle_layers H (map (hash_leaf H) leaves) ! 0)"

definition blake3_array :: "(bytes \<Rightarrow> Hash) \<Rightarrow> bytes \<Rightarrow> Hash" where
  "blake3_array H data = H data"

definition domain_wrap :: "bytes \<Rightarrow> bytes \<Rightarrow> bytes" where
  "domain_wrap label msg = ascii ''L1/'' @ label @ [0] @ msg"

section \<open>Codec interface\<close>

text \<open>
  What every wire format of the chain promises to its clients: decoding an
  encoded value gives it back. A \<open>canonical\<close> format also promises that there
  is no second encoding of a value, so that a hash of the encoding is a hash
  of the value.
\<close>

locale codec =
  fixes enc :: "'a \<Rightarrow> bytes"
    and dec :: "bytes \<Rightarrow> ('a, 'e) result"
    and valid :: "'a \<Rightarrow> bool"
  assumes dec_enc: "valid x \<Longrightarrow> dec (enc x) = Ok x"
begin

lemma enc_inject: "valid x \<Longrightarrow> valid y \<Longrightarrow> enc x = enc y \<longleftrightarrow> x = y"
  by (metis dec_enc result.inject(1))

lemma inj_on_enc: "inj_on enc {x. valid x}"
  by (rule inj_onI) (simp add: enc_inject)

lemma hash_binds:
  assumes "inj_on H (enc ` {x. valid x} \<inter> S)" "valid x" "valid y"
    and "enc x \<in> S" "enc y \<in> S" "H (enc x) = H (enc y)"
  shows "x = y"
proof -
  have "enc x = enc y"
    using assms by (auto dest: inj_onD)
  with assms show ?thesis by (simp add: enc_inject)
qed

end

locale canonical = codec enc dec valid
  for enc :: "'a \<Rightarrow> bytes" and dec :: "bytes \<Rightarrow> ('a, 'e) result" and valid :: "'a \<Rightarrow> bool" +
  assumes enc_dec: "dec b = Ok x \<Longrightarrow> valid x \<and> enc x = b"
begin

lemma dec_iff: "dec b = Ok x \<longleftrightarrow> valid x \<and> b = enc x"
  using dec_enc enc_dec by blast

lemma unique_encoding: "dec b = Ok x \<Longrightarrow> dec b' = Ok x \<Longrightarrow> b = b'"
  by (simp add: dec_iff)

lemma rejects_iff: "(\<exists>e. dec b = Err e) \<longleftrightarrow> b \<notin> enc ` {x. valid x}"
proof (cases "dec b")
  case (Ok x)
  then have "b = enc x" "valid x" by (simp_all add: dec_iff)
  with Ok show ?thesis by auto
next
  case (Err e)
  then show ?thesis by (auto dest: dec_enc)
qed

end

section \<open>Lemmas\<close>

lemma length_ascii [simp]: "length (ascii s) = length s"
  by (simp add: ascii_def)

lemma length_canonical_encode: "length (canonical_encode p) = 5 + length p"
  by (simp add: canonical_encode_def Let_def)

lemma canonical_decode_encode:
  "length p < 2 ^ 32 \<Longrightarrow> canonical_decode (canonical_encode p) = Ok p"
  by (simp add: canonical_decode_def canonical_encode_def CODEC_VERSION_def Let_def
      slice_def sat_from_def unat_of_nat)

lemma canonical_decode_OkD:
  assumes "canonical_decode b = Ok p"
  shows "length p < 2 ^ 32 \<and> canonical_encode p = b"
proof -
  from assms have len: "5 \<le> length b" and v: "b ! 0 = CODEC_VERSION" and p: "p = drop 5 b"
    and n: "length p = unat (u32_from_be (slice 1 5 b))"
    by (auto simp: canonical_decode_def Let_def split: if_splits)
  have lt: "length p < 2 ^ 32"
    using unat_lt_pow [of "u32_from_be (slice 1 5 b)"] by (simp add: n)
  have "u32_be (sat_from (length p)) = slice 1 5 b"
    using len lt by (simp add: n sat_from_def u_be_from_be(1))
  moreover have "b = [b ! 0] @ slice 1 5 b @ drop 5 b"
    using len by (cases b) (simp_all add: slice_def)
  ultimately show ?thesis
    using lt v p by (simp add: canonical_encode_def Let_def)
qed

interpretation frame: canonical canonical_encode canonical_decode "\<lambda>p. length p < 2 ^ 32"
  by unfold_locales (simp add: canonical_decode_encode, rule canonical_decode_OkD)

text \<open>
  Below half of the \<open>u64\<close> range the saturating test is the exact comparison
  of thrice the power with twice the tot.
\<close>

lemma exceeds_two_thirds_exact:
  assumes "unat tot < 2 ^ 63"
  shows "exceeds_two_thirds p tot \<longleftrightarrow> 2 * unat tot < 3 * unat p"
  using assms
  by (simp add: exceeds_two_thirds_def word_less_nat_alt machine_simps) linarith

lemma exceeds_two_thirds_sound:
  "exceeds_two_thirds p tot \<Longrightarrow> 2 * unat tot < 3 * unat p"
  by (simp add: exceeds_two_thirds_def word_less_nat_alt machine_simps) linarith

end
