(* ===== verification/Types_Tx.thy ===== *)
theory Types_Tx
  imports Types_Core
begin

text \<open>
  Transactions (\<open>crates/types/src/tx.rs\<close>, \<open>staking.rs\<close>): the envelope, its
  payload variants, the constructors, and the wire format. The encoder panics
  on a staking payload that needs a target and has none; \<open>payload_bytes\<close> is
  \<open>None\<close> there. The group of lemmas shows that the format is canonical.
\<close>

section \<open>Definitions\<close>

record Transfer =
  tr_to :: Address
  tr_amount :: Amount

datatype StakeKind = Bond | Unbond | Delegate | Undelegate | Withdraw

record StakePayload =
  sp_kind :: StakeKind
  sp_validator :: "ValidatorId option"
  sp_amount :: Amount

record Deploy =
  dp_code :: bytes

record Call =
  cl_to :: Address
  cl_data :: bytes

datatype TxPayload =
    TransferP Transfer
  | StakeP StakePayload
  | DeployP Deploy
  | CallP Call

record Tx =
  tx_chain_id :: ChainId
  tx_nonce :: Nonce
  tx_gas_limit :: u64
  tx_max_fee :: Amount
  tx_payload :: TxPayload

record SignedTx =
  st_tx :: Tx
  st_signature :: bytes
  st_public_key :: bytes

fun stake_kind_byte :: "StakeKind \<Rightarrow> u8" where
  "stake_kind_byte Bond = 1"
| "stake_kind_byte Unbond = 2"
| "stake_kind_byte Delegate = 3"
| "stake_kind_byte Undelegate = 4"
| "stake_kind_byte Withdraw = 5"

definition tx_transfer ::
  "ChainId \<Rightarrow> Nonce \<Rightarrow> u64 \<Rightarrow> Amount \<Rightarrow> Address \<Rightarrow> Amount \<Rightarrow> Tx" where
  "tx_transfer c n g f to a =
    \<lparr>tx_chain_id = c, tx_nonce = n, tx_gas_limit = g, tx_max_fee = f,
     tx_payload = TransferP \<lparr>tr_to = to, tr_amount = a\<rparr>\<rparr>"

definition tx_deploy :: "ChainId \<Rightarrow> Nonce \<Rightarrow> u64 \<Rightarrow> Amount \<Rightarrow> bytes \<Rightarrow> Tx" where
  "tx_deploy c n g f code =
    \<lparr>tx_chain_id = c, tx_nonce = n, tx_gas_limit = g, tx_max_fee = f,
     tx_payload = DeployP \<lparr>dp_code = code\<rparr>\<rparr>"

definition tx_call :: "ChainId \<Rightarrow> Nonce \<Rightarrow> u64 \<Rightarrow> Amount \<Rightarrow> Address \<Rightarrow> bytes \<Rightarrow> Tx" where
  "tx_call c n g f to data =
    \<lparr>tx_chain_id = c, tx_nonce = n, tx_gas_limit = g, tx_max_fee = f,
     tx_payload = CallP \<lparr>cl_to = to, cl_data = data\<rparr>\<rparr>"

definition stake_tx :: "ChainId \<Rightarrow> Nonce \<Rightarrow> u64 \<Rightarrow> Amount \<Rightarrow> StakePayload \<Rightarrow> Tx" where
  "stake_tx c n g f p =
    \<lparr>tx_chain_id = c, tx_nonce = n, tx_gas_limit = g, tx_max_fee = f, tx_payload = StakeP p\<rparr>"

definition stake_bond ::
  "ChainId \<Rightarrow> Nonce \<Rightarrow> u64 \<Rightarrow> Amount \<Rightarrow> ValidatorId \<Rightarrow> Amount \<Rightarrow> Tx" where
  "stake_bond c n g f v a =
    stake_tx c n g f \<lparr>sp_kind = Bond, sp_validator = Some v, sp_amount = a\<rparr>"

definition stake_unbond ::
  "ChainId \<Rightarrow> Nonce \<Rightarrow> u64 \<Rightarrow> Amount \<Rightarrow> ValidatorId \<Rightarrow> Amount \<Rightarrow> Tx" where
  "stake_unbond c n g f v a =
    stake_tx c n g f \<lparr>sp_kind = Unbond, sp_validator = Some v, sp_amount = a\<rparr>"

definition stake_delegate ::
  "ChainId \<Rightarrow> Nonce \<Rightarrow> u64 \<Rightarrow> Amount \<Rightarrow> ValidatorId \<Rightarrow> Amount \<Rightarrow> Tx" where
  "stake_delegate c n g f v a =
    stake_tx c n g f \<lparr>sp_kind = Delegate, sp_validator = Some v, sp_amount = a\<rparr>"

definition stake_undelegate ::
  "ChainId \<Rightarrow> Nonce \<Rightarrow> u64 \<Rightarrow> Amount \<Rightarrow> ValidatorId \<Rightarrow> Amount \<Rightarrow> Tx" where
  "stake_undelegate c n g f v a =
    stake_tx c n g f \<lparr>sp_kind = Undelegate, sp_validator = Some v, sp_amount = a\<rparr>"

definition stake_withdraw :: "ChainId \<Rightarrow> Nonce \<Rightarrow> u64 \<Rightarrow> Amount \<Rightarrow> Amount \<Rightarrow> Tx" where
  "stake_withdraw c n g f a =
    stake_tx c n g f \<lparr>sp_kind = Withdraw, sp_validator = None, sp_amount = a\<rparr>"

definition as_transfer :: "Tx \<Rightarrow> Transfer option" where
  "as_transfer t = (case tx_payload t of TransferP x \<Rightarrow> Some x | _ \<Rightarrow> None)"

definition as_stake :: "Tx \<Rightarrow> StakePayload option" where
  "as_stake t = (case tx_payload t of StakeP x \<Rightarrow> Some x | _ \<Rightarrow> None)"

definition as_deploy :: "Tx \<Rightarrow> Deploy option" where
  "as_deploy t = (case tx_payload t of DeployP x \<Rightarrow> Some x | _ \<Rightarrow> None)"

definition as_call :: "Tx \<Rightarrow> Call option" where
  "as_call t = (case tx_payload t of CallP x \<Rightarrow> Some x | _ \<Rightarrow> None)"

text \<open>The \<open>match &self.payload\<close> of \<open>payload_bytes\<close>; \<open>None\<close> is \<open>expect("stake target")\<close>.\<close>

fun variant_bytes :: "TxPayload \<Rightarrow> bytes option" where
  "variant_bytes (TransferP t) = Some ([0] @ tr_to t @ u128_be (tr_amount t))"
| "variant_bytes (StakeP s) =
    (case sp_kind s of
       Withdraw \<Rightarrow> Some ([stake_kind_byte (sp_kind s)] @ u128_be (sp_amount s))
     | _ \<Rightarrow> (case sp_validator s of
              None \<Rightarrow> None
            | Some v \<Rightarrow> Some ([stake_kind_byte (sp_kind s)] @ v @ u128_be (sp_amount s))))"
| "variant_bytes (DeployP d) =
    Some ([6] @ u32_be (of_nat (length (dp_code d))) @ dp_code d)"
| "variant_bytes (CallP c) =
    Some ([7] @ cl_to c @ u32_be (of_nat (length (cl_data c))) @ cl_data c)"

definition tx_payload_bytes :: "Tx \<Rightarrow> bytes option" where
  "tx_payload_bytes t =
    map_option (\<lambda>v. u64_be (tx_chain_id t) @ u64_be (tx_nonce t) @ u64_be (tx_gas_limit t) @
                    u128_be (tx_max_fee t) @ v)
      (variant_bytes (tx_payload t))"

definition tx_encode :: "Tx \<Rightarrow> bytes option" where
  "tx_encode t = map_option canonical_encode (tx_payload_bytes t)"

text \<open>The bytes of a transaction whose encoding does not panic; unspecified otherwise.\<close>

definition tx_bytes :: "Tx \<Rightarrow> bytes" where
  "tx_bytes t = the (tx_encode t)"

definition decode_variant :: "bytes \<Rightarrow> (TxPayload, TypesError) result" where
  "decode_variant raw =
    (let tag = raw ! 40 in
     if tag = 0 then
       (if length raw \<noteq> 41 + 32 + 16 then Err (BadLength 89 (length raw))
        else Ok (TransferP \<lparr>tr_to = slice 41 73 raw, tr_amount = u128_from_be (slice 73 89 raw)\<rparr>))
     else if 1 \<le> tag \<and> tag \<le> 4 then
       (if length raw \<noteq> 41 + 48 + 16 then Err (BadLength 105 (length raw))
        else Ok (StakeP
          \<lparr>sp_kind = (if tag = 1 then Bond else if tag = 2 then Unbond
                      else if tag = 3 then Delegate else Undelegate),
           sp_validator = Some (slice 41 89 raw),
           sp_amount = u128_from_be (slice 89 105 raw)\<rparr>))
     else if tag = 5 then
       (if length raw \<noteq> 41 + 16 then Err (BadLength 57 (length raw))
        else Ok (StakeP \<lparr>sp_kind = Withdraw, sp_validator = None,
                         sp_amount = u128_from_be (slice 41 57 raw)\<rparr>))
     else if tag = 6 then
       (if length raw < 45 then Err (BadLength 45 (length raw))
        else let n = unat (u32_from_be (slice 41 45 raw)) in
          if length raw \<noteq> 45 + n then Err (BadLength (45 + n) (length raw))
          else Ok (DeployP \<lparr>dp_code = drop 45 raw\<rparr>))
     else if tag = 7 then
       (if length raw < 41 + 32 + 4 then Err (BadLength 77 (length raw))
        else let n = unat (u32_from_be (slice 73 77 raw)) in
          if length raw \<noteq> 77 + n then Err (BadLength (77 + n) (length raw))
          else Ok (CallP \<lparr>cl_to = slice 41 73 raw, cl_data = drop 77 raw\<rparr>))
     else Err (Kv ''unknown tx payload tag''))"

definition tx_decode :: "bytes \<Rightarrow> (Tx, TypesError) result" where
  "tx_decode buf =
    and_then (canonical_decode buf) (\<lambda>raw.
      if length raw < 8 + 8 + 8 + 16 + 1 then Err (BadLength 41 (length raw))
      else and_then (decode_variant raw) (\<lambda>p.
        Ok \<lparr>tx_chain_id = u64_from_be (slice 0 8 raw),
            tx_nonce = u64_from_be (slice 8 16 raw),
            tx_gas_limit = u64_from_be (slice 16 24 raw),
            tx_max_fee = u128_from_be (slice 24 40 raw),
            tx_payload = p\<rparr>))"

text \<open>
  The values the Rust types and constructors allow: fixed-size arrays have
  their size, a target is present exactly when the kind needs one, and the
  byte vectors fit the 32-bit length prefixes.
\<close>

fun wf_payload :: "TxPayload \<Rightarrow> bool" where
  "wf_payload (TransferP t) = (length (tr_to t) = 32)"
| "wf_payload (StakeP s) =
    (case sp_validator s of
       None \<Rightarrow> sp_kind s = Withdraw
     | Some v \<Rightarrow> sp_kind s \<noteq> Withdraw \<and> length v = 48)"
| "wf_payload (DeployP d) = (length (dp_code d) + 45 < 2 ^ 32)"
| "wf_payload (CallP c) = (length (cl_to c) = 32 \<and> length (cl_data c) + 77 < 2 ^ 32)"

definition wf_tx :: "Tx \<Rightarrow> bool" where
  "wf_tx t = wf_payload (tx_payload t)"

section \<open>The format is canonical\<close>

lemma variant_bytes_wf:
  "wf_payload p \<Longrightarrow> \<exists>v. variant_bytes p = Some v \<and> v \<noteq> [] \<and> length v + 40 < 2 ^ 32"
  by (cases p) (auto split: option.splits StakeKind.splits)

lemma tx_encode_wf: "wf_tx t \<Longrightarrow> tx_encode t = Some (tx_bytes t)"
  using variant_bytes_wf [of "tx_payload t"]
  by (auto simp: tx_bytes_def tx_encode_def tx_payload_bytes_def wf_tx_def)

lemma decode_variant_bytes:
  assumes h: "length h = 40" and wf: "wf_payload p" and v: "variant_bytes p = Some v"
  shows "decode_variant (h @ v) = Ok p"
proof (cases p)
  case (TransferP t)
  then show ?thesis using assms
    by (auto simp: decode_variant_def slice_def nth_append)
next
  case (StakeP s)
  then show ?thesis using assms
    by (cases "sp_kind s")
     (auto simp: decode_variant_def slice_def nth_append split: option.splits)
next
  case (DeployP d)
  then show ?thesis using assms
    by (auto simp: decode_variant_def slice_def nth_append unat_of_nat)
next
  case (CallP c)
  then show ?thesis using assms
    by (auto simp: decode_variant_def slice_def nth_append unat_of_nat)
qed

lemma stake_tags:
  fixes tag :: u8
  assumes "1 \<le> tag" "tag \<le> 4"
  shows "tag = 1 \<or> tag = 2 \<or> tag = 3 \<or> tag = 4"
proof -
  have "unat tag \<in> {1, 2, 3, 4}"
    using assms by (auto simp: word_le_nat_alt)
  then show ?thesis by (auto simp: word_unat_eq_iff)
qed

lemma decode_variant_OkD:
  assumes len: "41 \<le> length raw" "length raw < 2 ^ 32" and ok: "decode_variant raw = Ok p"
  shows "wf_payload p \<and> variant_bytes p = Some (drop 40 raw)"
proof -
  have d: "drop 40 raw = [raw ! 40] @ drop 41 raw"
    using len by (simp add: drop_nth)
  consider (transfer) "raw ! 40 = 0" | (stake) "1 \<le> raw ! 40" "raw ! 40 \<le> 4"
    | (withdraw) "raw ! 40 = 5" | (deploy) "raw ! 40 = 6" | (call) "raw ! 40 = 7"
    using ok by (auto simp: decode_variant_def Let_def split: if_splits)
  then show ?thesis
  proof cases
    case transfer
    then show ?thesis
      using ok d drop_slice [of 41 73 raw]
      by (auto simp: decode_variant_def u_be_from_be slice_end split: if_splits)
  next
    case stake
    have "length raw = 105"
      using ok stake by (auto simp: decode_variant_def Let_def split: if_splits)
    then show ?thesis
      using ok d drop_slice [of 41 89 raw] stake_tags [OF stake]
      by (elim disjE) (auto simp: decode_variant_def u_be_from_be slice_end)
  next
    case withdraw
    then show ?thesis
      using ok d by (auto simp: decode_variant_def u_be_from_be slice_end split: if_splits)
  next
    case deploy
    have n: "45 \<le> length raw" "length raw = 45 + unat (u32_from_be (slice 41 45 raw))"
      and p: "p = DeployP \<lparr>dp_code = drop 45 raw\<rparr>"
      using ok deploy by (simp_all add: decode_variant_def Let_def split: if_splits)
    have "(of_nat (length raw - 45) :: u32) = u32_from_be (slice 41 45 raw)"
      by (subst n(2)) simp
    then show ?thesis
      using d len n(1) deploy drop_slice [of 41 45 raw] by (simp add: p u_be_from_be)
  next
    case call
    have n: "77 \<le> length raw" "length raw = 77 + unat (u32_from_be (slice 73 77 raw))"
      and p: "p = CallP \<lparr>cl_to = slice 41 73 raw, cl_data = drop 77 raw\<rparr>"
      using ok call by (simp_all add: decode_variant_def Let_def split: if_splits)
    have "(of_nat (length raw - 77) :: u32) = u32_from_be (slice 73 77 raw)"
      by (subst n(2)) simp
    then show ?thesis
      using d len n(1) call drop_slice [of 41 73 raw] drop_slice [of 73 77 raw]
      by (simp add: p u_be_from_be)
  qed
qed

lemma tx_payload_bytes_length:
  "wf_tx t \<Longrightarrow> tx_payload_bytes t = Some raw \<Longrightarrow> 41 \<le> length raw \<and> length raw < 2 ^ 32"
  using variant_bytes_wf [of "tx_payload t"]
  by (auto simp: tx_payload_bytes_def wf_tx_def Suc_le_eq)

lemma tx_decode_bytes: "wf_tx t \<Longrightarrow> tx_decode (tx_bytes t) = Ok t"
proof -
  assume wf: "wf_tx t"
  then obtain v where v: "variant_bytes (tx_payload t) = Some v"
    using variant_bytes_wf [of "tx_payload t"] by (auto simp: wf_tx_def)
  define h where "h = u64_be (tx_chain_id t) @ u64_be (tx_nonce t) @ u64_be (tx_gas_limit t) @
    u128_be (tx_max_fee t)"
  have raw: "tx_payload_bytes t = Some (h @ v)" and h: "length h = 40"
    by (simp_all add: tx_payload_bytes_def v h_def)
  have len: "41 \<le> length (h @ v)" "length (h @ v) < 2 ^ 32"
    using tx_payload_bytes_length [OF wf raw] by simp_all
  have "decode_variant (h @ v) = Ok (tx_payload t)"
    using decode_variant_bytes h v wf by (simp add: wf_tx_def)
  moreover have "canonical_decode (tx_bytes t) = Ok (h @ v)"
    using len(2) raw by (simp add: tx_bytes_def tx_encode_def canonical_decode_encode)
  ultimately show ?thesis
    using len(1) by (auto simp: tx_decode_def h_def slice_def)
qed

lemma tx_decode_OkD:
  assumes "tx_decode b = Ok t"
  shows "wf_tx t \<and> tx_bytes t = b"
proof -
  from assms obtain raw p where raw: "canonical_decode b = Ok raw" and len: "41 \<le> length raw"
    and p: "decode_variant raw = Ok p"
    and t: "t = \<lparr>tx_chain_id = u64_from_be (slice 0 8 raw), tx_nonce = u64_from_be (slice 8 16 raw),
      tx_gas_limit = u64_from_be (slice 16 24 raw), tx_max_fee = u128_from_be (slice 24 40 raw),
      tx_payload = p\<rparr>"
    by (auto simp: tx_decode_def result_simps split: if_splits)
  have lt: "length raw < 2 ^ 32" and b: "canonical_encode raw = b"
    using canonical_decode_OkD [OF raw] by simp_all
  have v: "wf_payload p" "variant_bytes p = Some (drop 40 raw)"
    using decode_variant_OkD [OF len lt p] by simp_all
  have "slice 0 8 raw @ slice 8 16 raw @ slice 16 24 raw @ slice 24 40 raw @ drop 40 raw = raw"
    using drop_slice [of 0 8 raw] drop_slice [of 8 16 raw] drop_slice [of 16 24 raw]
      drop_slice [of 24 40 raw] by simp
  then have "tx_payload_bytes t = Some raw"
    using len v(2) by (simp add: t tx_payload_bytes_def u_be_from_be)
  then show ?thesis
    using v(1) b by (simp add: wf_tx_def t tx_bytes_def tx_encode_def)
qed

interpretation tx_format: canonical tx_bytes tx_decode wf_tx
  by unfold_locales (simp_all add: tx_decode_bytes tx_decode_OkD)

end
