(* ===== verification/Types_Block.thy ===== *)
theory Types_Block
  imports Types_Tx
begin

text \<open>
  Blocks, headers and genesis (\<open>block.rs\<close>, \<open>header.rs\<close>, \<open>genesis.rs\<close> of
  \<open>crates/types\<close>). A clock is the value \<open>now_millis\<close> returns, passed as an
  argument. The lemmas show that the hashed preimage of a header and of the
  genesis object determine them.
\<close>

section \<open>Headers and blocks\<close>

record HeaderFields =
  hf_height :: Height
  hf_round :: Round
  hf_proposer :: ValidatorId
  hf_timestamp_ms :: u64

record Header =
  hd_fields :: HeaderFields
  hd_tx_root :: Hash
  hd_state_root :: Hash
  hd_receipts_root :: Hash
  hd_validators_hash :: Hash
  hd_da_root :: Hash

record Block =
  bk_header_fields :: HeaderFields
  bk_txs :: "SignedTx list"

definition GENESIS_HEIGHT :: Height where "GENESIS_HEIGHT = 0"

definition HASH_ZERO :: Hash where "HASH_ZERO = replicate 32 0"

definition DA_ROOT_PLACEHOLDER :: Hash where "DA_ROOT_PLACEHOLDER = HASH_ZERO"

definition timestamp_in_bounds :: "u64 \<Rightarrow> Height \<Rightarrow> u64 \<Rightarrow> u64 \<Rightarrow> u64 \<Rightarrow> bool" where
  "timestamp_in_bounds now height prev proposed max_drift =
    (if height \<noteq> GENESIS_HEIGHT \<and> proposed < prev then False
     else proposed \<le> saturating_add now max_drift)"

definition header_fields_new ::
  "u64 \<Rightarrow> Height \<Rightarrow> Round \<Rightarrow> ValidatorId \<Rightarrow> u64 \<Rightarrow> u64 \<Rightarrow> HeaderFields option" where
  "header_fields_new now height round proposer prev ts =
    (if \<not> timestamp_in_bounds now height prev ts MAX_TIMESTAMP_DRIFT_MS then None
     else Some \<lparr>hf_height = height, hf_round = round, hf_proposer = proposer,
                hf_timestamp_ms = ts\<rparr>)"

type_synonym ValidatorSet = "(ValidatorId, VotingPower) btree"

fun validator_entry :: "ValidatorId \<times> VotingPower \<Rightarrow> bytes" where
  "validator_entry (i, p) = i @ u64_be p"

definition validators_hash :: "(bytes \<Rightarrow> Hash) \<Rightarrow> ValidatorSet \<Rightarrow> Hash" where
  "validators_hash H validators = merkle_root H (map validator_entry validators)"

definition header_preimage :: "Header \<Rightarrow> bytes" where
  "header_preimage h =
    u64_be (hf_height (hd_fields h)) @ u32_be (hf_round (hd_fields h)) @
    hf_proposer (hd_fields h) @ u64_be (hf_timestamp_ms (hd_fields h)) @
    hd_tx_root h @ hd_state_root h @ hd_receipts_root h @ hd_validators_hash h @ hd_da_root h"

definition header_hash :: "(bytes \<Rightarrow> Hash) \<Rightarrow> Header \<Rightarrow> Hash" where
  "header_hash H h = blake3_array H (domain_wrap (ascii ''header'') (header_preimage h))"

definition apply_da_root :: "Header \<Rightarrow> Hash \<Rightarrow> Header" where
  "apply_da_root h r = h\<lparr>hd_da_root := r\<rparr>"

definition tx_root :: "(bytes \<Rightarrow> Hash) \<Rightarrow> Tx list \<Rightarrow> Hash" where
  "tx_root H txs = merkle_root H (map tx_bytes txs)"

definition tx_root_signed :: "(bytes \<Rightarrow> Hash) \<Rightarrow> SignedTx list \<Rightarrow> Hash" where
  "tx_root_signed H txs = tx_root H (map st_tx txs)"

definition receipts_root :: "(bytes \<Rightarrow> Hash) \<Rightarrow> bytes list \<Rightarrow> Hash" where
  "receipts_root H rs = merkle_root H rs"

definition state_root :: "(bytes \<Rightarrow> Hash) \<Rightarrow> Hash \<Rightarrow> Hash \<Rightarrow> Hash" where
  "state_root H account_root contract_root = merkle_root H [account_root, contract_root]"

definition envelopes :: "Block \<Rightarrow> Tx list" where
  "envelopes b = map st_tx (bk_txs b)"

section \<open>Genesis\<close>

record GenesisAccount =
  ga_balance :: Amount
  ga_nonce :: Nonce
  ga_code_hash :: Hash

record GenesisTimeouts =
  gt_propose_ms :: u64
  gt_prevote_ms :: u64
  gt_precommit_ms :: u64
  gt_delta_ms :: u64

record GenesisParams =
  gp_registry :: ParamsRegistry
  gp_timeouts :: GenesisTimeouts

record Genesis =
  gn_chain_id :: ChainId
  gn_alloc :: "(Address, GenesisAccount) btree"
  gn_validators :: ValidatorSet
  gn_params :: GenesisParams

definition from_spec_constants :: GenesisTimeouts where
  "from_spec_constants =
    \<lparr>gt_propose_ms = TIMEOUT_PROPOSE_MS, gt_prevote_ms = TIMEOUT_PREVOTE_MS,
     gt_precommit_ms = TIMEOUT_PRECOMMIT_MS, gt_delta_ms = TIMEOUT_DELTA_MS\<rparr>"

definition from_registry :: "ParamsRegistry \<Rightarrow> GenesisParams" where
  "from_registry r = \<lparr>gp_registry = r, gp_timeouts = from_spec_constants\<rparr>"

definition genesis_new :: "ChainId \<Rightarrow> Genesis" where
  "genesis_new c = \<lparr>gn_chain_id = c, gn_alloc = [], gn_validators = [],
                    gn_params = from_registry params_new\<rparr>"

definition insert_alloc :: "Genesis \<Rightarrow> Address \<Rightarrow> GenesisAccount \<Rightarrow> Genesis" where
  "insert_alloc g a acc = g\<lparr>gn_alloc := bt_insert a acc (gn_alloc g)\<rparr>"

definition insert_validator :: "Genesis \<Rightarrow> ValidatorId \<Rightarrow> VotingPower \<Rightarrow> Genesis" where
  "insert_validator g v p = g\<lparr>gn_validators := bt_insert v p (gn_validators g)\<rparr>"

definition param_id_byte :: "ParamId \<Rightarrow> u8" where
  "param_id_byte i =
    (case i of MaxBlockBytes \<Rightarrow> 0 | MaxTxBytes \<Rightarrow> 1 | MaxGas \<Rightarrow> 2 | EpochLength \<Rightarrow> 3
     | UnbondingPeriod \<Rightarrow> 4 | TimeoutProposeMs \<Rightarrow> 5 | TimeoutPrevoteMs \<Rightarrow> 6
     | TimeoutPrecommitMs \<Rightarrow> 7 | TimeoutDeltaMs \<Rightarrow> 8 | MaxTimestampDriftMs \<Rightarrow> 9
     | MinSelfBond \<Rightarrow> 10 | DelegationCap \<Rightarrow> 11 | SlashPercent \<Rightarrow> 12)"

fun alloc_entry :: "Address \<times> GenesisAccount \<Rightarrow> bytes" where
  "alloc_entry (addr, a) =
    addr @ u128_be (ga_balance a) @ u64_be (ga_nonce a) @ ga_code_hash a"

fun param_entry :: "ParamId \<times> u64 \<Rightarrow> bytes" where
  "param_entry (i, v) = param_id_byte i # u64_be v"

definition genesis_preimage :: "Genesis \<Rightarrow> bytes" where
  "genesis_preimage g =
    u64_be (gn_chain_id g) @
    u32_be (of_nat (length (gn_alloc g))) @
    concat (map alloc_entry (gn_alloc g)) @
    u32_be (of_nat (length (gn_validators g))) @
    concat (map validator_entry (gn_validators g)) @
    u32_be (of_nat (length (gp_registry (gn_params g)))) @
    concat (map param_entry (gp_registry (gn_params g))) @
    u64_be (gt_propose_ms (gp_timeouts (gn_params g))) @
    u64_be (gt_prevote_ms (gp_timeouts (gn_params g))) @
    u64_be (gt_precommit_ms (gp_timeouts (gn_params g))) @
    u64_be (gt_delta_ms (gp_timeouts (gn_params g)))"

definition genesis_hash :: "(bytes \<Rightarrow> Hash) \<Rightarrow> Genesis \<Rightarrow> Hash" where
  "genesis_hash H g = blake3_array H (genesis_preimage g)"

section \<open>Well-formed values\<close>

text \<open>The sizes of the fixed-size arrays of the Rust types.\<close>

definition wf_header :: "Header \<Rightarrow> bool" where
  "wf_header h =
    (length (hf_proposer (hd_fields h)) = 48 \<and> length (hd_tx_root h) = 32 \<and>
     length (hd_state_root h) = 32 \<and> length (hd_receipts_root h) = 32 \<and>
     length (hd_validators_hash h) = 32 \<and> length (hd_da_root h) = 32)"

definition wf_genesis :: "Genesis \<Rightarrow> bool" where
  "wf_genesis g =
    (list_all (\<lambda>(a, acc). length a = 32 \<and> length (ga_code_hash acc) = 32) (gn_alloc g) \<and>
     list_all (\<lambda>(v, p). length v = 48) (gn_validators g) \<and>
     length (gn_alloc g) < 2 ^ 32 \<and> length (gn_validators g) < 2 ^ 32 \<and>
     length (gp_registry (gn_params g)) < 2 ^ 32)"

section \<open>Preimages determine their objects\<close>

lemma length_header_preimage: "wf_header h \<Longrightarrow> length (header_preimage h) = 228"
  by (simp add: wf_header_def header_preimage_def)

lemma header_preimage_inject:
  assumes "wf_header h" "wf_header h'" "header_preimage h = header_preimage h'"
  shows "h = h'"
proof -
  have "hd_fields h = hd_fields h'"
    using assms by (auto simp: wf_header_def header_preimage_def intro!: HeaderFields.equality)
  with assms show ?thesis
    by (auto simp: wf_header_def header_preimage_def intro!: Header.equality)
qed

lemma concat_map_inject:
  assumes "concat (map f xs) @ r = concat (map f ys) @ r'" "length xs = length ys"
    and len: "\<And>x. x \<in> set xs \<union> set ys \<Longrightarrow> length (f x) = n"
    and inj: "inj_on f (set xs \<union> set ys)"
  shows "xs = ys \<and> r = r'"
  using assms(2,1) len inj
proof (induction xs ys rule: list_induct2)
  case (Cons x xs y ys)
  have "length (f x) = length (f y)" using Cons.prems(2) by simp
  with Cons.prems(1) have f: "f x = f y"
    and rest: "concat (map f xs) @ r = concat (map f ys) @ r'" by auto
  have "x = y" by (rule inj_onD [OF Cons.prems(3) f]) simp_all
  moreover have "xs = ys \<and> r = r'"
    using Cons.IH [OF rest] Cons.prems(2,3) by (auto intro: inj_on_subset)
  ultimately show ?case by simp
qed simp

lemma param_id_byte_inject: "param_id_byte a = param_id_byte b \<longleftrightarrow> a = b"
  by (cases a; cases b) (simp_all add: param_id_byte_def)

lemma of_nat_u32_inject: "m < 2 ^ 32 \<Longrightarrow> n < 2 ^ 32 \<Longrightarrow> (of_nat m :: u32) = of_nat n \<Longrightarrow> m = n"
  by (simp add: word_unat_eq_iff unat_of_nat)

definition wf_alloc :: "Address \<times> GenesisAccount \<Rightarrow> bool" where
  "wf_alloc x = (length (fst x) = 32 \<and> length (ga_code_hash (snd x)) = 32)"

lemma entry_lengths:
  "wf_alloc a \<Longrightarrow> length (alloc_entry a) = 88"
  "length (fst v) = 48 \<Longrightarrow> length (validator_entry v) = 56"
  "length (param_entry p) = 9"
  by (cases a, cases v, cases p, simp add: wf_alloc_def)+

lemma entries_inject:
  "inj_on alloc_entry {x. wf_alloc x}"
  "inj_on validator_entry {x. length (fst x) = 48}"
  "inj param_entry"
  by (auto simp: inj_on_def wf_alloc_def param_id_byte_inject intro: GenesisAccount.equality)

text \<open>A counted list of fixed-size entries, followed by more bytes, can be split again.\<close>

lemma counted_inject:
  assumes eq: "u32_be (of_nat (length xs)) @ concat (map f xs) @ r =
      u32_be (of_nat (length ys)) @ concat (map f ys) @ r'"
    and small: "length xs < 2 ^ 32" "length ys < 2 ^ 32"
    and wf: "\<And>x. x \<in> set xs \<union> set ys \<Longrightarrow> P x"
    and len: "\<And>x. P x \<Longrightarrow> length (f x) = n"
    and inj: "inj_on f {x. P x}"
  shows "xs = ys \<and> r = r'"
proof -
  have "length xs = length ys"
    using eq small by (auto intro: of_nat_u32_inject)
  moreover have "concat (map f xs) @ r = concat (map f ys) @ r'"
    using eq by auto
  moreover have "inj_on f (set xs \<union> set ys)"
    using wf by (auto intro: inj_on_subset [OF inj])
  ultimately show ?thesis
    using wf len by (intro concat_map_inject [where n = n]) auto
qed

lemma genesis_preimage_inject:
  assumes wf: "wf_genesis g" "wf_genesis g'" and eq: "genesis_preimage g = genesis_preimage g'"
  shows "g = g'"
proof -
  let ?to = "\<lambda>g. gp_timeouts (gn_params g)"
  let ?times = "\<lambda>g. u64_be (gt_propose_ms (?to g)) @ u64_be (gt_prevote_ms (?to g)) @
    u64_be (gt_precommit_ms (?to g)) @ u64_be (gt_delta_ms (?to g))"
  let ?reg = "\<lambda>g. gp_registry (gn_params g)"
  let ?tail2 = "\<lambda>g. u32_be (of_nat (length (?reg g))) @ concat (map param_entry (?reg g)) @ ?times g"
  let ?tail1 = "\<lambda>g. u32_be (of_nat (length (gn_validators g))) @
    concat (map validator_entry (gn_validators g)) @ ?tail2 g"
  have chain: "gn_chain_id g = gn_chain_id g'"
    and a: "u32_be (of_nat (length (gn_alloc g))) @ concat (map alloc_entry (gn_alloc g)) @ ?tail1 g =
      u32_be (of_nat (length (gn_alloc g'))) @ concat (map alloc_entry (gn_alloc g')) @ ?tail1 g'"
    using eq by (auto simp: genesis_preimage_def)
  have A: "gn_alloc g = gn_alloc g' \<and> ?tail1 g = ?tail1 g'"
    by (rule counted_inject [OF a _ _ _ entry_lengths(1) entries_inject(1)])
      (use wf in \<open>auto simp: wf_genesis_def list_all_iff wf_alloc_def\<close>)
  have V: "gn_validators g = gn_validators g' \<and> ?tail2 g = ?tail2 g'"
    by (rule counted_inject [OF _ _ _ _ entry_lengths(2) entries_inject(2)])
      (use wf A in \<open>auto simp: wf_genesis_def list_all_iff\<close>)
  have P: "?reg g = ?reg g' \<and> ?times g = ?times g'"
    by (rule counted_inject [where P = "\<lambda>_. True", OF _ _ _ _ entry_lengths(3)])
      (use wf V entries_inject(3) in \<open>auto simp: wf_genesis_def\<close>)
  then have "gn_params g = gn_params g'"
    by (auto intro!: GenesisParams.equality GenesisTimeouts.equality)
  with chain A V show ?thesis
    by (auto intro!: Genesis.equality)
qed

end
