(* ===== verification/Crypto.thy ===== *)
theory Crypto
  imports Types_Block
begin

text \<open>
  The wrappers of \<open>crates/crypto\<close>. The curve libraries (\<open>blst\<close>,
  \<open>ed25519_dalek\<close>) are third-party code: their operations are the fields of
  the records \<open>Blst\<close> and \<open>Ed25519\<close>, which the definitions take as arguments.
  Their opaque keys, points and signatures are represented by byte strings.
  The module \<open>vrf.rs\<close> is the argument \<open>vrf_verify\<close> of the definitions that
  use it.
\<close>

section \<open>Domain separation (domain.rs)\<close>

datatype DomainTag = TxTag | HeaderTag | VoteTag | VrfTag | MptNodeTag | MerkleTag

fun label :: "DomainTag \<Rightarrow> bytes" where
  "label TxTag = ascii ''tx''"
| "label HeaderTag = ascii ''header''"
| "label VoteTag = ascii ''vote''"
| "label VrfTag = ascii ''vrf''"
| "label MptNodeTag = ascii ''mpt-node''"
| "label MerkleTag = ascii ''merkle''"

definition apply_domain :: "DomainTag \<Rightarrow> bytes \<Rightarrow> bytes" where
  "apply_domain tag msg = ascii ''L1/'' @ label tag @ [0] @ msg"

definition hash_to_array :: "(bytes \<Rightarrow> Hash) \<Rightarrow> bytes \<Rightarrow> Hash" where
  "hash_to_array H data = H data"

section \<open>BLS signatures (sig/bls.rs)\<close>

record Blst =
  sk_sign :: "bytes \<Rightarrow> bytes \<Rightarrow> bytes \<Rightarrow> bytes"
  sig_verify :: "bytes \<Rightarrow> bytes \<Rightarrow> bytes \<Rightarrow> bytes \<Rightarrow> bool"
  sig_from_bytes :: "bytes \<Rightarrow> bytes option"
  sig_to_bytes :: "bytes \<Rightarrow> bytes"
  pk_from_bytes :: "bytes \<Rightarrow> bytes option"
  agg_from_sig :: "bytes \<Rightarrow> bytes"
  agg_add_sig :: "bytes \<Rightarrow> bytes \<Rightarrow> bytes option"
  agg_to_sig :: "bytes \<Rightarrow> bytes"
  apk_from_pk :: "bytes \<Rightarrow> bytes"
  apk_add_pk :: "bytes \<Rightarrow> bytes \<Rightarrow> bytes option"
  apk_to_pk :: "bytes \<Rightarrow> bytes"

definition DST :: bytes where
  "DST = ascii ''BLS_SIG_BLS12381G2_XMD:SHA-256_SSWU_RO_POP_''"

datatype BlsError = BlsKeygen | BlsVerify | BlsAggregate

definition bls_sign :: "Blst \<Rightarrow> bytes \<Rightarrow> bytes \<Rightarrow> bytes" where
  "bls_sign B sk msg = sk_sign B sk msg DST"

definition bls_verify :: "Blst \<Rightarrow> bytes \<Rightarrow> bytes \<Rightarrow> bytes \<Rightarrow> (unit, BlsError) result" where
  "bls_verify B pk msg sig = (if sig_verify B sig msg DST pk then Ok () else Err BlsVerify)"

fun agg_add_all :: "Blst \<Rightarrow> bytes \<Rightarrow> bytes list \<Rightarrow> (bytes, BlsError) result" where
  "agg_add_all B agg [] = Ok agg"
| "agg_add_all B agg (s # ss) =
    (case agg_add_sig B agg s of
       None \<Rightarrow> Err BlsAggregate
     | Some agg' \<Rightarrow> agg_add_all B agg' ss)"

fun bls_aggregate :: "Blst \<Rightarrow> bytes list \<Rightarrow> (bytes, BlsError) result" where
  "bls_aggregate B [] = Err BlsAggregate"
| "bls_aggregate B (s # ss) =
    and_then (agg_add_all B (agg_from_sig B s) ss) (\<lambda>agg. Ok (agg_to_sig B agg))"

fun apk_add_all :: "Blst \<Rightarrow> bytes \<Rightarrow> bytes list \<Rightarrow> (bytes, BlsError) result" where
  "apk_add_all B apk [] = Ok apk"
| "apk_add_all B apk (p # ps) =
    (case apk_add_pk B apk p of
       None \<Rightarrow> Err BlsAggregate
     | Some apk' \<Rightarrow> apk_add_all B apk' ps)"

text \<open>\<open>verify_fast_aggregate\<close> reads \<open>pks[0]\<close>; \<open>None\<close> is the panic on an empty slice.\<close>

fun verify_fast_aggregate ::
  "Blst \<Rightarrow> bytes \<Rightarrow> bytes list \<Rightarrow> bytes \<Rightarrow> (unit, BlsError) result option" where
  "verify_fast_aggregate B agg [] msg = None"
| "verify_fast_aggregate B agg (p # ps) msg =
    Some (and_then (apk_add_all B (apk_from_pk B p) ps)
      (\<lambda>apk. bls_verify B (apk_to_pk B apk) msg agg))"

section \<open>Ed25519 transaction signatures (sig/ed25519.rs, tx.rs, address.rs)\<close>

record Ed25519 =
  ed_pk_from_bytes :: "bytes \<Rightarrow> bytes option"
  ed_pk_bytes :: "bytes \<Rightarrow> bytes"
  ed_pk_verify :: "bytes \<Rightarrow> bytes \<Rightarrow> bytes \<Rightarrow> bool"
  ed_sk_sign :: "bytes \<Rightarrow> bytes \<Rightarrow> bytes"
  ed_verifying_key :: "bytes \<Rightarrow> bytes"

datatype Ed25519Error = EdPublicKey | EdSignature

definition ed_verify :: "Ed25519 \<Rightarrow> bytes \<Rightarrow> bytes \<Rightarrow> bytes \<Rightarrow> (unit, Ed25519Error) result" where
  "ed_verify E pk msg sig = (if ed_pk_verify E pk msg sig then Ok () else Err EdSignature)"

definition public_key_from_bytes :: "Ed25519 \<Rightarrow> bytes \<Rightarrow> (bytes, Ed25519Error) result" where
  "public_key_from_bytes E b = ok_or EdPublicKey (ed_pk_from_bytes E b)"

definition tx_signed_message :: "Tx \<Rightarrow> bytes" where
  "tx_signed_message t = apply_domain TxTag (tx_bytes t)"

definition tx_sign :: "Ed25519 \<Rightarrow> bytes \<Rightarrow> Tx \<Rightarrow> SignedTx" where
  "tx_sign E sk t =
    \<lparr>st_tx = t, st_signature = ed_sk_sign E sk (tx_signed_message t),
     st_public_key = ed_pk_bytes E (ed_verifying_key E sk)\<rparr>"

definition verify_ed25519 :: "Ed25519 \<Rightarrow> SignedTx \<Rightarrow> (unit, Ed25519Error) result" where
  "verify_ed25519 E s =
    and_then (public_key_from_bytes E (st_public_key s)) (\<lambda>pk.
      ed_verify E pk (tx_signed_message (st_tx s)) (st_signature s))"

definition from_ed25519 :: "(bytes \<Rightarrow> Hash) \<Rightarrow> Ed25519 \<Rightarrow> bytes \<Rightarrow> Address" where
  "from_ed25519 H E pk = hash_to_array H (ed_pk_bytes E pk)"

section \<open>Lemmas\<close>

lemma label_no_zero: "0 \<notin> set (label t)"
  by (cases t) (simp_all add: ascii_def)

lemma label_inject: "label s = label t \<longleftrightarrow> s = t"
  by (cases s; cases t) (simp_all add: ascii_def)

lemma split_at_zero:
  assumes "xs @ (0 :: 8 word) # r = ys @ 0 # r'" "0 \<notin> set xs" "0 \<notin> set ys"
  shows "xs = ys \<and> r = r'"
  using assms
proof (induction xs arbitrary: ys)
  case Nil
  then show ?case by (cases ys) auto
next
  case (Cons x xs)
  then show ?case by (cases ys) auto
qed

lemma apply_domain_eq_iff:
  "apply_domain s m = apply_domain t n \<longleftrightarrow> s = t \<and> m = n"
proof
  assume "apply_domain s m = apply_domain t n"
  then have "label s @ 0 # m = label t @ 0 # n"
    by (simp add: apply_domain_def)
  then show "s = t \<and> m = n"
    using split_at_zero [OF _ label_no_zero label_no_zero] by (simp add: label_inject)
qed simp

lemma apply_domain_domain_wrap: "apply_domain t m = domain_wrap (label t) m"
  by (simp add: apply_domain_def domain_wrap_def)

lemma dhash_domain_wrap: "dhash H p = H (apply_domain MerkleTag p)"
  by (simp add: dhash_def apply_domain_def ascii_def)

end
