(* ===== verification/Consensus_Vote.thy ===== *)
theory Consensus_Vote
  imports Crypto
begin

text \<open>
  Votes (\<open>replay.rs\<close>, \<open>vote.rs\<close> of \<open>crates/consensus\<close>): the signed message, the
  replay key of a voting slot, the replay log that detects equivocation, and
  vote verification. The lemmas show that signed messages and replay keys
  separate slots and values, and that the log keeps one value per slot.
\<close>

section \<open>Definitions\<close>

datatype VoteKind = Prevote | Precommit

fun vote_kind_byte :: "VoteKind \<Rightarrow> u8" where
  "vote_kind_byte Prevote = 0"
| "vote_kind_byte Precommit = 1"

datatype VoteBlock = VNil | VBlock Hash

text \<open>The derived order: \<open>Nil\<close> before every block, blocks by their hash.\<close>

instantiation VoteBlock :: linorder
begin

fun less_eq_VoteBlock :: "VoteBlock \<Rightarrow> VoteBlock \<Rightarrow> bool" where
  "less_eq_VoteBlock VNil b = True"
| "less_eq_VoteBlock (VBlock h) VNil = False"
| "less_eq_VoteBlock (VBlock h) (VBlock h') = (h \<le> h')"

definition less_VoteBlock :: "VoteBlock \<Rightarrow> VoteBlock \<Rightarrow> bool" where
  "less_VoteBlock a b = (a \<le> b \<and> \<not> b \<le> a)"

instance
proof
  fix x y z :: VoteBlock
  show "(x < y) = (x \<le> y \<and> \<not> y \<le> x)" by (rule less_VoteBlock_def)
  show "x \<le> x" by (cases x) simp_all
  show "x \<le> y \<Longrightarrow> y \<le> z \<Longrightarrow> x \<le> z" by (cases x; cases y; cases z) auto
  show "x \<le> y \<Longrightarrow> y \<le> x \<Longrightarrow> x = y" by (cases x; cases y) auto
  show "x \<le> y \<or> y \<le> x" by (cases x; cases y) auto
qed

end

fun vote_block_encode :: "VoteBlock \<Rightarrow> bytes" where
  "vote_block_encode VNil = [0]"
| "vote_block_encode (VBlock h) = [1] @ h"

record Vote =
  vt_height :: Height
  vt_round :: Round
  vt_kind :: VoteKind
  vt_block :: VoteBlock
  vt_signer :: ValidatorId
  vt_signature :: bytes

definition replay_key ::
  "(bytes \<Rightarrow> Hash) \<Rightarrow> ValidatorId \<Rightarrow> Height \<Rightarrow> Round \<Rightarrow> VoteKind \<Rightarrow> Hash" where
  "replay_key H signer height round kind =
    hash_to_array H (apply_domain VoteTag
      (signer @ u64_be height @ u32_be round @ [vote_kind_byte kind]))"

definition vote_hash ::
  "(bytes \<Rightarrow> Hash) \<Rightarrow> ValidatorId \<Rightarrow> Height \<Rightarrow> Round \<Rightarrow> VoteKind \<Rightarrow> bytes \<Rightarrow> Hash" where
  "vote_hash H signer height round kind block_id =
    hash_to_array H (apply_domain VoteTag
      (signer @ u64_be height @ u32_be round @ [vote_kind_byte kind] @ block_id))"

definition signed_message :: "Height \<Rightarrow> Round \<Rightarrow> VoteKind \<Rightarrow> VoteBlock \<Rightarrow> bytes" where
  "signed_message height round kind block =
    apply_domain VoteTag
      (u64_be height @ u32_be round @ [vote_kind_byte kind] @ vote_block_encode block)"

definition sign_vote ::
  "Blst \<Rightarrow> bytes \<Rightarrow> ValidatorId \<Rightarrow> Height \<Rightarrow> Round \<Rightarrow> VoteKind \<Rightarrow> VoteBlock \<Rightarrow> Vote" where
  "sign_vote B sk signer height round kind block =
    \<lparr>vt_height = height, vt_round = round, vt_kind = kind, vt_block = block,
     vt_signer = signer,
     vt_signature = sig_to_bytes B (bls_sign B sk (signed_message height round kind block))\<rparr>"

definition prevote ::
  "(bytes \<Rightarrow> Hash) \<Rightarrow> Blst \<Rightarrow> bytes \<Rightarrow> ValidatorId \<Rightarrow> Height \<Rightarrow> Round \<Rightarrow> Header \<Rightarrow> Vote" where
  "prevote H B sk signer height round header =
    sign_vote B sk signer height round Prevote (VBlock (header_hash H header))"

definition precommit ::
  "(bytes \<Rightarrow> Hash) \<Rightarrow> Blst \<Rightarrow> bytes \<Rightarrow> ValidatorId \<Rightarrow> Height \<Rightarrow> Round \<Rightarrow> Header \<Rightarrow> Vote" where
  "precommit H B sk signer height round header =
    sign_vote B sk signer height round Precommit (VBlock (header_hash H header))"

definition nil ::
  "Blst \<Rightarrow> bytes \<Rightarrow> ValidatorId \<Rightarrow> Height \<Rightarrow> Round \<Rightarrow> VoteKind \<Rightarrow> Vote" where
  "nil B sk signer height round kind = sign_vote B sk signer height round kind VNil"

datatype VerifyError = SignatureErr | ReplaySlot | Equivocation

type_synonym VoteReplayLog = "(Hash, Hash) btree"

text \<open>
  \<open>observe\<close> and \<open>verify\<close> change the log they borrow only when they succeed, so
  they return the new log in \<open>Ok\<close>; \<open>log_after\<close> is the log the caller is left with.
\<close>

definition observe ::
  "(bytes \<Rightarrow> Hash) \<Rightarrow> VoteReplayLog \<Rightarrow> Vote \<Rightarrow> (VoteReplayLog, VerifyError) result" where
  "observe H seen v =
    (let key = replay_key H (vt_signer v) (vt_height v) (vt_round v) (vt_kind v);
         body = vote_hash H (vt_signer v) (vt_height v) (vt_round v) (vt_kind v)
                  (vote_block_encode (vt_block v))
     in case bt_get seen key of
          Some prev \<Rightarrow> if prev \<noteq> body then Err Equivocation else Ok seen
        | None \<Rightarrow> Ok (bt_insert key body seen))"

definition log_after :: "VoteReplayLog \<Rightarrow> (VoteReplayLog, VerifyError) result \<Rightarrow> VoteReplayLog" where
  "log_after seen r = (case r of Ok seen' \<Rightarrow> seen' | Err _ \<Rightarrow> seen)"

definition verify_signature :: "Blst \<Rightarrow> Vote \<Rightarrow> (unit, VerifyError) result" where
  "verify_signature B v =
    and_then (ok_or SignatureErr (pk_from_bytes B (vt_signer v))) (\<lambda>pk.
    and_then (ok_or SignatureErr (sig_from_bytes B (vt_signature v))) (\<lambda>sig.
      map_err (\<lambda>_. SignatureErr)
        (bls_verify B pk
          (signed_message (vt_height v) (vt_round v) (vt_kind v) (vt_block v)) sig)))"

definition vote_verify ::
  "(bytes \<Rightarrow> Hash) \<Rightarrow> Blst \<Rightarrow> Vote \<Rightarrow> Height \<Rightarrow> Round \<Rightarrow> VoteReplayLog
    \<Rightarrow> (VoteReplayLog, VerifyError) result" where
  "vote_verify H B v expected_height expected_round seen =
    and_then (verify_signature B v) (\<lambda>_.
      if vt_height v \<noteq> expected_height \<or> vt_round v \<noteq> expected_round then Err ReplaySlot
      else observe H seen v)"

section \<open>Slots and messages\<close>

text \<open>The slot of a vote: what two votes of one signer must not disagree on.\<close>

definition vote_slot :: "Vote \<Rightarrow> ValidatorId \<times> Height \<times> Round \<times> VoteKind" where
  "vote_slot v = (vt_signer v, vt_height v, vt_round v, vt_kind v)"

definition slot_key :: "(bytes \<Rightarrow> Hash) \<Rightarrow> Vote \<Rightarrow> Hash" where
  "slot_key H v = replay_key H (vt_signer v) (vt_height v) (vt_round v) (vt_kind v)"

definition body_key :: "(bytes \<Rightarrow> Hash) \<Rightarrow> Vote \<Rightarrow> Hash" where
  "body_key H v = vote_hash H (vt_signer v) (vt_height v) (vt_round v) (vt_kind v)
    (vote_block_encode (vt_block v))"

text \<open>The preimages the log hashes for a vote.\<close>

definition slot_preimage :: "Vote \<Rightarrow> bytes" where
  "slot_preimage v = apply_domain VoteTag
    (vt_signer v @ u64_be (vt_height v) @ u32_be (vt_round v) @ [vote_kind_byte (vt_kind v)])"

definition body_preimage :: "Vote \<Rightarrow> bytes" where
  "body_preimage v = apply_domain VoteTag
    (vt_signer v @ u64_be (vt_height v) @ u32_be (vt_round v) @ [vote_kind_byte (vt_kind v)] @
     vote_block_encode (vt_block v))"

definition wf_vote :: "Vote \<Rightarrow> bool" where
  "wf_vote v = (length (vt_signer v) = 48 \<and> length (vt_signature v) = 96 \<and>
    (case vt_block v of VNil \<Rightarrow> True | VBlock h \<Rightarrow> length h = 32))"

lemma vote_kind_byte_inject: "vote_kind_byte a = vote_kind_byte b \<longleftrightarrow> a = b"
  by (cases a; cases b) simp_all

lemma vote_block_encode_inject: "vote_block_encode a = vote_block_encode b \<longleftrightarrow> a = b"
  by (cases a; cases b) simp_all

lemma signed_message_inject:
  "signed_message h r k b = signed_message h' r' k' b' \<longleftrightarrow> h = h' \<and> r = r' \<and> k = k' \<and> b = b'"
  by (auto simp: signed_message_def apply_domain_eq_iff vote_kind_byte_inject
      vote_block_encode_inject)

lemma slot_preimage_inject:
  assumes "wf_vote v" "wf_vote w"
  shows "slot_preimage v = slot_preimage w \<longleftrightarrow> vote_slot v = vote_slot w"
  using assms
  by (auto simp: slot_preimage_def apply_domain_eq_iff wf_vote_def vote_slot_def
      vote_kind_byte_inject)

lemma body_preimage_inject:
  assumes "wf_vote v" "wf_vote w"
  shows "body_preimage v = body_preimage w \<longleftrightarrow>
    vote_slot v = vote_slot w \<and> vt_block v = vt_block w"
  using assms
  by (auto simp: body_preimage_def apply_domain_eq_iff wf_vote_def vote_slot_def
      vote_kind_byte_inject vote_block_encode_inject)

lemma body_preimage_same_slot:
  "vote_slot v = vote_slot w \<Longrightarrow> body_preimage v = body_preimage w \<longleftrightarrow> vt_block v = vt_block w"
  by (auto simp: body_preimage_def apply_domain_eq_iff vote_slot_def vote_block_encode_inject)

lemma slot_key_cong: "vote_slot v = vote_slot w \<Longrightarrow> slot_key H v = slot_key H w"
  by (simp add: slot_key_def vote_slot_def)

lemma slot_key_alt: "slot_key H v = H (slot_preimage v)"
  by (simp add: slot_key_def slot_preimage_def replay_key_def hash_to_array_def)

lemma body_key_alt: "body_key H v = H (body_preimage v)"
  by (simp add: body_key_def body_preimage_def vote_hash_def hash_to_array_def)

lemma observe_alt:
  "observe H seen v =
    (case bt_get seen (slot_key H v) of
       Some prev \<Rightarrow> if prev \<noteq> body_key H v then Err Equivocation else Ok seen
     | None \<Rightarrow> Ok (bt_insert (slot_key H v) (body_key H v) seen))"
  unfolding observe_def slot_key_def body_key_def Let_def by (rule refl)

lemma observe_Ok_get:
  assumes "observe H seen v = Ok seen'"
  shows "bt_get seen' (slot_key H v) = Some (body_key H v)"
    and "\<And>k b. bt_get seen k = Some b \<Longrightarrow> bt_get seen' k = Some b"
  using assms by (auto simp: observe_alt split: option.splits if_splits)

lemma observe_Err_iff:
  "(\<exists>e. observe H seen v = Err e) \<longleftrightarrow>
    (\<exists>b. bt_get seen (slot_key H v) = Some b \<and> b \<noteq> body_key H v)"
  by (auto simp: observe_alt split: option.splits)

lemma vote_verify_Ok_iff:
  "vote_verify H B v h r seen = Ok seen' \<longleftrightarrow>
    verify_signature B v = Ok () \<and> vt_height v = h \<and> vt_round v = r \<and> observe H seen v = Ok seen'"
  by (auto simp: vote_verify_def result_simps)

lemma vote_verify_keeps:
  "bt_get seen k = Some b \<Longrightarrow> bt_get (log_after seen (vote_verify H B v h r seen)) k = Some b"
  by (auto simp: log_after_def vote_verify_Ok_iff split: result.splits dest: observe_Ok_get(2))

text \<open>Running a sequence of observations, as a node does with the votes it receives.\<close>

fun observe_all :: "(bytes \<Rightarrow> Hash) \<Rightarrow> VoteReplayLog \<Rightarrow> Vote list \<Rightarrow> (VoteReplayLog, VerifyError) result" where
  "observe_all H seen [] = Ok seen"
| "observe_all H seen (v # vs) = and_then (observe H seen v) (\<lambda>seen'. observe_all H seen' vs)"

lemma observe_all_keeps:
  "observe_all H seen vs = Ok seen' \<Longrightarrow> bt_get seen k = Some b \<Longrightarrow> bt_get seen' k = Some b"
proof (induction vs arbitrary: seen)
  case (Cons v vs)
  then obtain s1 where "observe H seen v = Ok s1" "observe_all H s1 vs = Ok seen'"
    by (auto simp: result_simps)
  with Cons show ?case by (blast dest: observe_Ok_get(2))
qed simp

lemma observe_all_get:
  "observe_all H seen vs = Ok seen' \<Longrightarrow> v \<in> set vs \<Longrightarrow>
    bt_get seen' (slot_key H v) = Some (body_key H v)"
proof (induction vs arbitrary: seen)
  case (Cons w vs)
  then obtain s1 where s1: "observe H seen w = Ok s1" "observe_all H s1 vs = Ok seen'"
    by (auto simp: result_simps)
  show ?case
  proof (cases "v = w")
    case True
    then show ?thesis using s1 observe_Ok_get(1) observe_all_keeps by blast
  next
    case False
    then show ?thesis using Cons s1 by auto
  qed
qed simp

text \<open>
  C4. A replay log that accepts a sequence of votes certifies that no signer
  voted for two values in one slot of the sequence, unless the hash collides on
  two of the vote bodies involved.
\<close>

theorem replay_log_no_equivocation:
  assumes "observe_all H [] vs = Ok seen"
    and "inj_on H (body_preimage ` set vs)"
    and "v \<in> set vs" "w \<in> set vs" "vote_slot v = vote_slot w"
  shows "vt_block v = vt_block w"
proof -
  have "body_key H v = body_key H w"
    using observe_all_get [OF assms(1)] assms(3,4) slot_key_cong [OF assms(5)]
    by (metis option.inject)
  then have "body_preimage v = body_preimage w"
    using assms(2-4) by (auto simp: body_key_alt dest: inj_onD)
  then show ?thesis by (simp add: body_preimage_same_slot [OF assms(5)])
qed

definition example_vote :: "u8 \<Rightarrow> u8 \<Rightarrow> Vote" where
  "example_vote x y = \<lparr>vt_height = 1, vt_round = 0, vt_kind = Precommit,
    vt_block = VBlock (replicate 31 0 @ [x]), vt_signer = replicate 48 7,
    vt_signature = replicate 96 y\<rparr>"

theorem replay_log_no_equivocation_witness:
  "vt_block (example_vote 1 0) = vt_block (example_vote 1 9) \<and>
   observe_all last32 [] [example_vote 1 0, example_vote 2 0] = Err Equivocation"
proof -
  have same: "slot_key last32 (example_vote 1 9) = slot_key last32 (example_vote 1 0)"
    "body_key last32 (example_vote 1 9) = body_key last32 (example_vote 1 0)"
    by (simp_all add: slot_key_def body_key_def example_vote_def)
  have ok: "observe_all last32 [] [example_vote 1 0, example_vote 1 9] =
      Ok [(slot_key last32 (example_vote 1 0), body_key last32 (example_vote 1 0))]"
    by (simp add: observe_alt same)
  have "vt_block (example_vote 1 0) = vt_block (example_vote 1 9)"
    by (rule replay_log_no_equivocation [OF ok])
      (simp_all add: example_vote_def vote_slot_def body_preimage_def)
  moreover have "observe_all last32 [] [example_vote 1 0, example_vote 2 0] = Err Equivocation"
    by code_simp
  ultimately show ?thesis by blast
qed

end
