(* ===== verification/Consensus_Qc.thy ===== *)
theory Consensus_Qc
  imports Consensus_Vote
begin

text \<open>
  Quorum certificates and vote tallies (\<open>qc.rs\<close> and the tally of \<open>steps.rs\<close>).
  The interface \<open>weighted_quorums\<close> is what safety needs of voting power: two
  sets with more than two thirds of the power share more than a third of it.
  It is interpreted on the validator map of the code. The lemmas connect the
  saturating tests of the code to exact sums of power.
\<close>

section \<open>Definitions\<close>

record QuorumCertificate =
  qc_height :: Height
  qc_round :: Round
  qc_block :: VoteBlock
  qc_signers :: "ValidatorId list"
  qc_agg_sig :: bytes
  qc_power :: VotingPower

datatype QcError = QcEmpty | NotPrecommit | Mixed | UnknownSigner | QcSig | NoQuorum

definition has_quorum :: "VotingPower \<Rightarrow> VotingPower \<Rightarrow> bool" where
  "has_quorum voted tot = exceeds_two_thirds voted tot"

definition total_power :: "ValidatorSet \<Rightarrow> VotingPower" where
  "total_power validators = foldl saturating_add 0 (map snd validators)"

text \<open>The first loop of \<open>aggregate\<close>: one vote per signer, the last one seen.\<close>

fun collect_votes ::
  "Height \<Rightarrow> Round \<Rightarrow> VoteBlock \<Rightarrow> Vote list \<Rightarrow> (ValidatorId, Vote) btree
    \<Rightarrow> ((ValidatorId, Vote) btree, QcError) result" where
  "collect_votes h r b [] by_id = Ok by_id"
| "collect_votes h r b (v # vs) by_id =
    (if vt_kind v \<noteq> Precommit then Err NotPrecommit
     else if vt_height v \<noteq> h \<or> vt_round v \<noteq> r \<or> vt_block v \<noteq> b then Err Mixed
     else collect_votes h r b vs (bt_insert (vt_signer v) v by_id))"

text \<open>The second loop: parsed signatures, signers and the power they carry.\<close>

fun collect_sigs ::
  "Blst \<Rightarrow> ValidatorSet \<Rightarrow> (ValidatorId, Vote) btree \<Rightarrow> bytes list \<Rightarrow> ValidatorId list
    \<Rightarrow> VotingPower \<Rightarrow> (bytes list \<times> ValidatorId list \<times> VotingPower, QcError) result" where
  "collect_sigs B validators [] sigs signers pw = Ok (sigs, signers, pw)"
| "collect_sigs B validators ((i, v) # rest) sigs signers pw =
    (case bt_get validators i of
       None \<Rightarrow> Err UnknownSigner
     | Some p \<Rightarrow>
         (case sig_from_bytes B (vt_signature v) of
            None \<Rightarrow> Err QcSig
          | Some sig \<Rightarrow> collect_sigs B validators rest (sigs @ [sig]) (signers @ [i])
                          (saturating_add pw p)))"

fun qc_aggregate ::
  "Blst \<Rightarrow> Vote list \<Rightarrow> ValidatorSet \<Rightarrow> (QuorumCertificate, QcError) result" where
  "qc_aggregate B [] validators = Err QcEmpty"
| "qc_aggregate B (v0 # vs) validators =
    (let height = vt_height v0; round = vt_round v0; block = vt_block v0 in
     and_then (collect_votes height round block (v0 # vs) []) (\<lambda>by_id.
     and_then (collect_sigs B validators by_id [] [] 0) (\<lambda>(sigs, signers, pw).
     and_then (map_err (\<lambda>_. QcSig) (bls_aggregate B sigs)) (\<lambda>agg.
       Ok \<lparr>qc_height = height, qc_round = round, qc_block = block, qc_signers = signers,
           qc_agg_sig = sig_to_bytes B agg, qc_power = pw\<rparr>))))"

fun parse_pks :: "Blst \<Rightarrow> ValidatorId list \<Rightarrow> (bytes list, QcError) result" where
  "parse_pks B [] = Ok []"
| "parse_pks B (i # is) =
    (case pk_from_bytes B i of
       None \<Rightarrow> Err QcSig
     | Some pk \<Rightarrow> and_then (parse_pks B is) (\<lambda>pks. Ok (pk # pks)))"

text \<open>
  \<open>None\<close> is the panic of \<open>verify_fast_aggregate\<close> on a certificate with no
  signers. The result of the second, redundant aggregate check is discarded by
  the code and is not modelled.
\<close>

definition qc_verify ::
  "Blst \<Rightarrow> QuorumCertificate \<Rightarrow> ValidatorSet \<Rightarrow> (unit, QcError) result option" where
  "qc_verify B qc validators =
    (let tot = total_power validators in
     if \<not> has_quorum (qc_power qc) tot then Some (Err NoQuorum)
     else case sig_from_bytes B (qc_agg_sig qc) of
       None \<Rightarrow> Some (Err QcSig)
     | Some agg \<Rightarrow>
         (let msg = signed_message (qc_height qc) (qc_round qc) Precommit (qc_block qc) in
          case parse_pks B (qc_signers qc) of
            Err e \<Rightarrow> Some (Err e)
          | Ok pks \<Rightarrow>
              map_option (map_err (\<lambda>_. QcSig)) (verify_fast_aggregate B agg pks msg)))"

text \<open>\<open>steps.rs\<close>: the power behind each value; votes of unknown signers are skipped.\<close>

fun tally_from ::
  "(VoteBlock, VotingPower) btree \<Rightarrow> Vote list \<Rightarrow> ValidatorSet \<Rightarrow> (VoteBlock, VotingPower) btree" where
  "tally_from t [] validators = t"
| "tally_from t (v # vs) validators =
    (case bt_get validators (vt_signer v) of
       None \<Rightarrow> tally_from t vs validators
     | Some p \<Rightarrow>
         tally_from (bt_insert (vt_block v)
            (saturating_add (unwrap_or 0 (bt_get t (vt_block v))) p) t) vs validators)"

definition tally :: "Vote list \<Rightarrow> ValidatorSet \<Rightarrow> (VoteBlock, VotingPower) btree" where
  "tally votes validators = tally_from [] votes validators"

definition polka :: "Vote list \<Rightarrow> ValidatorSet \<Rightarrow> VoteBlock option" where
  "polka votes validators =
    (let tot = total_power validators in
     map_option fst (find (\<lambda>(_, p). has_quorum p tot) (tally votes validators)))"

section \<open>Quorums by weight\<close>

locale weighted_quorums =
  fixes U :: "'v set" and w :: "'v \<Rightarrow> nat"
  assumes finite_universe: "finite U"
begin

lemma quorum_intersection:
  assumes "A \<subseteq> U" "B \<subseteq> U" "2 * sum w U < 3 * sum w A" "2 * sum w U < 3 * sum w B"
  shows "sum w U < 3 * sum w (A \<inter> B)"
proof -
  have fin: "finite A" "finite B"
    using assms(1,2) finite_universe by (auto intro: finite_subset)
  have "sum w (A \<union> B) \<le> sum w U"
    using assms(1,2) finite_universe by (intro sum_mono2) auto
  moreover have "sum w A + sum w B = sum w (A \<union> B) + sum w (A \<inter> B)"
    using fin by (simp add: sum.union_inter)
  ultimately show ?thesis using assms(3,4) by linarith
qed

lemma honest_in_both:
  assumes "A \<subseteq> U" "B \<subseteq> U" "2 * sum w U < 3 * sum w A" "2 * sum w U < 3 * sum w B"
    and "F \<subseteq> U" "3 * sum w F \<le> sum w U"
  obtains x where "x \<in> A" "x \<in> B" "x \<notin> F"
proof -
  have "sum w F < sum w (A \<inter> B)"
    using quorum_intersection [OF assms(1-4)] assms(6) by linarith
  moreover have "finite F" using assms(5) finite_universe by (rule finite_subset)
  ultimately have "\<not> A \<inter> B \<subseteq> F" by (metis leD sum_mono2 zero_le)
  then show ?thesis using that by blast
qed

end

section \<open>Power as exact sums\<close>

text \<open>The power of a validator as a natural number, zero outside the set.\<close>

definition vpower :: "ValidatorSet \<Rightarrow> ValidatorId \<Rightarrow> nat" where
  "vpower validators i = (case bt_get validators i of None \<Rightarrow> 0 | Some p \<Rightarrow> unat p)"

definition vset :: "ValidatorSet \<Rightarrow> ValidatorId set" where
  "vset validators = fst ` set validators"

interpretation vq: weighted_quorums "vset validators" "vpower validators" for validators
  by unfold_locales (simp add: vset_def)

lemma unat_foldl_saturating_add:
  fixes a :: "'a::len word"
  shows "unat (foldl saturating_add a ps) = min (unat a + sum_list (map unat ps)) (2 ^ LENGTH('a) - 1)"
proof (induction ps arbitrary: a)
  case Nil
  have "unat a \<le> 2 ^ LENGTH('a) - 1" using unat_lt_pow [of a] by linarith
  then show ?case by simp
next
  case (Cons p ps)
  have "min (min x m + y) m = min (x + y) m" for x y m :: nat by linarith
  with Cons [of "saturating_add a p"] show ?case
    by (simp only: foldl.simps list.map sum_list.Cons unat_saturating_add add.assoc)
qed

lemma sum_vpower:
  assumes "distinct (map fst validators)"
  shows "sum (vpower validators) (vset validators) = sum_list (map (\<lambda>x. unat (snd x)) validators)"
proof -
  have "sum (vpower validators) (vset validators) =
      sum_list (map (vpower validators) (map fst validators))"
    using sum_list_distinct_conv_sum_set [OF assms, of "vpower validators"]
    by (simp only: vset_def set_map)
  also have "\<dots> = sum_list (map (\<lambda>x. unat (snd x)) validators)"
    using assms by (simp only: map_map)
      (intro arg_cong [where f = sum_list] map_cong refl, auto simp: vpower_def)
  finally show ?thesis .
qed

lemma unat_total_power:
  assumes "bt_wf validators"
  shows "unat (total_power validators) = min (sum (vpower validators) (vset validators)) (2 ^ 64 - 1)"
  using sum_vpower [OF bt_wf_distinct [OF assms]]
  by (simp add: total_power_def unat_foldl_saturating_add comp_def)

text \<open>
  Whatever saturates, the code's quorum test implies the exact one; a total
  that reached the top of the range makes it fail.
\<close>

lemma has_quorum_exact:
  assumes "bt_wf validators" "has_quorum p (total_power validators)"
  shows "2 * sum (vpower validators) (vset validators) < 3 * unat p"
proof -
  have "saturating_mul (total_power validators) 2 < saturating_mul p 3"
    using assms(2) by (simp add: has_quorum_def exceeds_two_thirds_def)
  then have "min (2 * unat (total_power validators)) (2 ^ 64 - 1) < min (3 * unat p) (2 ^ 64 - 1)"
    by (simp add: word_less_nat_alt machine_simps mult.commute)
  moreover have "unat (total_power validators) =
      min (sum (vpower validators) (vset validators)) (2 ^ 64 - 1)"
    by (rule unat_total_power [OF assms(1)])
  ultimately show ?thesis by linarith
qed

lemma has_quorum_complete:
  assumes "bt_wf validators" "sum (vpower validators) (vset validators) < 2 ^ 63"
    and "2 * sum (vpower validators) (vset validators) < 3 * unat p"
  shows "has_quorum p (total_power validators)"
proof -
  have "unat (total_power validators) = sum (vpower validators) (vset validators)"
    using assms(2) by (simp add: unat_total_power [OF assms(1)])
  with assms(2,3) show ?thesis
    by (simp add: has_quorum_def exceeds_two_thirds_exact)
qed

section \<open>Aggregation\<close>

lemma collect_votes_Ok:
  assumes "collect_votes h r b vs by_id = Ok m" "bt_wf by_id"
  shows "bt_wf m"
    and "set (map fst m) = vt_signer ` set vs \<union> set (map fst by_id)"
    and "\<forall>v\<in>set vs. vt_kind v = Precommit \<and> vt_height v = h \<and> vt_round v = r \<and> vt_block v = b"
  using assms
proof (induction vs arbitrary: by_id)
  case (Cons v vs)
  {
    case 1
    with Cons.IH(1) show ?case by (auto split: if_splits)
  next
    case 2
    with Cons.IH(2) [of "bt_insert (vt_signer v) v by_id"] show ?case
      by (auto simp: set_bt_insert simp del: set_map split: if_splits)
  next
    case 3
    with Cons.IH(3) show ?case by (auto split: if_splits)
  }
qed simp_all

lemma vset_get: "bt_get validators i = Some p \<Longrightarrow> i \<in> vset validators"
  by (force simp: vset_def dest: map_of_SomeD)

lemma collect_sigs_Ok:
  "collect_sigs B validators m sigs signers pw = Ok (sigs', signers', pw') \<Longrightarrow>
    signers' = signers @ map fst m \<and> set (map fst m) \<subseteq> vset validators \<and>
    unat pw' \<le> unat pw + sum_list (map (vpower validators) (map fst m)) \<and>
    length sigs' = length sigs + length m"
proof (induction B validators m sigs signers pw rule: collect_sigs.induct)
  case (2 B validators i v rest sigs signers pw)
  from "2.prems" obtain p sig where p: "bt_get validators i = Some p"
    and sig: "sig_from_bytes B (vt_signature v) = Some sig"
    and rec: "collect_sigs B validators rest (sigs @ [sig]) (signers @ [i]) (saturating_add pw p)
      = Ok (sigs', signers', pw')"
    by (auto split: option.splits)
  show ?case
    using "2.IH" [OF p sig rec] p vset_get [OF p] by (auto simp: machine_simps vpower_def)
qed simp

text \<open>
  A certificate the code aggregates carries at most the power of the distinct
  validators that signed, and every vote in it is a precommit for its value.
\<close>

lemma qc_aggregate_Ok:
  assumes "qc_aggregate B votes validators = Ok qc"
  shows "votes \<noteq> []"
    and "\<forall>v\<in>set votes. vt_kind v = Precommit \<and> vt_height v = qc_height qc \<and>
      vt_round v = qc_round qc \<and> vt_block v = qc_block qc"
    and "distinct (qc_signers qc)" "set (qc_signers qc) = vt_signer ` set votes"
    and "set (qc_signers qc) \<subseteq> vset validators"
    and "unat (qc_power qc) \<le> sum (vpower validators) (set (qc_signers qc))"
    and "qc_signers qc \<noteq> []"
proof -
  obtain v0 vs where votes: "votes = v0 # vs"
    using assms by (cases votes) auto
  obtain m sigs signers pw agg
    where m: "collect_votes (vt_height v0) (vt_round v0) (vt_block v0) votes [] = Ok m"
      and s: "collect_sigs B validators m [] [] 0 = Ok (sigs, signers, pw)"
      and qc: "qc = \<lparr>qc_height = vt_height v0, qc_round = vt_round v0, qc_block = vt_block v0,
        qc_signers = signers, qc_agg_sig = sig_to_bytes B agg, qc_power = pw\<rparr>"
    using assms by (auto simp: votes Let_def result_simps simp del: collect_votes.simps)
  note M = collect_votes_Ok [OF m bt_wf_Nil] and S = collect_sigs_Ok [OF s]
  show "votes \<noteq> []" by (simp add: votes)
  show "\<forall>v\<in>set votes. vt_kind v = Precommit \<and> vt_height v = qc_height qc \<and>
      vt_round v = qc_round qc \<and> vt_block v = qc_block qc"
    using M(3) by (simp add: qc)
  show d: "distinct (qc_signers qc)"
    using bt_wf_distinct [OF M(1)] S by (simp add: qc)
  show sgn: "set (qc_signers qc) = vt_signer ` set votes"
    using M(2) S by (simp add: qc)
  show "set (qc_signers qc) \<subseteq> vset validators"
    using S by (simp add: qc)
  have sg: "map fst m = qc_signers qc" using S by (simp add: qc)
  show "unat (qc_power qc) \<le> sum (vpower validators) (set (qc_signers qc))"
    using S unfolding sg sum_list_distinct_conv_sum_set [OF d] by (simp add: qc)
  show "qc_signers qc \<noteq> []" using sgn by (auto simp: votes)
qed

lemma parse_pks_length: "parse_pks B is = Ok pks \<Longrightarrow> length pks = length is"
  by (induction "is" arbitrary: pks) (auto simp: result_simps split: option.splits)

lemma qc_verify_Ok_iff:
  "qc_verify B qc validators = Some (Ok ()) \<longleftrightarrow>
    has_quorum (qc_power qc) (total_power validators) \<and>
    (\<exists>agg pks. sig_from_bytes B (qc_agg_sig qc) = Some agg \<and> parse_pks B (qc_signers qc) = Ok pks \<and>
      verify_fast_aggregate B agg pks
        (signed_message (qc_height qc) (qc_round qc) Precommit (qc_block qc)) = Some (Ok ()))"
  by (auto simp: qc_verify_def Let_def map_err_Ok_iff split: option.splits result.splits)

lemma qc_verify_no_panic: "qc_signers qc \<noteq> [] \<Longrightarrow> qc_verify B qc validators \<noteq> None"
proof -
  assume ne: "qc_signers qc \<noteq> []"
  have "verify_fast_aggregate B agg pks msg \<noteq> None" if "parse_pks B (qc_signers qc) = Ok pks" for agg pks msg
    using ne parse_pks_length [OF that] by (cases pks) auto
  then show ?thesis
    by (auto simp: qc_verify_def Let_def split: option.splits result.splits)
qed

section \<open>Tallies\<close>

definition votes_power :: "ValidatorSet \<Rightarrow> VoteBlock \<Rightarrow> Vote list \<Rightarrow> nat" where
  "votes_power validators b vs =
    sum_list (map (\<lambda>v. vpower validators (vt_signer v)) (filter (\<lambda>v. vt_block v = b) vs))"

lemma bt_wf_tally_from: "bt_wf t \<Longrightarrow> bt_wf (tally_from t vs validators)"
  by (induction t vs validators rule: tally_from.induct) (auto split: option.splits)

lemma tally_from_le:
  "unat (unwrap_or 0 (bt_get (tally_from t vs validators) b)) \<le>
    unat (unwrap_or 0 (bt_get t b)) + votes_power validators b vs"
proof (induction t vs validators rule: tally_from.induct)
  case (2 t v vs validators)
  show ?case
  proof (cases "bt_get validators (vt_signer v)")
    case None
    then show ?thesis using "2.IH"(1) by (simp add: votes_power_def vpower_def)
  next
    case (Some p)
    then show ?thesis
      using "2.IH"(2) [OF Some] by (auto simp: votes_power_def vpower_def machine_simps)
  qed
qed (simp add: votes_power_def)

lemma tally_le:
  assumes "bt_get (tally vs validators) b = Some p"
  shows "unat p \<le> votes_power validators b vs"
  using tally_from_le [of "[]" vs validators b] assms by (simp add: tally_def)

lemma polka_SomeE:
  assumes "polka vs validators = Some b"
  obtains p where "bt_get (tally vs validators) b = Some p" "has_quorum p (total_power validators)"
proof -
  obtain p where f: "find (\<lambda>(_, p). has_quorum p (total_power validators)) (tally vs validators) = Some (b, p)"
    using assms by (auto simp: polka_def Let_def)
  then have "(b, p) \<in> set (tally vs validators)" "has_quorum p (total_power validators)"
    by (auto simp: find_Some_iff set_conv_nth)
  moreover have "distinct (map fst (tally vs validators))"
    by (simp add: bt_wf_distinct bt_wf_tally_from tally_def)
  ultimately show ?thesis by (auto intro: that map_of_is_SomeI)
qed

text \<open>A polka of votes with distinct signers is a set of validators with a quorum.\<close>

lemma polka_quorum:
  assumes wf: "bt_wf validators" and d: "distinct (map vt_signer (filter (\<lambda>v. vt_block v = b) vs))"
    and p: "polka vs validators = Some b"
  shows "2 * sum (vpower validators) (vset validators) <
    3 * sum (vpower validators) ({vt_signer v | v. v \<in> set vs \<and> vt_block v = b} \<inter> vset validators)"
proof -
  obtain p where t: "bt_get (tally vs validators) b = Some p"
    and q: "has_quorum p (total_power validators)"
    using p by (rule polka_SomeE)
  let ?S = "vt_signer ` set (filter (\<lambda>v. vt_block v = b) vs)"
  have "unat p \<le> votes_power validators b vs" by (rule tally_le [OF t])
  also have "\<dots> = sum (vpower validators) ?S"
    using sum_list_distinct_conv_sum_set [OF d, of "vpower validators"]
    by (simp add: votes_power_def comp_def)
  also have "\<dots> = sum (vpower validators) (?S \<inter> vset validators)"
    by (rule sum.mono_neutral_right) (auto simp: vpower_def dest: vset_get split: option.splits)
  finally show ?thesis
    using has_quorum_exact [OF wf q]
    by (simp add: setcompr_eq_image conj_commute)
qed

end
