(* ===== verification/Consensus_Leader.thy ===== *)
theory Consensus_Leader
  imports Consensus_Qc
begin

text \<open>
  Leader election and timeouts (\<open>vrf.rs\<close>, \<open>leader.rs\<close>, \<open>timeout.rs\<close> and the
  round change of \<open>state.rs\<close> in \<open>crates/consensus\<close>). The ECVRF itself is the
  argument \<open>vrf_verify\<close>. The lemmas show that the lottery is total on a set
  with power, picks a member with positive power, and gives every validator
  exactly as many tickets as it has power.
\<close>

section \<open>VRF lottery (vrf.rs)\<close>

datatype VrfError = VrfProofErr | VrfVerifyErr

datatype WeightedError = WVrf VrfError | EmptySet

type_synonym VrfSeed = bytes

type_synonym vrf_verifier = "bytes \<Rightarrow> bytes \<Rightarrow> bytes \<Rightarrow> (bytes, VrfError) result"

definition derive_seed :: "(bytes \<Rightarrow> Hash) \<Rightarrow> Hash \<Rightarrow> Epoch \<Rightarrow> VrfSeed" where
  "derive_seed H last_finalized epoch =
    hash_to_array H (apply_domain VrfTag (last_finalized @ u64_be epoch))"

definition leader_alpha :: "VrfSeed \<Rightarrow> ValidatorId \<Rightarrow> bytes" where
  "leader_alpha seed i = seed @ i"

definition leader_prove ::
  "(bytes \<Rightarrow> bytes \<Rightarrow> (bytes \<times> bytes, VrfError) result) \<Rightarrow> bytes \<Rightarrow> VrfSeed \<Rightarrow> ValidatorId
    \<Rightarrow> (bytes \<times> bytes, VrfError) result" where
  "leader_prove vrf_prove vrf_sk seed i = vrf_prove vrf_sk (leader_alpha seed i)"

definition leader_verify ::
  "vrf_verifier \<Rightarrow> bytes \<Rightarrow> VrfSeed \<Rightarrow> ValidatorId \<Rightarrow> bytes \<Rightarrow> (bytes, VrfError) result" where
  "leader_verify vrf_verify vrf_pk seed i proof' = vrf_verify vrf_pk (leader_alpha seed i) proof'"

text \<open>The walk over the validators in id order with the accumulated power.\<close>

fun pick_leader :: "u128 \<Rightarrow> u128 \<Rightarrow> ValidatorSet \<Rightarrow> ValidatorId option" where
  "pick_leader ticket acc [] = None"
| "pick_leader ticket acc ((i, p) # rest) =
    (let acc' = saturating_add acc (ucast p) in
     if ticket < acc' then Some i else pick_leader ticket acc' rest)"

definition power_sum :: "ValidatorSet \<Rightarrow> u128" where
  "power_sum validators = sum_list (map (\<lambda>x. ucast (snd x)) validators)"

definition weighted_leader ::
  "vrf_verifier \<Rightarrow> bytes \<Rightarrow> VrfSeed \<Rightarrow> ValidatorId \<Rightarrow> bytes \<Rightarrow> ValidatorSet
    \<Rightarrow> (ValidatorId, WeightedError) result" where
  "weighted_leader vrf_verify vrf_pk seed source_id proof' validators =
    and_then (map_err WVrf (leader_verify vrf_verify vrf_pk seed source_id proof')) (\<lambda>output.
      let tot = power_sum validators in
      if tot = 0 then Err EmptySet
      else let ticket = u128_from_be (take 16 output) mod tot in
        case pick_leader ticket 0 validators of
          Some i \<Rightarrow> Ok i
        | None \<Rightarrow> Ok (last (bt_keys validators)))"

definition round_robin_testdouble :: "ValidatorId list \<Rightarrow> Round \<Rightarrow> ValidatorId option" where
  "round_robin_testdouble validators round =
    (if validators = [] then None
     else let ordered = sort validators in Some (ordered ! (unat round mod length ordered)))"

definition round_vrf_source :: "ValidatorSet \<Rightarrow> Round \<Rightarrow> ValidatorId option" where
  "round_vrf_source validators round =
    (let n = length validators in
     if n = 0 then None else Some (bt_keys validators ! (unat round mod n)))"

section \<open>Timeouts (timeout.rs, state.rs)\<close>

datatype TimeoutStep = ProposeStep | PrevoteStep | PrecommitStep

record TimeoutConfig =
  tc_propose_ms :: u64
  tc_prevote_ms :: u64
  tc_precommit_ms :: u64
  tc_delta_ms :: u64

definition from_spec :: TimeoutConfig where
  "from_spec = \<lparr>tc_propose_ms = TIMEOUT_PROPOSE_MS, tc_prevote_ms = TIMEOUT_PREVOTE_MS,
    tc_precommit_ms = TIMEOUT_PRECOMMIT_MS, tc_delta_ms = TIMEOUT_DELTA_MS\<rparr>"

definition from_params :: "ParamsRegistry \<Rightarrow> TimeoutConfig" where
  "from_params ps =
    \<lparr>tc_propose_ms = unwrap_or TIMEOUT_PROPOSE_MS (params_get ps TimeoutProposeMs),
     tc_prevote_ms = unwrap_or TIMEOUT_PREVOTE_MS (params_get ps TimeoutPrevoteMs),
     tc_precommit_ms = unwrap_or TIMEOUT_PRECOMMIT_MS (params_get ps TimeoutPrecommitMs),
     tc_delta_ms = unwrap_or TIMEOUT_DELTA_MS (params_get ps TimeoutDeltaMs)\<rparr>"

definition duration_ms :: "TimeoutConfig \<Rightarrow> TimeoutStep \<Rightarrow> Round \<Rightarrow> u64" where
  "duration_ms c step round =
    (let base = (case step of ProposeStep \<Rightarrow> tc_propose_ms c | PrevoteStep \<Rightarrow> tc_prevote_ms c
                 | PrecommitStep \<Rightarrow> tc_precommit_ms c)
     in saturating_add base (saturating_mul (ucast round) (tc_delta_ms c)))"

definition elapsed :: "u64 \<Rightarrow> TimeoutConfig \<Rightarrow> TimeoutStep \<Rightarrow> Round \<Rightarrow> u64 \<Rightarrow> bool" where
  "elapsed now c step round started_at =
    (let due = saturating_add started_at (duration_ms c step round) in due \<le> now)"

definition round_change_on_timeout ::
  "u64 \<Rightarrow> TimeoutConfig \<Rightarrow> TimeoutStep \<Rightarrow> Round \<Rightarrow> u64 \<Rightarrow> Round option" where
  "round_change_on_timeout now c step round started_at =
    (if elapsed now c step round started_at then Some (saturating_next round) else None)"

section \<open>The lottery\<close>

definition npower :: "ValidatorSet \<Rightarrow> nat" where
  "npower vs = sum_list (map (\<lambda>x. unat (snd x)) vs)"

lemma npower_simps [simp]: "npower [] = 0" "npower ((i, p) # vs) = unat p + npower vs"
  by (simp_all add: npower_def)

lemma npower_append: "npower (xs @ ys) = npower xs + npower ys"
  by (simp add: npower_def)

lemma unat_ucast_u128: "unat (ucast (p :: u64) :: u128) = unat p"
proof -
  have "unat p < 2 ^ 128" using unat_lt_pow [of p] by simp
  then show ?thesis by (simp add: unsigned_ucast_eq take_bit_nat_eq_self)
qed

lemma npower_bound: "npower vs \<le> length vs * (2 ^ 64 - 1)"
proof (induction vs)
  case (Cons x vs)
  have "unat (snd x) \<le> 2 ^ 64 - 1" using unat_lt_pow [of "snd x"] by simp
  with Cons show ?case by (cases x) simp
qed (simp add: npower_def)

lemma npower_small: "length vs \<le> 2 ^ 64 \<Longrightarrow> npower vs < 2 ^ 128"
  using npower_bound [of vs] by simp

lemma unat_power_sum: "npower vs < 2 ^ 128 \<Longrightarrow> unat (power_sum vs) = npower vs"
proof (induction vs)
  case (Cons x vs)
  obtain i p where x: "x = (i, p)" by (cases x)
  have IH: "unat (power_sum vs) = npower vs" using Cons by (simp add: x)
  have sum: "power_sum (x # vs) = ucast p + power_sum vs" by (simp add: power_sum_def x)
  have "unat (ucast p :: u128) + unat (power_sum vs) < 2 ^ LENGTH(128)"
    using Cons.prems IH by (simp add: unat_ucast_u128 x)
  then have "unat (ucast p + power_sum vs :: u128) = unat p + npower vs"
    using IH by (simp add: unat_add_lem [THEN iffD1] unat_ucast_u128)
  then show ?case using sum by (simp add: x)
qed (simp add: power_sum_def)

text \<open>The lottery with exact numbers: each validator owns an interval of tickets.\<close>

fun ticket_owner :: "nat \<Rightarrow> ValidatorSet \<Rightarrow> ValidatorId option" where
  "ticket_owner t [] = None"
| "ticket_owner t ((i, p) # rest) = (if t < unat p then Some i else ticket_owner (t - unat p) rest)"

lemma pick_leader_ticket_owner:
  assumes "unat acc + npower vs < 2 ^ 128" "unat acc \<le> unat ticket"
  shows "pick_leader ticket acc vs = ticket_owner (unat ticket - unat acc) vs"
  using assms
proof (induction ticket acc vs rule: pick_leader.induct)
  case (2 ticket acc i p rest)
  have acc: "unat (saturating_add acc (ucast p)) = unat acc + unat p"
    using "2.prems"(1) by (simp add: machine_simps unat_ucast_u128)
  then have lt: "ticket < saturating_add acc (ucast p) \<longleftrightarrow> unat ticket - unat acc < unat p"
    using "2.prems"(2) by (simp add: word_less_nat_alt less_diff_conv2 add.commute)
  show ?case
    using "2.IH" [OF refl] "2.prems" acc lt by (auto simp: Let_def)
qed simp

lemma ticket_owner_total:
  "t < npower vs \<Longrightarrow> \<exists>i p. ticket_owner t vs = Some i \<and> (i, p) \<in> set vs \<and> 0 < unat p"
proof (induction t vs rule: ticket_owner.induct)
  case (2 t i p rest)
  then show ?case by (cases "t < unat p") (auto, fastforce)
qed simp

lemma ticket_owner_in: "ticket_owner t vs = Some i \<Longrightarrow> i \<in> vset vs"
  by (induction t vs rule: ticket_owner.induct) (auto simp: vset_def split: if_splits)

lemma card_tickets:
  "distinct (map fst vs) \<Longrightarrow>
    card {t. t < npower vs \<and> ticket_owner t vs = Some i} = vpower vs i"
proof (induction vs)
  case (Cons x vs)
  obtain j q where x: "x = (j, q)" by (cases x)
  let ?T = "{t. t < npower vs \<and> ticket_owner t vs = Some i}"
  have split: "{t. t < npower (x # vs) \<and> ticket_owner t (x # vs) = Some i} =
      (if i = j then {..<unat q} else {}) \<union> (\<lambda>t. t + unat q) ` ?T"
  proof (rule set_eqI)
    fix t
    show "t \<in> {t. t < npower (x # vs) \<and> ticket_owner t (x # vs) = Some i} \<longleftrightarrow>
      t \<in> (if i = j then {..<unat q} else {}) \<union> (\<lambda>t. t + unat q) ` ?T"
    proof (cases "t < unat q")
      case True
      then show ?thesis by (auto simp: x)
    next
      case False
      then obtain u where "t = u + unat q" by (metis add.commute le_iff_add not_less)
      then show ?thesis by (auto simp: x)
    qed
  qed
  have fin: "finite ?T" by simp
  have inj: "card ((\<lambda>t. t + unat q) ` ?T) = card ?T" by (rule card_image) simp
  show ?case
  proof (cases "i = j")
    case True
    then have T: "?T = {}" using Cons.prems ticket_owner_in by (fastforce simp: x vset_def)
    have "{t. t < npower (x # vs) \<and> ticket_owner t (x # vs) = Some i} = {..<unat q}"
      unfolding split T using True by simp
    then show ?thesis using True by (simp only: card_lessThan) (simp add: x vpower_def)
  next
    case False
    then show ?thesis using split inj Cons by (simp add: x vpower_def)
  qed
qed (simp add: vpower_def)

lemma weighted_leader_Ok:
  assumes "leader_verify vrf_verify pk seed src prf = Ok output" "length vs \<le> 2 ^ 64"
    and "0 < npower vs"
  shows "\<exists>i. weighted_leader vrf_verify pk seed src prf vs = Ok i \<and>
    ticket_owner (unat (u128_from_be (take 16 output)) mod npower vs) vs = Some i"
proof -
  have sum: "unat (power_sum vs) = npower vs"
    by (rule unat_power_sum [OF npower_small [OF assms(2)]])
  let ?t = "u128_from_be (take 16 output) mod power_sum vs"
  have t: "unat ?t = unat (u128_from_be (take 16 output)) mod npower vs"
    by (simp add: unat_mod sum)
  obtain i where i: "ticket_owner (unat ?t) vs = Some i"
    using ticket_owner_total [of "unat ?t" vs] assms(3) by (auto simp: t)
  have "pick_leader ?t 0 vs = Some i"
    using pick_leader_ticket_owner [of 0 vs ?t] npower_small [OF assms(2)] i by simp
  moreover have "power_sum vs \<noteq> 0" using sum assms(3) by auto
  ultimately show ?thesis
    using assms(1) i t by (simp add: weighted_leader_def Let_def)
qed

text \<open>
  C6. On every validator set with some power the lottery elects, for each valid
  proof, a validator of the set with positive power, and out of the possible
  tickets a validator owns exactly as many as its voting power.
\<close>

theorem weighted_leader_fair:
  assumes wf: "bt_wf vs" and len: "length vs \<le> 2 ^ 64" and pos: "0 < npower vs"
    and vrf: "leader_verify vrf_verify pk seed src prf = Ok output"
  shows "(\<exists>i p. weighted_leader vrf_verify pk seed src prf vs = Ok i \<and>
      bt_get vs i = Some p \<and> 0 < unat p \<and>
      ticket_owner (unat (u128_from_be (take 16 output)) mod npower vs) vs = Some i) \<and>
    (\<forall>i. card {t. t < npower vs \<and> ticket_owner t vs = Some i} = vpower vs i)"
proof -
  obtain i where i: "weighted_leader vrf_verify pk seed src prf vs = Ok i"
    "ticket_owner (unat (u128_from_be (take 16 output)) mod npower vs) vs = Some i"
    using weighted_leader_Ok [OF vrf len pos] by blast
  obtain p where "(i, p) \<in> set vs" "0 < unat p"
    using ticket_owner_total [of "unat (u128_from_be (take 16 output)) mod npower vs" vs] i(2) pos
    by auto
  then show ?thesis
    using i bt_wf_distinct [OF wf] by (auto intro: map_of_is_SomeI simp: card_tickets)
qed

definition example_validators :: ValidatorSet where
  "example_validators = [(replicate 48 1, 10), (replicate 48 2, 20), (replicate 48 3, 5)]"

definition example_vrf :: vrf_verifier where
  "example_vrf pk alpha prf = (if prf = pk @ alpha then Ok (replicate 15 0 @ [12] @ replicate 48 0)
    else Err VrfVerifyErr)"

theorem weighted_leader_fair_witness:
  "weighted_leader example_vrf [7] [8] [9] [7, 8, 9] example_validators = Ok (replicate 48 2) \<and>
   card {t. t < npower example_validators \<and>
     ticket_owner t example_validators = Some (replicate 48 2)} = 20"
proof -
  have wf: "bt_wf example_validators" by code_simp
  have hyps: "length example_validators \<le> 2 ^ 64" "0 < npower example_validators"
    "leader_verify example_vrf [7] [8] [9] [7, 8, 9] = Ok (replicate 15 0 @ [12] @ replicate 48 0)"
    by (simp_all add: example_validators_def leader_verify_def leader_alpha_def example_vrf_def)
  have "\<forall>i. card {t. t < npower example_validators \<and>
      ticket_owner t example_validators = Some i} = vpower example_validators i"
    using weighted_leader_fair [OF wf hyps] by blast
  moreover have "vpower example_validators (replicate 48 2) = 20"
    by (simp add: vpower_def example_validators_def)
  moreover have "weighted_leader example_vrf [7] [8] [9] [7, 8, 9] example_validators = Ok (replicate 48 2)"
    by code_simp
  ultimately show ?thesis by simp
qed

end
