(* ===== verification/Consensus_Steps.thy ===== *)
theory Consensus_Steps
  imports Consensus_Leader
begin

text \<open>
  The steps of a round (\<open>state.rs\<close>, \<open>propose.rs\<close>, \<open>steps.rs\<close>, \<open>safety.rs\<close>,
  \<open>checkpoint.rs\<close> of \<open>crates/consensus\<close>). The functions that borrow a log
  mutably return the log they leave behind. The group of lemmas shows what a
  commit certifies and that committed heights never change.
\<close>

section \<open>Proposals (propose.rs)\<close>

record Proposal =
  pr_height :: Height
  pr_round :: Round
  pr_header :: Header
  pr_app_hash :: Hash
  pr_proposer :: ValidatorId
  pr_vrf_source :: ValidatorId
  pr_vrf_proof :: bytes
  pr_signature :: bytes

datatype ProposeError = NotLeaderP | VrfP

definition proposal_message :: "Header \<Rightarrow> bytes" where
  "proposal_message header = apply_domain HeaderTag (header_preimage header)"

definition propose ::
  "vrf_verifier \<Rightarrow> Blst \<Rightarrow> bytes \<Rightarrow> ValidatorId \<Rightarrow> ValidatorId \<Rightarrow> bytes \<Rightarrow> bytes \<Rightarrow> ValidatorSet
    \<Rightarrow> VrfSeed \<Rightarrow> Height \<Rightarrow> Round \<Rightarrow> (unit \<Rightarrow> Header \<times> Hash) \<Rightarrow> (Proposal, ProposeError) result" where
  "propose vrf_verify B bls_sk our_id vrf_source source_vrf_pk source_proof validators seed
      height round build =
    and_then (map_err (\<lambda>_. VrfP)
      (weighted_leader vrf_verify source_vrf_pk seed vrf_source source_proof validators)) (\<lambda>winner.
      if winner \<noteq> our_id then Err NotLeaderP
      else let (header, app_hash) = build ();
               sig = bls_sign B bls_sk (proposal_message header)
           in Ok \<lparr>pr_height = height, pr_round = round, pr_header = header,
                  pr_app_hash = app_hash, pr_proposer = our_id, pr_vrf_source = vrf_source,
                  pr_vrf_proof = source_proof, pr_signature = sig_to_bytes B sig\<rparr>)"

definition verify_leader ::
  "vrf_verifier \<Rightarrow> Proposal \<Rightarrow> bytes \<Rightarrow> VrfSeed \<Rightarrow> ValidatorSet \<Rightarrow> bool" where
  "verify_leader vrf_verify p source_vrf_pk seed validators =
    (case weighted_leader vrf_verify source_vrf_pk seed (pr_vrf_source p) (pr_vrf_proof p) validators of
       Ok i \<Rightarrow> i = pr_proposer p
     | Err _ \<Rightarrow> False)"

section \<open>Lock (state.rs)\<close>

record Lock =
  lk_height :: Height
  lk_round :: Round
  lk_block_hash :: Hash

definition prevote_allowed ::
  "Lock option \<Rightarrow> Height \<Rightarrow> VoteBlock \<Rightarrow> (Round \<times> Hash) option \<Rightarrow> bool" where
  "prevote_allowed lock height candidate polka_round =
    (case lock of
       None \<Rightarrow> True
     | Some l \<Rightarrow>
         if lk_height l \<noteq> height then True
         else case candidate of
           VNil \<Rightarrow> True
         | VBlock h \<Rightarrow>
             if h = lk_block_hash l then True
             else (case polka_round of
                     Some (r, ph) \<Rightarrow> r > lk_round l \<and> ph = h
                   | None \<Rightarrow> False))"

definition timeout_nil ::
  "Blst \<Rightarrow> bytes \<Rightarrow> ValidatorId \<Rightarrow> Height \<Rightarrow> Round \<Rightarrow> VoteKind \<Rightarrow> Vote" where
  "timeout_nil B sk signer height round kind = nil B sk signer height round kind"

section \<open>Steps (steps.rs)\<close>

record Finalized =
  fz_height :: Height
  fz_round :: Round
  fz_block_hash :: Hash
  fz_app_hash :: Hash

datatype PrevoteError = PvSlot | PvNotLeader | PvVerify VerifyError

definition prevote_step ::
  "(bytes \<Rightarrow> Hash) \<Rightarrow> vrf_verifier \<Rightarrow> Blst \<Rightarrow> bytes \<Rightarrow> ValidatorId \<Rightarrow> Proposal
    \<Rightarrow> (ValidatorId, bytes) btree \<Rightarrow> VrfSeed \<Rightarrow> ValidatorSet \<Rightarrow> Height \<Rightarrow> Round
    \<Rightarrow> Lock option \<Rightarrow> (Round \<times> Hash) option \<Rightarrow> VoteReplayLog
    \<Rightarrow> (Vote, PrevoteError) result \<times> VoteReplayLog" where
  "prevote_step H vrf_verify B sk our_id proposal vrf_pks seed validators
      expected_height expected_round lock unlock_polka log =
    (if pr_height proposal \<noteq> expected_height \<or> pr_round proposal \<noteq> expected_round
     then (Err PvSlot, log)
     else case bt_get vrf_pks (pr_vrf_source proposal) of
       None \<Rightarrow> (Err PvNotLeader, log)
     | Some src_pk \<Rightarrow>
         if \<not> verify_leader vrf_verify proposal src_pk seed validators then (Err PvNotLeader, log)
         else let candidate = VBlock (header_hash H (pr_header proposal)) in
           if \<not> prevote_allowed lock expected_height candidate unlock_polka then
             (let v = nil B sk our_id expected_height expected_round Prevote in
              (Ok v, log_after log (vote_verify H B v expected_height expected_round log)))
           else
             (let v = prevote H B sk our_id expected_height expected_round (pr_header proposal);
                  r = vote_verify H B v expected_height expected_round log in
              case r of
                Ok log' \<Rightarrow> (Ok v, log')
              | Err e \<Rightarrow> (Err (PvVerify e), log)))"

definition precommit_step ::
  "(bytes \<Rightarrow> Hash) \<Rightarrow> Blst \<Rightarrow> bytes \<Rightarrow> ValidatorId \<Rightarrow> Height \<Rightarrow> Round \<Rightarrow> Vote list \<Rightarrow> ValidatorSet
    \<Rightarrow> Header \<Rightarrow> VoteReplayLog \<Rightarrow> (Vote \<times> Lock option) \<times> VoteReplayLog" where
  "precommit_step H B sk our_id height round prevotes validators header_for log =
    (let none_case = (let v = nil B sk our_id height round Precommit in
            ((v, None), log_after log (vote_verify H B v height round log))) in
     case polka prevotes validators of
       Some (VBlock h) \<Rightarrow>
         if h = header_hash H header_for then
           (let v = precommit H B sk our_id height round header_for in
            ((v, Some \<lparr>lk_height = height, lk_round = round, lk_block_hash = h\<rparr>),
             log_after log (vote_verify H B v height round log)))
         else none_case
     | _ \<Rightarrow> none_case)"

section \<open>Safety log (safety.rs)\<close>

definition halt_no_quorum :: "VotingPower \<Rightarrow> VotingPower \<Rightarrow> bool" where
  "halt_no_quorum reachable tot = (\<not> has_quorum reachable tot)"

type_synonym CommitLog = "(Height, Hash) btree"

datatype SafetyError = TwoCommits Height

definition commit_record :: "CommitLog \<Rightarrow> Finalized \<Rightarrow> (CommitLog, SafetyError) result" where
  "commit_record log f =
    (case bt_get log (fz_height f) of
       Some prev \<Rightarrow>
         if prev \<noteq> fz_block_hash f then Err (TwoCommits (fz_height f)) else Ok log
     | None \<Rightarrow> Ok (bt_insert (fz_height f) (fz_block_hash f) log))"

definition commit_get :: "CommitLog \<Rightarrow> Height \<Rightarrow> Hash option" where
  "commit_get log height = bt_get log height"

datatype CommitError = CQc QcError | CSafety SafetyError

text \<open>\<open>None\<close> is a panic inside \<open>qc::verify\<close>; \<open>commit_no_panic\<close> shows it cannot happen here.\<close>

definition commit ::
  "(bytes \<Rightarrow> Hash) \<Rightarrow> Blst \<Rightarrow> Vote list \<Rightarrow> ValidatorSet \<Rightarrow> VotingPower \<Rightarrow> Proposal \<Rightarrow> CommitLog
    \<Rightarrow> ((Finalized option, CommitError) result \<times> CommitLog) option" where
  "commit H B precommits validators reachable proposal log =
    (let tot = total_power validators in
     if halt_no_quorum reachable tot then Some (Ok None, log)
     else case polka precommits validators of
       Some (VBlock h) \<Rightarrow>
         if h \<noteq> header_hash H (pr_header proposal) then Some (Ok None, log)
         else (case qc_aggregate B precommits validators of
             Err e \<Rightarrow> Some (Err (CQc e), log)
           | Ok qc \<Rightarrow> (case qc_verify B qc validators of
                 None \<Rightarrow> None
               | Some (Err e) \<Rightarrow> Some (Err (CQc e), log)
               | Some (Ok _) \<Rightarrow>
                   (let f = \<lparr>fz_height = pr_height proposal, fz_round = pr_round proposal,
                             fz_block_hash = h, fz_app_hash = pr_app_hash proposal\<rparr> in
                    case commit_record log f of
                      Err e \<Rightarrow> Some (Err (CSafety e), log)
                    | Ok log' \<Rightarrow> Some (Ok (Some f), log'))))
     | _ \<Rightarrow> Some (Ok None, log))"

section \<open>Checkpoints (checkpoint.rs)\<close>

record Checkpoint =
  cp_height :: Height
  cp_header_hash :: Hash

definition record_checkpoint :: "(bytes \<Rightarrow> Hash) \<Rightarrow> Finalized \<Rightarrow> Header \<Rightarrow> Checkpoint option" where
  "record_checkpoint H finalized header =
    (let hh = header_hash H header in
     if hh \<noteq> fz_block_hash finalized then None
     else if hf_height (hd_fields header) \<noteq> fz_height finalized then None
     else if CHECKPOINT_INTERVAL = 0 then None
     else if fz_height finalized mod CHECKPOINT_INTERVAL \<noteq> 0 then None
     else Some \<lparr>cp_height = fz_height finalized, cp_header_hash = hh\<rparr>)"

section \<open>What a commit certifies\<close>

lemma aggregate_verify_no_panic:
  "qc_aggregate B precommits validators = Ok qc \<Longrightarrow> qc_verify B qc validators \<noteq> None"
  by (rule qc_verify_no_panic) (rule qc_aggregate_Ok(7))

lemma commit_no_panic: "commit H B precommits validators reachable proposal log \<noteq> None"
  by (auto simp: commit_def Let_def split: option.splits VoteBlock.splits result.splits
      dest!: aggregate_verify_no_panic)

lemma commit_SomeE:
  assumes "commit H B precommits validators reachable proposal log = Some (Ok (Some f), log')"
  obtains qc where "polka precommits validators = Some (VBlock (fz_block_hash f))"
    "fz_block_hash f = header_hash H (pr_header proposal)"
    "qc_aggregate B precommits validators = Ok qc"
    "qc_verify B qc validators = Some (Ok ())"
    "commit_record log f = Ok log'"
    "f = \<lparr>fz_height = pr_height proposal, fz_round = pr_round proposal,
      fz_block_hash = header_hash H (pr_header proposal), fz_app_hash = pr_app_hash proposal\<rparr>"
proof -
  from assms obtain h qc where "polka precommits validators = Some (VBlock h)"
    "h = header_hash H (pr_header proposal)" "qc_aggregate B precommits validators = Ok qc"
    "qc_verify B qc validators = Some (Ok ())"
    and f: "f = \<lparr>fz_height = pr_height proposal, fz_round = pr_round proposal,
      fz_block_hash = h, fz_app_hash = pr_app_hash proposal\<rparr>"
    and "commit_record log f = Ok log'"
    by (auto simp: commit_def Let_def split: if_splits option.splits VoteBlock.splits result.splits)
  with that [of qc] show ?thesis by simp
qed

lemma polka_has_vote:
  assumes "polka vs validators = Some b"
  shows "\<exists>v\<in>set vs. vt_block v = b"
proof -
  obtain p where p: "bt_get (tally vs validators) b = Some p" "has_quorum p (total_power validators)"
    using assms by (rule polka_SomeE)
  have "0 < unat p"
    using exceeds_two_thirds_sound p(2) by (fastforce simp: has_quorum_def)
  then have "0 < votes_power validators b vs" using tally_le [OF p(1)] by linarith
  then have "filter (\<lambda>v. vt_block v = b) vs \<noteq> []" by (auto simp: votes_power_def)
  then show ?thesis by (auto simp: filter_empty_conv)
qed

text \<open>The certificate behind a commit: its signers, their power and the verified message.\<close>

definition certified ::
  "Blst \<Rightarrow> ValidatorSet \<Rightarrow> Vote list \<Rightarrow> Hash \<Rightarrow> Height \<Rightarrow> Round \<Rightarrow> ValidatorId list \<Rightarrow> bool" where
  "certified B validators votes h height round signers \<longleftrightarrow>
    distinct signers \<and> set signers = vt_signer ` set votes \<and> set signers \<subseteq> vset validators \<and>
    2 * sum (vpower validators) (vset validators) < 3 * sum (vpower validators) (set signers) \<and>
    (\<forall>v\<in>set votes. vt_kind v = Precommit \<and> vt_height v = height \<and> vt_round v = round \<and>
      vt_block v = VBlock h) \<and>
    (\<exists>agg pks. parse_pks B signers = Ok pks \<and>
      verify_fast_aggregate B agg pks (signed_message height round Precommit (VBlock h)) = Some (Ok ()))"

lemma commit_certified:
  assumes wf: "bt_wf validators"
    and c: "commit H B precommits validators reachable proposal log = Some (Ok (Some f), log')"
  shows "\<exists>height round signers. certified B validators precommits (fz_block_hash f) height round signers"
proof -
  obtain qc where polka: "polka precommits validators = Some (VBlock (fz_block_hash f))"
    and agg: "qc_aggregate B precommits validators = Ok qc"
    and ver: "qc_verify B qc validators = Some (Ok ())"
    using c by (rule commit_SomeE)
  note A = qc_aggregate_Ok [OF agg]
  have block: "qc_block qc = VBlock (fz_block_hash f)"
    using polka_has_vote [OF polka] A(2) by auto
  have "2 * sum (vpower validators) (vset validators) < 3 * unat (qc_power qc)"
    using ver has_quorum_exact [OF wf] by (simp add: qc_verify_Ok_iff)
  then have "2 * sum (vpower validators) (vset validators) <
      3 * sum (vpower validators) (set (qc_signers qc))"
    using A(6) by linarith
  then have "certified B validators precommits (fz_block_hash f) (qc_height qc) (qc_round qc)
      (qc_signers qc)"
    using A ver block by (auto simp: certified_def qc_verify_Ok_iff)
  then show ?thesis by blast
qed

text \<open>
  C3. A commit happens only with a verified certificate: the voters are distinct
  validators with more than two thirds of the total power, every vote is a
  precommit for the committed block in one height and round, the aggregate
  signature over that message verifies, the committed hash is the hash of the
  proposed header, and the height is recorded.
\<close>

theorem commit_needs_quorum:
  assumes "bt_wf validators"
    and "commit H B precommits validators reachable proposal log = Some (Ok (Some f), log')"
  shows "(\<exists>height round signers. certified B validators precommits (fz_block_hash f) height round signers) \<and>
    fz_block_hash f = header_hash H (pr_header proposal) \<and> fz_height f = pr_height proposal \<and>
    commit_get log' (fz_height f) = Some (fz_block_hash f)"
proof -
  obtain qc where rec: "commit_record log f = Ok log'"
    and f: "f = \<lparr>fz_height = pr_height proposal, fz_round = pr_round proposal,
      fz_block_hash = header_hash H (pr_header proposal), fz_app_hash = pr_app_hash proposal\<rparr>"
    using assms(2) by (rule commit_SomeE)
  have "bt_get log' (fz_height f) = Some (fz_block_hash f)"
    using rec by (auto simp: commit_record_def split: option.splits if_splits)
  with f commit_certified [OF assms] show ?thesis
    by (simp add: commit_get_def)
qed

text \<open>
  A signature scheme small enough to compute with: a signature is the key
  followed by the message, aggregation concatenates the keys, and only the
  messages \<open>ms\<close> verify. It is the instance of the witnesses below.
\<close>

definition toy_blst :: "bytes list \<Rightarrow> Blst" where
  "toy_blst ms = \<lparr>sk_sign = (\<lambda>sk msg dst. sk @ msg),
    sig_verify = (\<lambda>sig msg dst pk. msg \<in> set ms \<and> sig = pk @ msg),
    sig_from_bytes = Some, sig_to_bytes = (\<lambda>x. x), pk_from_bytes = Some,
    agg_from_sig = (\<lambda>x. x), agg_add_sig = (\<lambda>agg s. Some (take 48 s @ agg)),
    agg_to_sig = (\<lambda>x. x), apk_from_pk = (\<lambda>x. x),
    apk_add_pk = (\<lambda>apk p. Some (p @ apk)), apk_to_pk = (\<lambda>x. x)\<rparr>"

definition toy_header :: Header where
  "toy_header = \<lparr>hd_fields = \<lparr>hf_height = 5, hf_round = 0, hf_proposer = replicate 48 1,
      hf_timestamp_ms = 9\<rparr>,
    hd_tx_root = replicate 32 0, hd_state_root = replicate 32 0, hd_receipts_root = replicate 32 0,
    hd_validators_hash = replicate 32 0, hd_da_root = replicate 32 0\<rparr>"

definition toy_message :: bytes where
  "toy_message = signed_message 5 0 Precommit (VBlock (header_hash last32 toy_header))"

definition toy_precommits :: "u8 list \<Rightarrow> Vote list" where
  "toy_precommits ks =
    map (\<lambda>k. precommit last32 (toy_blst [toy_message]) (replicate 48 k) (replicate 48 k) 5 0 toy_header) ks"

definition toy_proposal :: "u8 \<Rightarrow> Proposal" where
  "toy_proposal a = \<lparr>pr_height = 5, pr_round = 0, pr_header = toy_header, pr_app_hash = replicate 32 a,
    pr_proposer = replicate 48 2, pr_vrf_source = replicate 48 1,
    pr_vrf_proof = [7, 8] @ replicate 48 1, pr_signature = []\<rparr>"

definition toy_finalized :: "u8 \<Rightarrow> Finalized" where
  "toy_finalized a = \<lparr>fz_height = 5, fz_round = 0, fz_block_hash = header_hash last32 toy_header,
    fz_app_hash = replicate 32 a\<rparr>"

lemma toy_commit:
  "commit last32 (toy_blst [toy_message]) (toy_precommits [1, 2]) example_validators 35 (toy_proposal 4) []
    = Some (Ok (Some (toy_finalized 4)), [(5, header_hash last32 toy_header)])"
  "commit last32 (toy_blst [toy_message]) (toy_precommits [3, 2, 2]) example_validators 35 (toy_proposal 6) []
    = Some (Ok (Some (toy_finalized 6)), [(5, header_hash last32 toy_header)])"
  by code_simp+

lemma example_validators_wf: "bt_wf example_validators"
  by code_simp

theorem commit_needs_quorum_witness:
  "\<exists>height round signers.
    certified (toy_blst [toy_message]) example_validators (toy_precommits [1, 2])
      (header_hash last32 toy_header) height round signers"
  using commit_needs_quorum [OF example_validators_wf toy_commit(1)]
  by (simp add: toy_finalized_def toy_proposal_def)

text \<open>
  What unforgeability gives for the precommits a commit was made from: when the
  certificate aggregated from them verifies, each of its honest signers has cast
  its message. Only this certificate is judged, not every signature there may be.
\<close>

definition genuine ::
  "Blst \<Rightarrow> ValidatorSet \<Rightarrow> ValidatorId set \<Rightarrow> (ValidatorId \<Rightarrow> bytes set) \<Rightarrow> Vote list \<Rightarrow> bool" where
  "genuine B validators F cast votes \<longleftrightarrow>
    (\<forall>qc. qc_aggregate B votes validators = Ok qc \<and> qc_verify B qc validators = Some (Ok ()) \<longrightarrow>
      (\<forall>i\<in>set (qc_signers qc) - F.
        signed_message (qc_height qc) (qc_round qc) Precommit (qc_block qc) \<in> cast i))"

lemma commit_quorum:
  assumes wf: "bt_wf validators" and gen: "genuine B validators F cast votes"
    and c: "commit H B votes validators reachable proposal log = Some (Ok (Some f), log')"
  obtains Q height round where "Q \<subseteq> vset validators"
    "2 * sum (vpower validators) (vset validators) < 3 * sum (vpower validators) Q"
    "\<forall>v\<in>set votes. vt_height v = height \<and> vt_round v = round" "votes \<noteq> []"
    "\<forall>i\<in>Q - F. signed_message height round Precommit (VBlock (fz_block_hash f)) \<in> cast i"
proof -
  obtain qc where polka: "polka votes validators = Some (VBlock (fz_block_hash f))"
    and agg: "qc_aggregate B votes validators = Ok qc" and ver: "qc_verify B qc validators = Some (Ok ())"
    using c by (rule commit_SomeE)
  note A = qc_aggregate_Ok [OF agg]
  have block: "qc_block qc = VBlock (fz_block_hash f)"
    using polka_has_vote [OF polka] A(2) by auto
  have "2 * sum (vpower validators) (vset validators) < 3 * unat (qc_power qc)"
    using ver has_quorum_exact [OF wf] by (simp add: qc_verify_Ok_iff)
  then have "2 * sum (vpower validators) (vset validators) < 3 * sum (vpower validators) (set (qc_signers qc))"
    using A(6) by linarith
  moreover have "\<forall>i\<in>set (qc_signers qc) - F.
      signed_message (qc_height qc) (qc_round qc) Precommit (VBlock (fz_block_hash f)) \<in> cast i"
    using gen agg ver unfolding genuine_def block [symmetric] by blast
  moreover have "\<forall>v\<in>set votes. vt_height v = qc_height qc \<and> vt_round v = qc_round qc" using A(2) by blast
  ultimately show thesis using that [OF A(5)] A(1) by blast
qed

text \<open>
  C2. Agreement in a round. If the faulty validators have at most a third of the
  power, the honest signers of the two certificates behind the commits cast the
  precommits they are said to have signed, and honest validators cast at most one
  precommit per height and round, then two commits whose precommits are for the
  same height and round commit the same block.
\<close>

theorem commit_agreement:
  assumes wf: "bt_wf validators"
    and F: "F \<subseteq> vset validators"
      "3 * sum (vpower validators) F \<le> sum (vpower validators) (vset validators)"
    and gen: "genuine B validators F cast pcs1" "genuine B validators F cast pcs2"
    and single: "\<forall>i\<in>vset validators - F. \<forall>h r b b'.
      signed_message h r Precommit b \<in> cast i \<and> signed_message h r Precommit b' \<in> cast i \<longrightarrow> b = b'"
    and c1: "commit H B pcs1 validators reach1 prop1 log1 = Some (Ok (Some f1), log1')"
    and c2: "commit H B pcs2 validators reach2 prop2 log2 = Some (Ok (Some f2), log2')"
    and slot: "\<forall>v\<in>set pcs1. \<forall>w\<in>set pcs2. vt_height v = vt_height w \<and> vt_round v = vt_round w"
  shows "fz_block_hash f1 = fz_block_hash f2"
proof -
  obtain Q1 h1 r1 where 1: "Q1 \<subseteq> vset validators"
    "2 * sum (vpower validators) (vset validators) < 3 * sum (vpower validators) Q1"
    "\<forall>v\<in>set pcs1. vt_height v = h1 \<and> vt_round v = r1" "pcs1 \<noteq> []"
    "\<forall>i\<in>Q1 - F. signed_message h1 r1 Precommit (VBlock (fz_block_hash f1)) \<in> cast i"
    using commit_quorum [OF wf gen(1) c1] .
  obtain Q2 h2 r2 where 2: "Q2 \<subseteq> vset validators"
    "2 * sum (vpower validators) (vset validators) < 3 * sum (vpower validators) Q2"
    "\<forall>v\<in>set pcs2. vt_height v = h2 \<and> vt_round v = r2" "pcs2 \<noteq> []"
    "\<forall>i\<in>Q2 - F. signed_message h2 r2 Precommit (VBlock (fz_block_hash f2)) \<in> cast i"
    using commit_quorum [OF wf gen(2) c2] .
  obtain i where i: "i \<in> Q1" "i \<in> Q2" "i \<notin> F"
    by (rule vq.honest_in_both [OF 1(1) 2(1) 1(2) 2(2) F])
  have eq: "h1 = h2" "r1 = r2"
    using slot 1(3,4) 2(3,4) by (metis list.set_sel(1))+
  have "i \<in> vset validators - F" using 1(1) i by blast
  then show ?thesis using single 1(5) 2(5) i unfolding eq by blast
qed

text \<open>
  The scheme of the example above without its list of messages: whatever a key
  signs verifies.
\<close>

definition plain_blst :: Blst where
  "plain_blst = (toy_blst [])\<lparr>sig_verify := (\<lambda>sig msg dst pk. sig = pk @ msg)\<rparr>"

lemma plain_commit:
  "commit last32 plain_blst (toy_precommits [1, 2]) example_validators 35 (toy_proposal 4) []
    = Some (Ok (Some (toy_finalized 4)), [(5, header_hash last32 toy_header)])"
  "commit last32 plain_blst (toy_precommits [3, 2, 2]) example_validators 35 (toy_proposal 6) []
    = Some (Ok (Some (toy_finalized 6)), [(5, header_hash last32 toy_header)])"
  by code_simp+

lemma plain_genuine: "genuine plain_blst validators F (\<lambda>_. {toy_message}) (toy_precommits ks)"
proof -
  have "signed_message (qc_height qc) (qc_round qc) Precommit (qc_block qc) = toy_message"
    if agg: "qc_aggregate plain_blst (toy_precommits ks) validators = Ok qc" for qc
  proof -
    obtain v where "v \<in> set (toy_precommits ks)"
      using qc_aggregate_Ok(1) [OF agg] by (cases "toy_precommits ks") auto
    moreover from this have "vt_height v = 5 \<and> vt_round v = 0 \<and> vt_block v = VBlock (header_hash last32 toy_header)"
      by (auto simp: toy_precommits_def precommit_def sign_vote_def)
    ultimately show ?thesis using qc_aggregate_Ok(2) [OF agg] by (simp add: toy_message_def)
  qed
  then show ?thesis by (simp add: genuine_def)
qed

theorem commit_agreement_witness:
  "fz_block_hash (toy_finalized 4) = fz_block_hash (toy_finalized 6)"
proof -
  have slot: "\<forall>v\<in>set (toy_precommits [1, 2]). \<forall>w\<in>set (toy_precommits [3, 2, 2]).
      vt_height v = vt_height w \<and> vt_round v = vt_round w"
    by (simp add: toy_precommits_def precommit_def sign_vote_def)
  show ?thesis
    by (rule commit_agreement [where F = "{}" and cast = "\<lambda>_. {toy_message}",
          OF example_validators_wf _ _ plain_genuine plain_genuine _ plain_commit slot])
      (simp_all add: toy_message_def signed_message_inject)
qed

section \<open>Committed heights never change\<close>

text \<open>A sequence of commit attempts of one node on its log.\<close>

fun record_all :: "CommitLog \<Rightarrow> Finalized list \<Rightarrow> CommitLog" where
  "record_all log [] = log"
| "record_all log (f # fs) =
    record_all (case commit_record log f of Ok log' \<Rightarrow> log' | Err _ \<Rightarrow> log) fs"

lemma commit_record_keeps:
  "commit_record log f = Ok log' \<Longrightarrow> bt_get log h = Some b \<Longrightarrow> bt_get log' h = Some b"
  by (auto simp: commit_record_def split: option.splits if_splits)

lemma record_all_keeps: "bt_get log h = Some b \<Longrightarrow> bt_get (record_all log fs) h = Some b"
  by (induction fs arbitrary: log) (auto split: result.splits dest: commit_record_keeps)

text \<open>
  C5. The commit log is write-once: a height that has been recorded keeps its
  block through any further sequence of attempts, and an attempt to commit
  another block at that height is the error \<open>TwoCommits\<close>.
\<close>

theorem commit_log_write_once:
  assumes "commit_get log h = Some b"
  shows "commit_get (record_all log fs) h = Some b \<and>
    (fz_height f = h \<and> fz_block_hash f \<noteq> b \<longrightarrow>
      commit_record (record_all log fs) f = Err (TwoCommits h))"
  using record_all_keeps [of log h b fs] assms
  by (auto simp: commit_get_def commit_record_def)

theorem commit_log_write_once_witness:
  "commit_get (record_all [(5, replicate 32 1)] [toy_finalized 4]) 5 = Some (replicate 32 1) \<and>
   commit_record (record_all [(5, replicate 32 1)] [toy_finalized 4]) (toy_finalized 4) = Err (TwoCommits 5)"
proof -
  have g: "commit_get [(5, replicate 32 1)] 5 = Some (replicate 32 1)"
    by (simp add: commit_get_def)
  have "fz_height (toy_finalized 4) = 5" "fz_block_hash (toy_finalized 4) \<noteq> replicate 32 1"
    by code_simp+
  then show ?thesis
    using commit_log_write_once [OF g, of "[toy_finalized 4]" "toy_finalized 4"] by blast
qed

section \<open>Certificates from outside\<close>

text \<open>
  C25. A certificate that does not come from \<open>aggregate\<close> is judged by the power
  it claims. Whoever holds one key pair, validator or not, can issue a
  certificate for any block that \<open>qc::verify\<close> accepts against every validator set
  whose total power is below half of the range: the claimed power is neither
  recomputed nor are the signers looked up. A certificate that names no signer
  makes the verifier panic.
\<close>

theorem qc_verify_trusts_claimed_power:
  assumes "unat (total_power validators) < 2 ^ 63 - 1"
    and "pk_from_bytes B i = Some pk" "sig_from_bytes B sig = Some s"
    and "bls_verify B (apk_to_pk B (apk_from_pk B pk)) (signed_message h r Precommit b) s = Ok ()"
  shows "qc_verify B \<lparr>qc_height = h, qc_round = r, qc_block = b, qc_signers = [i],
      qc_agg_sig = sig, qc_power = - 1\<rparr> validators = Some (Ok ()) \<and>
    qc_verify B \<lparr>qc_height = h, qc_round = r, qc_block = b, qc_signers = [],
      qc_agg_sig = sig, qc_power = - 1\<rparr> validators = None"
proof -
  have "has_quorum (- 1) (total_power validators)"
    using assms(1)
    by (simp add: has_quorum_def exceeds_two_thirds_def word_less_nat_alt machine_simps
        unat_minus_one_max)
  then show ?thesis using assms(2-4) by (simp add: qc_verify_def Let_def)
qed

theorem qc_verify_trusts_claimed_power_witness:
  "replicate 48 9 \<notin> vset example_validators \<and>
   qc_verify (toy_blst [toy_message])
     \<lparr>qc_height = 5, qc_round = 0, qc_block = VBlock (header_hash last32 toy_header),
      qc_signers = [replicate 48 9], qc_agg_sig = replicate 48 9 @ toy_message, qc_power = - 1\<rparr>
     example_validators = Some (Ok ())"
proof -
  have "unat (total_power example_validators) < 2 ^ 63 - 1"
    by (simp add: total_power_def example_validators_def saturating_add_def)
  then show ?thesis
    using qc_verify_trusts_claimed_power [of example_validators "toy_blst [toy_message]"
        "replicate 48 9" "replicate 48 9" "replicate 48 9 @ toy_message" "replicate 48 9 @ toy_message"
        5 0 "VBlock (header_hash last32 toy_header)"]
    by (simp add: toy_blst_def bls_verify_def toy_message_def vset_def example_validators_def)
qed

end
