(* ===== verification/Network_Ingest.thy ===== *)
theory Network_Ingest
  imports Consensus_Steps
begin

text \<open>
  The gates a vote or a proposal passes before a node acts on it
  (\<open>topics.rs\<close>, \<open>validator_mesh.rs\<close> of \<open>crates/network\<close>) and the vote wiring of
  \<open>crates/node/src/wire.rs\<close>. Topic handles, which only name gossip channels,
  have no effect and are not modelled; what a sink broadcasts is returned.
\<close>

section \<open>Ingest (topics.rs, validator_mesh.rs)\<close>

datatype TopicError =
    TopicCodec
  | TopicTx
  | TopicProposal
  | TopicVote VerifyError
  | TopicBlock
  | TopicEvidence
  | TopicDaChunk

definition ingest_vote ::
  "(bytes \<Rightarrow> Hash) \<Rightarrow> Blst \<Rightarrow> Vote \<Rightarrow> VoteReplayLog \<Rightarrow> (VoteReplayLog, TopicError) result" where
  "ingest_vote H B v log =
    map_err TopicVote (vote_verify H B v (vt_height v) (vt_round v) log)"

definition ingest_proposal :: "Blst \<Rightarrow> Proposal \<Rightarrow> (unit, TopicError) result" where
  "ingest_proposal B p =
    (if pr_height p \<noteq> hf_height (hd_fields (pr_header p)) \<or>
        pr_round p \<noteq> hf_round (hd_fields (pr_header p)) then Err TopicProposal
     else
       and_then (ok_or TopicProposal (pk_from_bytes B (pr_proposer p))) (\<lambda>pk.
       and_then (ok_or TopicProposal (sig_from_bytes B (pr_signature p))) (\<lambda>sig.
         map_err (\<lambda>_. TopicProposal) (bls_verify B pk (proposal_message (pr_header p)) sig))))"

record ValidatorMesh =
  vm_validators :: ValidatorSet
  vm_peer_ids :: "(ValidatorId, bytes) btree"

definition mesh_from_genesis :: "Genesis \<Rightarrow> ValidatorMesh" where
  "mesh_from_genesis g = \<lparr>vm_validators = gn_validators g, vm_peer_ids = []\<rparr>"

definition is_validator :: "ValidatorMesh \<Rightarrow> ValidatorId \<Rightarrow> bool" where
  "is_validator m i = (bt_get (vm_validators m) i \<noteq> None)"

definition bind_peer :: "ValidatorMesh \<Rightarrow> ValidatorId \<Rightarrow> bytes \<Rightarrow> ValidatorMesh" where
  "bind_peer m i peer =
    (if bt_get (vm_validators m) i \<noteq> None
     then m\<lparr>vm_peer_ids := bt_insert i peer (vm_peer_ids m)\<rparr> else m)"

definition is_validator_peer :: "ValidatorMesh \<Rightarrow> bytes \<Rightarrow> bool" where
  "is_validator_peer m peer = (peer \<in> snd ` set (vm_peer_ids m))"

definition ingest_validator_proposal ::
  "Blst \<Rightarrow> ValidatorMesh \<Rightarrow> Proposal \<Rightarrow> (unit, TopicError) result" where
  "ingest_validator_proposal B m p =
    (if \<not> is_validator m (pr_proposer p) then Err TopicProposal else ingest_proposal B p)"

definition ingest_validator_vote ::
  "(bytes \<Rightarrow> Hash) \<Rightarrow> Blst \<Rightarrow> ValidatorMesh \<Rightarrow> Vote \<Rightarrow> VoteReplayLog
    \<Rightarrow> (VoteReplayLog, TopicError) result" where
  "ingest_validator_vote H B m v log =
    (if \<not> is_validator m (vt_signer v) then Err (TopicVote SignatureErr)
     else ingest_vote H B v log)"

section \<open>Vote wiring (node/src/wire.rs)\<close>

datatype WireError = WGossip | WPropose | WPrevote | WCommit | WStore

text \<open>The vote in \<open>Ok\<close> is also the one the sink broadcasts.\<close>

definition wire_vote ::
  "(bytes \<Rightarrow> Hash) \<Rightarrow> vrf_verifier \<Rightarrow> Blst \<Rightarrow> ValidatorMesh \<Rightarrow> bytes \<Rightarrow> ValidatorId \<Rightarrow> Proposal
    \<Rightarrow> (ValidatorId, bytes) btree \<Rightarrow> VrfSeed \<Rightarrow> Height \<Rightarrow> Round \<Rightarrow> Lock option \<Rightarrow> VoteReplayLog
    \<Rightarrow> (Vote, WireError) result \<times> VoteReplayLog" where
  "wire_vote H vrf_verify B mesh bls_sk our_id proposal vrf_pks seed
      expected_height expected_round lock log =
    (case ingest_validator_proposal B mesh proposal of
       Err _ \<Rightarrow> (Err WGossip, log)
     | Ok _ \<Rightarrow>
         (case prevote_step H vrf_verify B bls_sk our_id proposal vrf_pks seed
                 (vm_validators mesh) expected_height expected_round lock None log of
            (Err _, log') \<Rightarrow> (Err WPrevote, log')
          | (Ok v, log') \<Rightarrow>
              (case ingest_validator_vote H B mesh v log' of
                 Err _ \<Rightarrow> (Err WGossip, log')
               | Ok log'' \<Rightarrow> (Ok v, log''))))"

definition wire_precommit ::
  "(bytes \<Rightarrow> Hash) \<Rightarrow> Blst \<Rightarrow> ValidatorMesh \<Rightarrow> bytes \<Rightarrow> ValidatorId \<Rightarrow> Height \<Rightarrow> Round \<Rightarrow> Vote list
    \<Rightarrow> Header \<Rightarrow> VoteReplayLog \<Rightarrow> (Vote \<times> Lock option, WireError) result \<times> VoteReplayLog" where
  "wire_precommit H B mesh bls_sk our_id height round prevotes header log =
    (let (r, log') = precommit_step H B bls_sk our_id height round prevotes
           (vm_validators mesh) header log in
     case r of (v, new_lock) \<Rightarrow>
       (case ingest_validator_vote H B mesh v log' of
          Err _ \<Rightarrow> (Err WGossip, log')
        | Ok log'' \<Rightarrow> (Ok (v, new_lock), log'')))"

definition insert_vote_sorted :: "Vote list \<Rightarrow> Vote \<Rightarrow> Vote list" where
  "insert_vote_sorted votes vote =
    (if list_ex (\<lambda>x. vt_signer x = vt_signer vote \<and> vt_kind x = vt_kind vote) votes then votes
     else sort_key vt_signer (votes @ [vote]))"

section \<open>Lemmas\<close>

lemma ingest_validator_vote_Ok:
  assumes "ingest_validator_vote H B m v log = Ok log'"
  shows "is_validator m (vt_signer v)" "verify_signature B v = Ok ()" "observe H log v = Ok log'"
  using assms
  by (auto simp: ingest_validator_vote_def ingest_vote_def result_simps vote_verify_Ok_iff
      split: if_splits)

lemma prevote_step_Ok:
  assumes "prevote_step H vrf B sk i p pks seed vs h r lock unlock log = (Ok v, log')"
  shows "vt_signer v = i" "vt_height v = h" "vt_round v = r" "vt_kind v = Prevote"
    and "vt_block v = VNil \<or> vt_block v = VBlock (header_hash H (pr_header p)) \<and>
      prevote_allowed lock h (VBlock (header_hash H (pr_header p))) unlock"
    and "\<And>k b. bt_get log k = Some b \<Longrightarrow> bt_get log' k = Some b"
  using assms
  by (auto simp: prevote_step_def Let_def nil_def prevote_def sign_vote_def vote_verify_keeps
      split: if_splits option.splits result.splits dest: observe_Ok_get(2) simp: vote_verify_Ok_iff)

lemma precommit_step_vote:
  assumes "precommit_step H B sk i h r pvs vs hdr log = ((v, lk), log')"
  shows "vt_signer v = i" "vt_height v = h" "vt_round v = r" "vt_kind v = Precommit"
    and "(case lk of None \<Rightarrow> vt_block v = VNil
      | Some l \<Rightarrow> lk_height l = h \<and> lk_round l = r \<and> vt_block v = VBlock (lk_block_hash l) \<and>
          polka pvs vs = Some (VBlock (lk_block_hash l)))"
    and "\<And>k b. bt_get log k = Some b \<Longrightarrow> bt_get log' k = Some b"
  using assms
  by (auto simp: precommit_step_def Let_def nil_def precommit_def sign_vote_def vote_verify_keeps
      split: if_splits option.splits VoteBlock.splits)

lemma wire_vote_Ok:
  assumes "wire_vote H vrf B mesh sk i p pks seed h r lock log = (Ok v, log')"
  shows "\<exists>log1. prevote_step H vrf B sk i p pks seed (vm_validators mesh) h r lock None log = (Ok v, log1) \<and>
    ingest_validator_vote H B mesh v log1 = Ok log'"
  using assms by (auto simp: wire_vote_def split: result.splits prod.splits)

lemma wire_precommit_Ok:
  assumes "wire_precommit H B mesh sk i h r pvs hdr log = (Ok (v, lk), log')"
  shows "\<exists>log1. precommit_step H B sk i h r pvs (vm_validators mesh) hdr log = ((v, lk), log1) \<and>
    ingest_validator_vote H B mesh v log1 = Ok log'"
  using assms by (auto simp: wire_precommit_def Let_def split: result.splits prod.splits)

end
