(* ===== verification/Consensus_Protocol.thy ===== *)
theory Consensus_Protocol
  imports Network_Ingest
begin

text \<open>
  Several validators running the steps of \<open>steps.rs\<close> at one height, over any
  number of rounds. Honest validators cast the votes \<open>prevote_step\<close> and
  \<open>precommit_step\<close> return when the mesh gate accepts them, keep the lock that
  \<open>precommit_step\<close> hands out, pass \<open>prevote_step\<close> only polkas they have seen,
  and do not go back to earlier rounds; the rest of the network casts anything.
  The interface \<open>lock_history\<close> states what the lock rule buys in terms of the
  sequence of votes, agreement is proved from it once, and the transition
  system is an instance. Keeping the lock between rounds is what the interface of
  the steps asks of its caller; the loop of \<open>crates/node/src/main.rs\<close> passes no lock
  and drops the one it gets, so the theorem is about the steps and not about that
  loop.
\<close>

section \<open>Votes and quorums in a history\<close>

definition voted :: "Vote list \<Rightarrow> Height \<Rightarrow> ValidatorId \<Rightarrow> VoteKind \<Rightarrow> Round \<Rightarrow> Hash \<Rightarrow> bool" where
  "voted vs ht i k r h \<longleftrightarrow>
    (\<exists>v\<in>set vs. vt_signer v = i \<and> vt_height v = ht \<and> vt_kind v = k \<and> vt_round v = r \<and>
      vt_block v = VBlock h)"

definition quorum_for ::
  "ValidatorSet \<Rightarrow> ValidatorId set \<Rightarrow> Height \<Rightarrow> Vote list \<Rightarrow> VoteKind \<Rightarrow> Round \<Rightarrow> Hash \<Rightarrow> bool" where
  "quorum_for V F ht vs k r h \<longleftrightarrow>
    (\<exists>S \<subseteq> vset V. 2 * sum (vpower V) (vset V) < 3 * sum (vpower V) S \<and>
      (\<forall>i\<in>S - F. voted vs ht i k r h))"

definition few_faulty :: "ValidatorSet \<Rightarrow> ValidatorId set \<Rightarrow> bool" where
  "few_faulty V F \<longleftrightarrow> bt_wf V \<and> F \<subseteq> vset V \<and> 3 * sum (vpower V) F \<le> sum (vpower V) (vset V)"

lemma voted_mono: "voted vs ht i k r h \<Longrightarrow> set vs \<subseteq> set ws \<Longrightarrow> voted ws ht i k r h"
  by (auto simp: voted_def)

lemma quorum_for_mono: "quorum_for V F ht vs k r h \<Longrightarrow> set vs \<subseteq> set ws \<Longrightarrow> quorum_for V F ht ws k r h"
  unfolding quorum_for_def by (meson voted_mono)

lemma quorum_for_Cons: "quorum_for V F ht vs k r h \<Longrightarrow> quorum_for V F ht (v # vs) k r h"
  by (rule quorum_for_mono) auto

lemma quorums_share_honest:
  assumes "few_faulty V F" "quorum_for V F ht vs k r h" "quorum_for V F ht ws k' r' h'"
  obtains i where "i \<in> vset V - F" "voted vs ht i k r h" "voted ws ht i k' r' h'"
proof -
  obtain S T where S: "S \<subseteq> vset V" "2 * sum (vpower V) (vset V) < 3 * sum (vpower V) S"
      "\<forall>i\<in>S - F. voted vs ht i k r h"
    and T: "T \<subseteq> vset V" "2 * sum (vpower V) (vset V) < 3 * sum (vpower V) T"
      "\<forall>i\<in>T - F. voted ws ht i k' r' h'"
    using assms(2,3) unfolding quorum_for_def by blast
  obtain i where "i \<in> S" "i \<in> T" "i \<notin> F"
    by (rule vq.honest_in_both [OF S(1) T(1) S(2) T(2), where F = F]) (use assms(1) in \<open>auto simp: few_faulty_def\<close>)
  with S T that show ?thesis by blast
qed

section \<open>The interface of the lock rule\<close>

locale lock_history =
  fixes V :: ValidatorSet and F :: "ValidatorId set" and ht :: Height
    and hist :: "Vote list \<Rightarrow> bool"
  assumes faulty: "hist vs \<Longrightarrow> few_faulty V F"
    and suffix: "hist (v # vs) \<Longrightarrow> hist vs"
    and single: "hist vs \<Longrightarrow> i \<in> vset V - F \<Longrightarrow> voted vs ht i Precommit r h \<Longrightarrow>
      voted vs ht i Precommit r h' \<Longrightarrow> h = h'"
    and backed: "hist vs \<Longrightarrow> i \<in> vset V - F \<Longrightarrow> voted vs ht i Precommit r h \<Longrightarrow>
      quorum_for V F ht vs Prevote r h"
    and ordered: "hist (v # vs) \<Longrightarrow> vt_signer v \<in> vset V - F \<Longrightarrow> w \<in> set vs \<Longrightarrow>
      vt_signer w = vt_signer v \<Longrightarrow> vt_round w \<le> vt_round v"
    and justified: "hist (v # vs) \<Longrightarrow> vt_signer v \<in> vset V - F \<Longrightarrow> vt_kind v = Prevote \<Longrightarrow>
      vt_block v = VBlock h' \<Longrightarrow> voted vs ht (vt_signer v) Precommit r h \<Longrightarrow> r < vt_round v \<Longrightarrow>
      h' \<noteq> h \<Longrightarrow> \<exists>r' > r. quorum_for V F ht vs Prevote r' h'"
begin

lemma hist_append: "hist (us @ vs) \<Longrightarrow> hist vs"
  by (induction us) (auto dest: suffix)

lemma no_later_polka:
  assumes "hist (us @ vs)" "quorum_for V F ht (us @ vs) Precommit r h"
    and "quorum_for V F ht vs Prevote r' h'" "r < r'"
  shows "h' = h"
  using assms
proof (induction "length vs" arbitrary: us vs r' rule: less_induct)
  case less
  show ?case
  proof (rule ccontr)
    assume ne: "h' \<noteq> h"
    obtain i where i: "i \<in> vset V - F" "voted (us @ vs) ht i Precommit r h" "voted vs ht i Prevote r' h'"
      using quorums_share_honest [OF faulty [OF less.prems(1)] less.prems(2,3)] by blast
    then obtain y x where y: "y \<in> set (us @ vs)" "vt_signer y = i" "vt_kind y = Precommit"
        "vt_round y = r" "vt_height y = ht" "vt_block y = VBlock h"
      and x: "x \<in> set vs" "vt_signer x = i" "vt_kind x = Prevote" "vt_round x = r'" "vt_block x = VBlock h'"
      unfolding voted_def by blast
    obtain a old where vs: "vs = a @ x # old" using x(1) by (auto simp: in_set_conv_decomp)
    have hx: "hist (x # old)" using less.prems(1) hist_append [of "us @ a"] by (simp add: vs)
    have "y \<in> set old"
    proof (rule ccontr)
      assume "y \<notin> set old"
      then have "y \<in> set (us @ a)" using y(1,3) x(3) by (auto simp: vs)
      then obtain c d where "us @ a = c @ y # d" using split_list by metis
      then have "us @ vs = c @ y # (d @ x # old)" by (simp add: vs)
      then have "hist (y # (d @ x # old))" using less.prems(1) hist_append by metis
      then have "vt_round x \<le> vt_round y"
        by (rule ordered) (use i x y in auto)
      with x y less.prems(4) show False by auto
    qed
    with y have "voted old ht i Precommit r h" by (auto simp: voted_def)
    then obtain r'' where "r < r''" "quorum_for V F ht old Prevote r'' h'"
      using justified [OF hx] i(1) x less.prems(4) ne by blast
    then have "h' = h"
      using less.hyps [of old "us @ a @ [x]" r''] less.prems by (simp add: vs)
    with ne show False by simp
  qed
qed

lemma agreement:
  assumes "hist vs" "quorum_for V F ht vs Precommit r h" "quorum_for V F ht vs Precommit r' h'"
  shows "h = h'"
proof -
  have later: "k = k'" if q: "quorum_for V F ht vs Precommit s k" "quorum_for V F ht vs Precommit s' k'"
    and lt: "s < s'" for s s' k k'
  proof -
    obtain i where "i \<in> vset V - F" "voted vs ht i Precommit s' k'"
      using quorums_share_honest [OF faulty [OF assms(1)] q(2) q(2)] by blast
    then have "quorum_for V F ht vs Prevote s' k'" using backed assms(1) by blast
    then show ?thesis using no_later_polka [of "[]" vs s k s' k'] assms(1) q(1) lt by simp
  qed
  consider "r < r'" | "r' < r" | "r = r'" by fastforce
  then show ?thesis
  proof cases
    case 3
    then show ?thesis
      using quorums_share_honest [OF faulty [OF assms(1)] assms(2,3)] single assms(1) by metis
  qed (use later assms in blast)+
qed

end

section \<open>The transition system\<close>

record PNode =
  pn_round :: Round
  pn_lock :: "Lock option"
  pn_log :: VoteReplayLog

record PState =
  ps_nodes :: "ValidatorId \<Rightarrow> PNode"
  ps_votes :: "Vote list"

text \<open>
  The environment of a run: the libraries, each validator's key, the published
  VRF keys, the mesh (which holds the validator set), the faulty validators and
  the height.
\<close>

record Env =
  en_H :: "bytes \<Rightarrow> Hash"
  en_vrf :: vrf_verifier
  en_B :: Blst
  en_sk :: "ValidatorId \<Rightarrow> bytes"
  en_pks :: "(ValidatorId, bytes) btree"
  en_mesh :: ValidatorMesh
  en_faulty :: "ValidatorId set"
  en_height :: Height

abbreviation en_V :: "Env \<Rightarrow> ValidatorSet" where
  "en_V E \<equiv> vm_validators (en_mesh E)"

abbreviation honest :: "Env \<Rightarrow> ValidatorId set" where
  "honest E \<equiv> vset (en_V E) - en_faulty E"

text \<open>Prevotes of one round that have been cast, at most one per signer.\<close>

definition received_prevotes :: "Env \<Rightarrow> Vote list \<Rightarrow> Round \<Rightarrow> Vote list \<Rightarrow> bool" where
  "received_prevotes E cast r pvs \<longleftrightarrow>
    set pvs \<subseteq> set cast \<and> distinct (map vt_signer pvs) \<and>
    (\<forall>v\<in>set pvs. vt_kind v = Prevote \<and> vt_height v = en_height E \<and> vt_round v = r)"

definition seen_polka :: "Env \<Rightarrow> Vote list \<Rightarrow> (Round \<times> Hash) option \<Rightarrow> bool" where
  "seen_polka E cast u \<longleftrightarrow>
    (case u of None \<Rightarrow> True
     | Some (r, h) \<Rightarrow> (\<exists>pvs. received_prevotes E cast r pvs \<and> polka pvs (en_V E) = Some (VBlock h)))"

inductive cast_step :: "Env \<Rightarrow> PState \<Rightarrow> Vote \<Rightarrow> PState \<Rightarrow> bool" for E where
  prevote: "i \<in> honest E \<Longrightarrow> n = ps_nodes s i \<Longrightarrow> pn_round n \<le> r \<Longrightarrow>
    seen_polka E (ps_votes s) unlock \<Longrightarrow>
    prevote_step (en_H E) (en_vrf E) (en_B E) (en_sk E i) i p (en_pks E) seed (en_V E)
      (en_height E) r (pn_lock n) unlock (pn_log n) = (Ok v, log1) \<Longrightarrow>
    ingest_validator_vote (en_H E) (en_B E) (en_mesh E) v log1 = Ok log2 \<Longrightarrow>
    cast_step E s v
      (s\<lparr>ps_nodes := (ps_nodes s)(i := n\<lparr>pn_round := r, pn_log := log2\<rparr>), ps_votes := v # ps_votes s\<rparr>)"
| precommit: "i \<in> honest E \<Longrightarrow> n = ps_nodes s i \<Longrightarrow> pn_round n \<le> r \<Longrightarrow>
    received_prevotes E (ps_votes s) r pvs \<Longrightarrow>
    precommit_step (en_H E) (en_B E) (en_sk E i) i (en_height E) r pvs (en_V E) hdr (pn_log n)
      = ((v, lk), log1) \<Longrightarrow>
    ingest_validator_vote (en_H E) (en_B E) (en_mesh E) v log1 = Ok log2 \<Longrightarrow>
    cast_step E s v
      (s\<lparr>ps_nodes := (ps_nodes s)(i := n\<lparr>pn_round := r, pn_log := log2,
            pn_lock := (case lk of None \<Rightarrow> pn_lock n | Some l \<Rightarrow> Some l)\<rparr>),
         ps_votes := v # ps_votes s\<rparr>)"
| faulty: "vt_signer v \<notin> honest E \<Longrightarrow> cast_step E s v (s\<lparr>ps_votes := v # ps_votes s\<rparr>)"

definition protocol_init :: PState where
  "protocol_init =
    \<lparr>ps_nodes = (\<lambda>_. \<lparr>pn_round = 0, pn_lock = None, pn_log = []\<rparr>), ps_votes = []\<rparr>"

inductive protocol :: "Env \<Rightarrow> PState \<Rightarrow> bool" for E where
  init: "protocol E protocol_init"
| cast: "protocol E s \<Longrightarrow> cast_step E s v s' \<Longrightarrow> protocol E s'"
| hear: "protocol E s \<Longrightarrow> ingest_vote (en_H E) (en_B E) w (pn_log (ps_nodes s i)) = Ok log' \<Longrightarrow>
    protocol E (s\<lparr>ps_nodes := (ps_nodes s)(i := (ps_nodes s i)\<lparr>pn_log := log'\<rparr>)\<rparr>)"

section \<open>Invariants\<close>

text \<open>
  The log of an honest validator holds its own votes, its round is not behind
  them, and it is locked on its last precommit for a block.
\<close>

definition logged :: "Env \<Rightarrow> PState \<Rightarrow> bool" where
  "logged E s \<longleftrightarrow> (\<forall>v\<in>set (ps_votes s). vt_signer v \<in> honest E \<longrightarrow>
    bt_get (pn_log (ps_nodes s (vt_signer v))) (slot_key (en_H E) v) = Some (body_key (en_H E) v) \<and>
    vt_round v \<le> pn_round (ps_nodes s (vt_signer v)) \<and> vt_height v = en_height E)"

definition locked_on :: "Env \<Rightarrow> PState \<Rightarrow> bool" where
  "locked_on E s \<longleftrightarrow> (\<forall>i\<in>honest E. \<forall>r h. voted (ps_votes s) (en_height E) i Precommit r h \<longrightarrow>
    (\<exists>l. pn_lock (ps_nodes s i) = Some l \<and> lk_height l = en_height E \<and> r \<le> lk_round l \<and>
      voted (ps_votes s) (en_height E) i Precommit (lk_round l) (lk_block_hash l)))"

definition polka_backed :: "Env \<Rightarrow> PState \<Rightarrow> bool" where
  "polka_backed E s \<longleftrightarrow> (\<forall>i\<in>honest E. \<forall>r h. voted (ps_votes s) (en_height E) i Precommit r h \<longrightarrow>
    quorum_for (en_V E) (en_faulty E) (en_height E) (ps_votes s) Prevote r h)"

lemma voted_Cons:
  "voted (v # vs) ht i k r h \<longleftrightarrow>
    vt_signer v = i \<and> vt_height v = ht \<and> vt_kind v = k \<and> vt_round v = r \<and> vt_block v = VBlock h \<or>
    voted vs ht i k r h"
  by (auto simp: voted_def)

lemma cast_step_votes: "cast_step E s v s' \<Longrightarrow> ps_votes s' = v # ps_votes s"
  by (induction rule: cast_step.induct) simp_all

lemma cast_step_slot:
  "cast_step E s v s' \<Longrightarrow> vt_signer v \<in> honest E \<Longrightarrow>
    vt_height v = en_height E \<and> pn_round (ps_nodes s (vt_signer v)) \<le> vt_round v"
  by (induction rule: cast_step.induct) (auto simp: prevote_step_Ok precommit_step_vote)

lemma received_polka_quorum:
  assumes "bt_wf (en_V E)" "received_prevotes E cast r pvs" "polka pvs (en_V E) = Some (VBlock h)"
  shows "quorum_for (en_V E) (en_faulty E) (en_height E) cast Prevote r h"
proof -
  let ?S = "{vt_signer v | v. v \<in> set pvs \<and> vt_block v = VBlock h} \<inter> vset (en_V E)"
  have "distinct (map vt_signer (filter (\<lambda>v. vt_block v = VBlock h) pvs))"
    using assms(2) by (auto simp: received_prevotes_def intro: distinct_map_filter)
  then have "2 * sum (vpower (en_V E)) (vset (en_V E)) < 3 * sum (vpower (en_V E)) ?S"
    by (rule polka_quorum [OF assms(1) _ assms(3)])
  moreover have "\<forall>i\<in>?S - en_faulty E. voted cast (en_height E) i Prevote r h"
    using assms(2) by (auto simp: received_prevotes_def voted_def)
  ultimately show ?thesis unfolding quorum_for_def by blast
qed

lemma log_keeps_own:
  assumes "prevote_step H vrf B sk i p pks seed V h r lock unlock log = (Ok v, log1) \<or>
      precommit_step H B sk i h r pvs V hdr log = ((v, lk), log1)"
    and "ingest_validator_vote H B m v log1 = Ok log2"
  shows "bt_get log2 (slot_key H v) = Some (body_key H v)"
    and "bt_get log k = Some b \<Longrightarrow> bt_get log2 k = Some b"
  using observe_Ok_get [OF ingest_validator_vote_Ok(3) [OF assms(2)]] assms(1)
  by (blast dest: prevote_step_Ok(6) precommit_step_vote(6))+

lemma logged_update:
  assumes "logged E s" "vt_signer v = i" "vt_height v = en_height E" "vt_round v = pn_round n'"
    and "pn_round (ps_nodes s i) \<le> pn_round n'"
    and "bt_get (pn_log n') (slot_key (en_H E) v) = Some (body_key (en_H E) v)"
    and keeps: "\<And>k b. bt_get (pn_log (ps_nodes s i)) k = Some b \<Longrightarrow> bt_get (pn_log n') k = Some b"
  shows "logged E (s\<lparr>ps_nodes := (ps_nodes s)(i := n'), ps_votes := v # ps_votes s\<rparr>)"
  unfolding logged_def
proof (intro ballI impI)
  fix w
  assume "w \<in> set (ps_votes (s\<lparr>ps_nodes := (ps_nodes s)(i := n'), ps_votes := v # ps_votes s\<rparr>))"
    and hon: "vt_signer w \<in> honest E"
  then consider "w = v" | "w \<in> set (ps_votes s)" by auto
  then show "bt_get (pn_log (ps_nodes (s\<lparr>ps_nodes := (ps_nodes s)(i := n'),
        ps_votes := v # ps_votes s\<rparr>) (vt_signer w))) (slot_key (en_H E) w) = Some (body_key (en_H E) w) \<and>
      vt_round w \<le> pn_round (ps_nodes (s\<lparr>ps_nodes := (ps_nodes s)(i := n'),
        ps_votes := v # ps_votes s\<rparr>) (vt_signer w)) \<and> vt_height w = en_height E"
    using assms hon by cases (auto simp: logged_def intro: order_trans)
qed

lemma logged_cast:
  assumes "cast_step E s v s'" "logged E s"
  shows "logged E s'"
  using assms
proof (induction rule: cast_step.induct)
  case (prevote i n s r unlock p seed v log1 log2)
  show ?case
    using prevote_step_Ok [OF prevote.hyps(5)] prevote.hyps(2,3)
      log_keeps_own [OF disjI1 [OF prevote.hyps(5)] prevote.hyps(6)]
    by (intro logged_update [OF prevote.prems]) auto
next
  case (precommit i n s r pvs hdr v lk log1 log2)
  show ?case
    using precommit_step_vote [OF precommit.hyps(5)] precommit.hyps(2,3)
      log_keeps_own [OF disjI2 [OF precommit.hyps(5)] precommit.hyps(6)]
    by (intro logged_update [OF precommit.prems]) auto
next
  case (faulty v s)
  then show ?case by (auto simp: logged_def)
qed

lemma protocol_logged: "protocol E s \<Longrightarrow> logged E s"
proof (induction rule: protocol.induct)
  case init
  then show ?case by (simp add: logged_def protocol_init_def)
next
  case (cast s v s')
  then show ?case by (blast intro: logged_cast)
next
  case (hear s w i log')
  then have "observe (en_H E) (pn_log (ps_nodes s i)) w = Ok log'"
    by (simp add: ingest_vote_def result_simps vote_verify_Ok_iff)
  with hear show ?case by (auto simp: logged_def dest: observe_Ok_get(2))
qed

lemma polka_backed_cast:
  assumes "cast_step E s v s'" "polka_backed E s" "bt_wf (en_V E)"
  shows "polka_backed E s'"
proof -
  have "quorum_for (en_V E) (en_faulty E) (en_height E) (ps_votes s) Prevote (vt_round v) h"
    if hon: "vt_signer v \<in> honest E" and kind: "vt_kind v = Precommit" and block: "vt_block v = VBlock h" for h
    using assms(1) hon kind
  proof (cases rule: cast_step.cases)
    case (precommit i n r pvs hdr lk log1 log2)
    note v = precommit_step_vote [OF precommit(6)]
    obtain l where "lk = Some l" "polka pvs (en_V E) = Some (VBlock h)"
      using v(5) block by (cases lk) auto
    then show ?thesis using received_polka_quorum [OF assms(3) precommit(5)] v(3) by simp
  qed (auto dest: prevote_step_Ok(4))
  then show ?thesis
    using assms(2) cast_step_votes [OF assms(1)]
    by (auto simp: polka_backed_def voted_Cons intro: quorum_for_Cons)
qed

lemma protocol_polka_backed: "protocol E s \<Longrightarrow> bt_wf (en_V E) \<Longrightarrow> polka_backed E s"
proof (induction rule: protocol.induct)
  case init
  then show ?case by (simp add: polka_backed_def protocol_init_def voted_def)
next
  case (cast s v s')
  then show ?case by (blast intro: polka_backed_cast)
next
  case (hear s w i log')
  then show ?case by (simp add: polka_backed_def)
qed

lemma locked_on_cast:
  assumes "cast_step E s v s'" "locked_on E s" "logged E s"
  shows "locked_on E s'"
  using assms
proof (induction rule: cast_step.induct)
  case (prevote i n s r unlock p seed v log1 log2)
  note v = prevote_step_Ok [OF prevote.hyps(5)]
  show ?case
    using prevote.prems(1) v(4) prevote.hyps(2) by (auto simp: locked_on_def voted_Cons)
next
  case (precommit i n s r pvs hdr v lk log1 log2)
  note v = precommit_step_vote [OF precommit.hyps(5)]
  have le: "q \<le> r" if "voted (ps_votes s) (en_height E) i Precommit q h" for q h
    using that precommit.prems(2) precommit.hyps(1-3)
    by (auto simp: voted_def logged_def intro: order_trans)
  show ?case
  proof (cases lk)
    case None
    then show ?thesis
      using precommit.prems(1) v(5) precommit.hyps(2) by (auto simp: locked_on_def voted_Cons)
  next
    case (Some l)
    then show ?thesis
      using precommit.prems(1) v le by (auto simp: locked_on_def voted_Cons)
  qed
next
  case (faulty v s)
  then show ?case by (auto simp: locked_on_def voted_Cons)
qed

lemma protocol_locked_on: "protocol E s \<Longrightarrow> locked_on E s"
proof (induction rule: protocol.induct)
  case init
  then show ?case by (simp add: locked_on_def protocol_init_def voted_def)
next
  case (cast s v s')
  then show ?case by (blast intro: locked_on_cast protocol_logged)
next
  case (hear s w i log')
  then show ?case by (auto simp: locked_on_def)
qed

section \<open>Runs satisfy the interface\<close>

lemma last_cast:
  "protocol E s \<Longrightarrow> ps_votes s = v # vs \<Longrightarrow>
    \<exists>s0 s1. protocol E s0 \<and> ps_votes s0 = vs \<and> cast_step E s0 v s1"
proof (induction rule: protocol.induct)
  case (cast s w s')
  then show ?case using cast_step_votes [OF cast.hyps(2)] by auto
qed (simp_all add: protocol_init_def)

text \<open>The histories of runs in which the replay hash did not collide.\<close>

definition run_history :: "Env \<Rightarrow> Vote list \<Rightarrow> bool" where
  "run_history E vs \<longleftrightarrow> few_faulty (en_V E) (en_faulty E) \<and>
    inj_on (en_H E) (body_preimage ` set vs) \<and> (\<exists>s. protocol E s \<and> ps_votes s = vs)"

lemma run_last:
  "run_history E (v # vs) \<Longrightarrow> \<exists>s0 s1. protocol E s0 \<and> ps_votes s0 = vs \<and> cast_step E s0 v s1"
  unfolding run_history_def using last_cast by blast

lemma run_single:
  assumes "run_history E vs" "i \<in> honest E"
    and "voted vs (en_height E) i k r h" "voted vs (en_height E) i k r h'"
  shows "h = h'"
proof -
  obtain s where s: "protocol E s" "ps_votes s = vs" using assms(1) by (auto simp: run_history_def)
  obtain v w where vw: "v \<in> set vs" "w \<in> set vs" "vote_slot v = vote_slot w" "vt_signer v = i"
    "vt_signer w = i" "vt_block v = VBlock h" "vt_block w = VBlock h'"
    using assms(3,4) by (auto simp: voted_def vote_slot_def)
  note logged = protocol_logged [OF s(1), unfolded logged_def s(2), rule_format]
  have "Some (body_key (en_H E) v) = Some (body_key (en_H E) w)"
    using logged [OF vw(1)] logged [OF vw(2)] vw(4,5) assms(2) slot_key_cong [OF vw(3), of "en_H E"]
    by simp
  then have eq: "en_H E (body_preimage v) = en_H E (body_preimage w)"
    by (simp add: body_key_alt)
  have "inj_on (en_H E) (body_preimage ` set vs)" using assms(1) by (simp add: run_history_def)
  then have "body_preimage v = body_preimage w"
    using eq vw(1,2) by (simp add: inj_on_eq_iff)
  then show ?thesis using vw(3,6,7) by (simp add: body_preimage_same_slot)
qed

lemma cast_prevote_allowed:
  "cast_step E s v s' \<Longrightarrow> vt_signer v \<in> honest E \<Longrightarrow> vt_kind v = Prevote \<Longrightarrow> vt_block v = VBlock h \<Longrightarrow>
    \<exists>unlock. seen_polka E (ps_votes s) unlock \<and>
      prevote_allowed (pn_lock (ps_nodes s (vt_signer v))) (en_height E) (VBlock h) unlock"
proof (induction rule: cast_step.induct)
  case (prevote i n s r unlock p seed v log1 log2)
  then show ?case using prevote_step_Ok(1,5) [OF prevote.hyps(5)] by auto
next
  case (precommit i n s r pvs hdr v lk log1 log2)
  then show ?case using precommit_step_vote(4) [OF precommit.hyps(5)] by simp
qed simp

lemma run_justified:
  assumes hist: "run_history E (v # vs)" and hon: "vt_signer v \<in> honest E"
    and kind: "vt_kind v = Prevote" and block: "vt_block v = VBlock h'"
    and pc: "voted vs (en_height E) (vt_signer v) Precommit r h" and ne: "h' \<noteq> h"
  shows "\<exists>r' > r. quorum_for (en_V E) (en_faulty E) (en_height E) vs Prevote r' h'"
proof -
  have wf: "bt_wf (en_V E)" and inj: "inj_on (en_H E) (body_preimage ` set vs)"
    using hist by (auto simp: run_history_def few_faulty_def)
  obtain s0 s1 where s0: "protocol E s0" "ps_votes s0 = vs" and c: "cast_step E s0 v s1"
    using run_last [OF hist] by blast
  have run0: "run_history E vs" using hist s0 inj by (auto simp: run_history_def)
  obtain l where l: "pn_lock (ps_nodes s0 (vt_signer v)) = Some l" "lk_height l = en_height E"
    "r \<le> lk_round l" "voted vs (en_height E) (vt_signer v) Precommit (lk_round l) (lk_block_hash l)"
    using protocol_locked_on [OF s0(1)] hon pc by (auto simp: locked_on_def s0(2))
  obtain unlock where u: "seen_polka E vs unlock"
    and allowed: "prevote_allowed (Some l) (en_height E) (VBlock h') unlock"
    using cast_prevote_allowed [OF c hon kind block] l(1) s0(2) by auto
  show ?thesis
  proof (cases "h' = lk_block_hash l")
    case True
    then have "r < lk_round l"
      using run_single [OF run0 hon pc] l(3,4) ne by (metis order_le_less)
    moreover have "quorum_for (en_V E) (en_faulty E) (en_height E) vs Prevote (lk_round l) h'"
      using protocol_polka_backed [OF s0(1) wf] hon l(4) True by (auto simp: polka_backed_def s0(2))
    ultimately show ?thesis by blast
  next
    case False
    then obtain q where q: "unlock = Some (q, h')" "lk_round l < q"
      using allowed l(2) by (auto simp: prevote_allowed_def split: option.splits)
    then have "quorum_for (en_V E) (en_faulty E) (en_height E) vs Prevote q h'"
      using u received_polka_quorum [OF wf] by (auto simp: seen_polka_def)
    then show ?thesis using q(2) l(3) by (meson le_less_trans)
  qed
qed

lemma run_suffix: "run_history E (v # vs) \<Longrightarrow> run_history E vs"
  by (auto simp: run_history_def dest: last_cast intro: inj_on_subset)

lemma run_ordered:
  assumes "run_history E (v # vs)" "vt_signer v \<in> honest E" "w \<in> set vs" "vt_signer w = vt_signer v"
  shows "vt_round w \<le> vt_round v"
proof -
  obtain s0 s1 where s0: "protocol E s0" "ps_votes s0 = vs" and c: "cast_step E s0 v s1"
    using run_last [OF assms(1)] by blast
  have "vt_round w \<le> pn_round (ps_nodes s0 (vt_signer v))"
    using protocol_logged [OF s0(1)] assms by (auto simp: logged_def s0(2))
  then show ?thesis using cast_step_slot [OF c assms(2)] by auto
qed

lemma run_backed:
  assumes "run_history E vs" "i \<in> honest E" "voted vs (en_height E) i Precommit r h"
  shows "quorum_for (en_V E) (en_faulty E) (en_height E) vs Prevote r h"
  using assms protocol_polka_backed
  by (auto simp: run_history_def few_faulty_def polka_backed_def)

interpretation run: lock_history "en_V E" "en_faulty E" "en_height E" "run_history E" for E
  by unfold_locales
    (simp add: run_history_def, erule run_suffix, rule run_single, assumption+,
     rule run_backed, assumption+, rule run_ordered, assumption+, rule run_justified, assumption+)

text \<open>
  C1. Agreement across rounds. In every run of validators that follow the lock
  rule of the consensus library, with at most a third of the power faulty and
  no collision of the replay hash among the votes cast, two blocks that both
  gather precommits of more than two thirds of the power, in whatever rounds,
  are the same block.
\<close>

theorem lock_rule_agreement:
  assumes "protocol E s" "few_faulty (en_V E) (en_faulty E)"
    and "inj_on (en_H E) (body_preimage ` set (ps_votes s))"
    and "quorum_for (en_V E) (en_faulty E) (en_height E) (ps_votes s) Precommit r h"
    and "quorum_for (en_V E) (en_faulty E) (en_height E) (ps_votes s) Precommit r' h'"
  shows "h = h'"
proof -
  have "run_history E (ps_votes s)" using assms(1-3) by (auto simp: run_history_def)
  then show ?thesis using assms(4,5) by (rule run.agreement)
qed

section \<open>A run\<close>

text \<open>Two of three validators prevote and precommit the proposal; the third is faulty and silent.\<close>

definition toy_hash :: Hash where
  "toy_hash = header_hash (\<lambda>b. b) toy_header"

definition toy_env :: Env where
  "toy_env = \<lparr>en_H = (\<lambda>b. b), en_vrf = example_vrf,
    en_B = toy_blst [signed_message 5 0 Prevote (VBlock toy_hash),
      signed_message 5 0 Precommit (VBlock toy_hash)],
    en_sk = (\<lambda>i. i), en_pks = [(replicate 48 1, [7])],
    en_mesh = \<lparr>vm_validators = example_validators, vm_peer_ids = []\<rparr>,
    en_faulty = {replicate 48 3}, en_height = 5\<rparr>"

definition toy_vote :: "VoteKind \<Rightarrow> u8 \<Rightarrow> Vote" where
  "toy_vote k x = sign_vote (en_B toy_env) (replicate 48 x) (replicate 48 x) 5 0 k (VBlock toy_hash)"

abbreviation toy_key :: "VoteKind \<Rightarrow> u8 \<Rightarrow> Hash" where
  "toy_key k x \<equiv> slot_key (\<lambda>b. b) (toy_vote k x)"

abbreviation toy_body :: "VoteKind \<Rightarrow> u8 \<Rightarrow> Hash" where
  "toy_body k x \<equiv> body_key (\<lambda>b. b) (toy_vote k x)"

lemma toy_env_simps [simp]:
  "en_H toy_env = (\<lambda>b. b)" "en_vrf toy_env = example_vrf" "en_sk toy_env = (\<lambda>i. i)"
  "en_pks toy_env = [(replicate 48 1, [7])]" "en_faulty toy_env = {replicate 48 3}"
  "en_height toy_env = 5" "en_V toy_env = example_validators"
  "vm_validators (en_mesh toy_env) = example_validators"
  by (simp_all add: toy_env_def)

lemma toy_vote_verify: "verify_signature (en_B toy_env) (toy_vote k x) = Ok ()"
  by (cases k) (simp_all add: verify_signature_def toy_vote_def sign_vote_def toy_env_def toy_blst_def
    bls_verify_def bls_sign_def)

lemma toy_vote_fields [simp]:
  "vt_signer (toy_vote k x) = replicate 48 x" "vt_height (toy_vote k x) = 5"
  "vt_round (toy_vote k x) = 0" "vt_kind (toy_vote k x) = k" "vt_block (toy_vote k x) = VBlock toy_hash"
  by (simp_all add: toy_vote_def sign_vote_def)

lemma toy_leader: "verify_leader example_vrf (toy_proposal 4) [7] [8] example_validators"
  by code_simp

lemma toy_prevote_step:
  "observe (\<lambda>b. b) log (toy_vote Prevote x) = Ok log' \<Longrightarrow>
   prevote_step (\<lambda>b. b) example_vrf (en_B toy_env) (replicate 48 x) (replicate 48 x) (toy_proposal 4)
    [(replicate 48 1, [7])] [8] example_validators 5 0 None None log = (Ok (toy_vote Prevote x), log')"
  using toy_leader
  by (simp add: prevote_step_def toy_proposal_def prevote_allowed_def prevote_def vote_verify_def
    toy_vote_verify [unfolded toy_vote_def] Let_def toy_vote_def [symmetric] toy_hash_def [symmetric] toy_vote_verify)

lemma toy_polka:
  "polka [toy_vote Prevote 1, toy_vote Prevote 2] example_validators = Some (VBlock toy_hash)"
  by (simp add: polka_def tally_def example_validators_def total_power_def has_quorum_def
      exceeds_two_thirds_def saturating_add_def saturating_mul_def Let_def)

lemma toy_precommit_step:
  "observe (\<lambda>b. b) log (toy_vote Precommit x) = Ok log' \<Longrightarrow>
   precommit_step (\<lambda>b. b) (en_B toy_env) (replicate 48 x) (replicate 48 x) 5 0
     [toy_vote Prevote 1, toy_vote Prevote 2] example_validators toy_header log
   = ((toy_vote Precommit x, Some \<lparr>lk_height = 5, lk_round = 0, lk_block_hash = toy_hash\<rparr>), log')"
  by (simp add: precommit_step_def toy_polka precommit_def vote_verify_def log_after_def
    Let_def toy_vote_def [symmetric] toy_hash_def [symmetric] toy_vote_verify)

lemma toy_honest: "x = 1 \<or> x = 2 \<Longrightarrow> replicate 48 x \<in> honest toy_env"
  by (auto simp: vset_def example_validators_def)

lemma toy_ingest:
  assumes "x = 1 \<or> x = 2" "observe (\<lambda>b. b) log (toy_vote k x) = Ok log'"
  shows "ingest_validator_vote (\<lambda>b. b) (en_B toy_env) (en_mesh toy_env) (toy_vote k x) log' = Ok log'"
proof -
  have "is_validator (en_mesh toy_env) (replicate 48 x)"
    using assms(1) by (auto simp: is_validator_def example_validators_def)
  moreover have "observe (\<lambda>b. b) log' (toy_vote k x) = Ok log'"
    using observe_Ok_get(1) [OF assms(2)] by (simp add: observe_alt)
  ultimately show ?thesis
    by (simp add: ingest_validator_vote_def ingest_vote_def vote_verify_def toy_vote_verify)
qed

lemma toy_cast_prevote:
  assumes s: "protocol toy_env s" and x: "x = 1 \<or> x = 2"
    and n: "ps_nodes s (replicate 48 x) = \<lparr>pn_round = 0, pn_lock = None, pn_log = []\<rparr>"
  shows "protocol toy_env (s\<lparr>ps_nodes := (ps_nodes s)(replicate 48 x :=
      \<lparr>pn_round = 0, pn_lock = None, pn_log = [(toy_key Prevote x, toy_body Prevote x)]\<rparr>),
    ps_votes := toy_vote Prevote x # ps_votes s\<rparr>)"
proof -
  have obs: "observe (\<lambda>b. b) [] (toy_vote Prevote x) = Ok [(toy_key Prevote x, toy_body Prevote x)]"
    by (simp add: observe_alt)
  have "cast_step toy_env s (toy_vote Prevote x) (s\<lparr>ps_nodes := (ps_nodes s)(replicate 48 x :=
      (ps_nodes s (replicate 48 x))\<lparr>pn_round := 0, pn_log := [(toy_key Prevote x, toy_body Prevote x)]\<rparr>),
      ps_votes := toy_vote Prevote x # ps_votes s\<rparr>)"
    by (rule cast_step.prevote [OF toy_honest [OF x] refl, where unlock = None and p = "toy_proposal 4" and seed = "[8]"])
      (use toy_prevote_step [OF obs] toy_ingest [OF x obs] n in \<open>simp_all add: seen_polka_def\<close>)
  from protocol.cast [OF s this] show ?thesis by (simp add: n)
qed

lemma toy_keys_differ: "toy_key Prevote x \<noteq> toy_key Precommit x"
  by (simp add: slot_key_alt slot_preimage_def apply_domain_eq_iff)

lemma toy_cast_precommit:
  assumes s: "protocol toy_env s" and x: "x = 1 \<or> x = 2"
    and n: "ps_nodes s (replicate 48 x) =
      \<lparr>pn_round = 0, pn_lock = None, pn_log = [(toy_key Prevote x, toy_body Prevote x)]\<rparr>"
    and votes: "{toy_vote Prevote 1, toy_vote Prevote 2} \<subseteq> set (ps_votes s)"
  shows "\<exists>n'. protocol toy_env (s\<lparr>ps_nodes := (ps_nodes s)(replicate 48 x := n'),
    ps_votes := toy_vote Precommit x # ps_votes s\<rparr>)"
proof -
  obtain log' where obs: "observe (\<lambda>b. b) [(toy_key Prevote x, toy_body Prevote x)] (toy_vote Precommit x) = Ok log'"
    using toy_keys_differ [of x] by (simp add: observe_alt)
  have rec: "received_prevotes toy_env (ps_votes s) 0 [toy_vote Prevote 1, toy_vote Prevote 2]"
    using votes by (simp add: received_prevotes_def)
  show ?thesis
    by (rule exI, rule protocol.cast [OF s cast_step.precommit [OF toy_honest [OF x] refl _ rec, where hdr = toy_header]])
      (use toy_precommit_step [OF obs] toy_ingest [OF x obs] n in simp_all)
qed

lemma toy_run:
  "\<exists>s. protocol toy_env s \<and> ps_votes s =
    [toy_vote Precommit 2, toy_vote Precommit 1, toy_vote Prevote 2, toy_vote Prevote 1]"
proof -
  let ?n = "\<lambda>x. \<lparr>pn_round = 0, pn_lock = None, pn_log = [(toy_key Prevote x, toy_body Prevote x)]\<rparr>"
  have "protocol toy_env protocol_init" by (rule protocol.init)
  from toy_cast_prevote [OF this, of 1]
  have "protocol toy_env (protocol_init\<lparr>ps_nodes := (ps_nodes protocol_init)(replicate 48 1 := ?n 1),
      ps_votes := [toy_vote Prevote 1]\<rparr>)" by (simp add: protocol_init_def)
  from toy_cast_prevote [OF this, of 2]
  have "protocol toy_env (protocol_init\<lparr>ps_nodes := (ps_nodes protocol_init)
        (replicate 48 1 := ?n 1, replicate 48 2 := ?n 2),
      ps_votes := [toy_vote Prevote 2, toy_vote Prevote 1]\<rparr>)" by (simp add: protocol_init_def)
  from toy_cast_precommit [OF this, of 1] obtain n1
  where "protocol toy_env (protocol_init\<lparr>ps_nodes := (ps_nodes protocol_init)
        (replicate 48 1 := n1, replicate 48 2 := ?n 2),
      ps_votes := [toy_vote Precommit 1, toy_vote Prevote 2, toy_vote Prevote 1]\<rparr>)"
    by (auto simp: fun_upd_twist)
  from toy_cast_precommit [OF this, of 2] show ?thesis by auto
qed

theorem lock_rule_agreement_witness:
  "\<exists>s r. protocol toy_env s \<and>
    quorum_for example_validators {replicate 48 3} 5 (ps_votes s) Precommit r toy_hash \<and>
    (\<forall>r' h'. quorum_for example_validators {replicate 48 3} 5 (ps_votes s) Precommit r' h' \<longrightarrow> h' = toy_hash)"
proof -
  obtain s where s: "protocol toy_env s" "ps_votes s =
    [toy_vote Precommit 2, toy_vote Precommit 1, toy_vote Prevote 2, toy_vote Prevote 1]"
    using toy_run by blast
  have few: "few_faulty (en_V toy_env) (en_faulty toy_env)"
    using example_validators_wf
    by (auto simp: few_faulty_def vset_def vpower_def example_validators_def)
  have inj: "inj_on (en_H toy_env) (body_preimage ` set (ps_votes s))" by simp
  have q: "quorum_for example_validators {replicate 48 3} 5 (ps_votes s) Precommit 0 toy_hash"
    unfolding quorum_for_def
    by (rule exI [of _ "{replicate 48 1, replicate 48 2}"])
      (auto simp: voted_def s(2) vset_def vpower_def example_validators_def)
  have "h' = toy_hash" if "quorum_for example_validators {replicate 48 3} 5 (ps_votes s) Precommit r' h'" for r' h'
    using lock_rule_agreement [OF s(1) few inj, of r' h' 0 toy_hash] that q by simp
  with s(1) q show ?thesis by blast
qed

end
