(* ===== verification/Storage_Kv.thy ===== *)
theory Storage_Kv
  imports Types_Core
begin

text \<open>
  The key-value store (\<open>kv.rs\<close>, \<open>memory.rs\<close> of \<open>crates/storage\<close>). The trait
  \<open>Store\<close> is a record of operations on a state type; the provided method
  \<open>apply_batch\<close> is written over it, with its snapshot and rollback. The
  interface \<open>kv_store\<close> holds what clients rely on, with values a backend may
  refuse; it is interpreted on \<open>MemoryStore\<close>. The lemmas show that a batch
  whose writes report errors is all or nothing; a crash between two of its writes
  is the subject of \<open>Storage_Wal\<close>.
\<close>

section \<open>Definitions\<close>

datatype BatchOp = Put bytes bytes | Delete bytes

record 's StoreOps =
  so_get :: "'s \<Rightarrow> bytes \<Rightarrow> (bytes option, TypesError) result"
  so_put :: "'s \<Rightarrow> bytes \<Rightarrow> bytes \<Rightarrow> (unit, TypesError) result \<times> 's"
  so_delete :: "'s \<Rightarrow> bytes \<Rightarrow> (unit, TypesError) result \<times> 's"
  so_prefix :: "'s \<Rightarrow> bytes \<Rightarrow> ((bytes \<times> bytes) list, TypesError) result"

text \<open>The \<open>?\<close> operator on an operation that changes the store.\<close>

fun then_do ::
  "('a, 'e) result \<times> 's \<Rightarrow> ('a \<Rightarrow> 's \<Rightarrow> ('b, 'e) result \<times> 's) \<Rightarrow> ('b, 'e) result \<times> 's" where
  "then_do (Ok x, s) f = f x s"
| "then_do (Err e, s) f = (Err e, s)"

fun map_fail :: "('e \<Rightarrow> 'f) \<Rightarrow> ('a, 'e) result \<times> 's \<Rightarrow> ('a, 'f) result \<times> 's" where
  "map_fail f (r, s) = (map_err f r, s)"

fun op_key :: "BatchOp \<Rightarrow> bytes" where
  "op_key (Put k v) = k"
| "op_key (Delete k) = k"

fun snapshot_keys ::
  "'s StoreOps \<Rightarrow> 's \<Rightarrow> BatchOp list \<Rightarrow> (bytes \<times> bytes option) list
    \<Rightarrow> ((bytes \<times> bytes option) list, TypesError) result" where
  "snapshot_keys S s [] snap = Ok snap"
| "snapshot_keys S s (op # ops) snap =
    (let key = op_key op in
     if list_ex (\<lambda>(k, _). k = key) snap then snapshot_keys S s ops snap
     else and_then (so_get S s key) (\<lambda>v. snapshot_keys S s ops (snap @ [(key, v)])))"

fun restore :: "'s StoreOps \<Rightarrow> 's \<Rightarrow> (bytes \<times> bytes option) list \<Rightarrow> 's" where
  "restore S s [] = s"
| "restore S s ((k, v) # rest) =
    restore S (case v of Some val \<Rightarrow> snd (so_put S s k val) | None \<Rightarrow> snd (so_delete S s k)) rest"

fun run_op :: "'s StoreOps \<Rightarrow> 's \<Rightarrow> BatchOp \<Rightarrow> (unit, TypesError) result \<times> 's" where
  "run_op S s (Put k v) = so_put S s k v"
| "run_op S s (Delete k) = so_delete S s k"

fun run_ops ::
  "'s StoreOps \<Rightarrow> (bytes \<times> bytes option) list \<Rightarrow> 's \<Rightarrow> BatchOp list
    \<Rightarrow> (unit, TypesError) result \<times> 's" where
  "run_ops S snap s [] = (Ok (), s)"
| "run_ops S snap s (op # ops) =
    (case run_op S s op of
       (Err e, s') \<Rightarrow> (Err e, restore S s' snap)
     | (Ok _, s') \<Rightarrow> run_ops S snap s' ops)"

definition apply_batch ::
  "'s StoreOps \<Rightarrow> 's \<Rightarrow> BatchOp list \<Rightarrow> (unit, TypesError) result \<times> 's" where
  "apply_batch S s ops =
    (case snapshot_keys S s ops [] of
       Err e \<Rightarrow> (Err e, s)
     | Ok snap \<Rightarrow> run_ops S snap s ops)"

type_synonym MemoryStore = "(bytes, bytes) btree"

definition starts_with :: "bytes \<Rightarrow> bytes \<Rightarrow> bool" where
  "starts_with k p = (take (length p) k = p)"

definition memory_store :: "MemoryStore StoreOps" where
  "memory_store =
    \<lparr>so_get = (\<lambda>s k. Ok (bt_get s k)),
     so_put = (\<lambda>s k v. (Ok (), bt_insert k v s)),
     so_delete = (\<lambda>s k. (Ok (), bt_remove k s)),
     so_prefix = (\<lambda>s p. Ok (filter (\<lambda>(k, _). starts_with k p) s))\<rparr>"

section \<open>The store interface\<close>

text \<open>The effect of a batch on the abstract map.\<close>

fun op_map :: "(bytes \<rightharpoonup> bytes) \<Rightarrow> BatchOp \<Rightarrow> (bytes \<rightharpoonup> bytes)" where
  "op_map m (Put k v) = m(k \<mapsto> v)"
| "op_map m (Delete k) = m(k := None)"

definition ops_map :: "(bytes \<rightharpoonup> bytes) \<Rightarrow> BatchOp list \<Rightarrow> (bytes \<rightharpoonup> bytes)" where
  "ops_map m ops = foldl op_map m ops"

fun op_value :: "BatchOp \<Rightarrow> bytes option" where
  "op_value (Put k v) = Some v"
| "op_value (Delete k) = None"

lemma ops_map_simps [simp]:
  "ops_map m [] = m" "ops_map m (op # ops) = ops_map (op_map m op) ops"
  "ops_map m (ops @ ops') = ops_map (ops_map m ops) ops'"
  by (simp_all add: ops_map_def)

lemma op_map_other: "k \<noteq> op_key op \<Longrightarrow> op_map m op k = m k"
  by (cases op) simp_all

locale kv_store =
  fixes S :: "'s StoreOps"
    and contents :: "'s \<Rightarrow> bytes \<rightharpoonup> bytes"
    and accepts :: "bytes \<Rightarrow> bool"
  assumes get_ok: "so_get S s k = Ok (contents s k)"
    and put_ok: "accepts v \<Longrightarrow> fst (so_put S s k v) = Ok () \<and>
      contents (snd (so_put S s k v)) = (contents s)(k \<mapsto> v)"
    and put_refused: "\<not> accepts v \<Longrightarrow> \<exists>e. so_put S s k v = (Err e, s)"
    and delete_ok: "fst (so_delete S s k) = Ok () \<and>
      contents (snd (so_delete S s k)) = (contents s)(k := None)"
begin

text \<open>The snapshot holds the old value of every key of the batch, once.\<close>

lemma snapshot_keys_Ok:
  assumes "distinct (map fst snap)" "\<forall>x\<in>set snap. snd x = contents s (fst x)"
  shows "\<exists>snap'. snapshot_keys S s ops snap = Ok snap' \<and> distinct (map fst snap') \<and>
    set (map fst snap') = set (map fst snap) \<union> op_key ` set ops \<and>
    (\<forall>x\<in>set snap'. snd x = contents s (fst x))"
  using assms
proof (induction ops arbitrary: snap)
  case Nil
  then show ?case by auto
next
  case (Cons op ops)
  show ?case
  proof (cases "op_key op \<in> set (map fst snap)")
    case True
    then have "list_ex (\<lambda>(k, _). k = op_key op) snap" by (force simp: list_ex_iff)
    moreover obtain snap' where "snapshot_keys S s ops snap = Ok snap'" "distinct (map fst snap')"
      "set (map fst snap') = set (map fst snap) \<union> op_key ` set ops"
      "\<forall>x\<in>set snap'. snd x = contents s (fst x)"
      using Cons.IH [OF Cons.prems] by blast
    ultimately show ?thesis using True by (intro exI [of _ snap']) auto
  next
    case False
    let ?snap = "snap @ [(op_key op, contents s (op_key op))]"
    have "\<not> list_ex (\<lambda>(k, _). k = op_key op) snap" using False by (force simp: list_ex_iff)
    moreover obtain snap' where "snapshot_keys S s ops ?snap = Ok snap'" "distinct (map fst snap')"
      "set (map fst snap') = set (map fst ?snap) \<union> op_key ` set ops"
      "\<forall>x\<in>set snap'. snd x = contents s (fst x)"
      using Cons.IH [of ?snap] Cons.prems False by force
    ultimately show ?thesis by (intro exI [of _ snap']) (auto simp: get_ok Let_def)
  qed
qed

lemma restore_contents:
  assumes "distinct (map fst snap)" "\<forall>k v. (k, Some v) \<in> set snap \<longrightarrow> accepts v"
  shows "contents (restore S s snap) k = (case map_of snap k of Some v \<Rightarrow> v | None \<Rightarrow> contents s k)"
  using assms
proof (induction snap arbitrary: s)
  case (Cons x snap)
  obtain j v where x: "x = (j, v)" by (cases x)
  define s' where "s' = (case v of Some val \<Rightarrow> snd (so_put S s j val) | None \<Rightarrow> snd (so_delete S s j))"
  have s': "contents s' = (contents s)(j := v)"
    using Cons.prems(2) put_ok [of _ s j] delete_ok [of s j] by (cases v) (simp_all add: x s'_def)
  have "map_of snap j = None"
    using Cons.prems(1) by (simp add: x map_of_eq_None_iff)
  moreover have "contents (restore S s' snap) k = (case map_of snap k of Some v \<Rightarrow> v | None \<Rightarrow> contents s' k)"
    using Cons by simp
  moreover have "restore S s (x # snap) = restore S s' snap" by (simp add: x s'_def)
  ultimately show ?case by (auto simp: x s' split: option.split)
qed simp

lemma run_op_cases:
  obtains (ok) s' where "run_op S s op = (Ok (), s')" "contents s' = op_map (contents s) op"
      "\<forall>v. op_value op = Some v \<longrightarrow> accepts v"
  | (refused) e where "run_op S s op = (Err e, s)" "\<exists>v. op_value op = Some v \<and> \<not> accepts v"
proof (cases op)
  case (Put k v)
  show ?thesis
  proof (cases "accepts v")
    case True
    then show ?thesis
      using put_ok [OF True, of s k] ok [of "snd (so_put S s k v)"] by (simp add: Put prod_eq_iff)
  next
    case False
    then show ?thesis using put_refused [OF False, of s k] refused by (auto simp: Put)
  qed
next
  case (Delete k)
  then show ?thesis
    using delete_ok [of s k] ok [of "snd (so_delete S s k)"] by (simp add: prod_eq_iff)
qed

lemma run_ops_effect:
  "(\<exists>s'. run_ops S snap s ops = (Ok (), s') \<and> contents s' = ops_map (contents s) ops \<and>
      (\<forall>op\<in>set ops. \<forall>v. op_value op = Some v \<longrightarrow> accepts v)) \<or>
   (\<exists>e s'. run_ops S snap s ops = (Err e, restore S s' snap) \<and>
      (\<forall>k. k \<notin> op_key ` set ops \<longrightarrow> contents s' k = contents s k) \<and>
      (\<exists>op\<in>set ops. \<exists>v. op_value op = Some v \<and> \<not> accepts v))"
proof (induction ops arbitrary: s)
  case (Cons op ops)
  show ?case
  proof (cases rule: run_op_cases [of s op])
    case (ok s')
    from Cons.IH [of s'] show ?thesis
    proof
      assume "\<exists>s2. run_ops S snap s' ops = (Ok (), s2) \<and> contents s2 = ops_map (contents s') ops \<and>
        (\<forall>op\<in>set ops. \<forall>v. op_value op = Some v \<longrightarrow> accepts v)"
      then show ?thesis using ok by auto
    next
      assume "\<exists>e s2. run_ops S snap s' ops = (Err e, restore S s2 snap) \<and>
        (\<forall>k. k \<notin> op_key ` set ops \<longrightarrow> contents s2 k = contents s' k) \<and>
        (\<exists>op\<in>set ops. \<exists>v. op_value op = Some v \<and> \<not> accepts v)"
      then obtain e s2 where "run_ops S snap s' ops = (Err e, restore S s2 snap)"
        "\<forall>k. k \<notin> op_key ` set ops \<longrightarrow> contents s2 k = contents s' k"
        "\<exists>op\<in>set ops. \<exists>v. op_value op = Some v \<and> \<not> accepts v" by blast
      then show ?thesis
        using ok by (intro disjI2 exI [of _ e] exI [of _ s2]) (auto simp: op_map_other)
    qed
  next
    case (refused e)
    then show ?thesis by auto
  qed
qed simp

text \<open>A batch takes effect completely or not at all, and it fails only on a refused value.\<close>

lemma apply_batch_atomic:
  assumes stored: "\<forall>v\<in>ran (contents s). accepts v"
  shows "(\<exists>s'. apply_batch S s ops = (Ok (), s') \<and> contents s' = ops_map (contents s) ops \<and>
      (\<forall>op\<in>set ops. \<forall>v. op_value op = Some v \<longrightarrow> accepts v)) \<or>
    (\<exists>e s'. apply_batch S s ops = (Err e, s') \<and> contents s' = contents s \<and>
      (\<exists>op\<in>set ops. \<exists>v. op_value op = Some v \<and> \<not> accepts v))"
proof -
  obtain snap where snap: "snapshot_keys S s ops [] = Ok snap" "distinct (map fst snap)"
    "set (map fst snap) = op_key ` set ops" "\<forall>x\<in>set snap. snd x = contents s (fst x)"
    using snapshot_keys_Ok [of "[]" s ops] by auto
  have acc: "\<forall>k v. (k, Some v) \<in> set snap \<longrightarrow> accepts v"
    using snap(4) stored by (fastforce simp: ran_def)
  have undone: "contents (restore S s' snap) = contents s"
    if "\<forall>k. k \<notin> op_key ` set ops \<longrightarrow> contents s' k = contents s k" for s'
  proof
    fix k
    show "contents (restore S s' snap) k = contents s k"
    proof (cases "map_of snap k")
      case None
      then have "k \<notin> op_key ` set ops" using snap(3) by (metis map_of_eq_None_iff set_map)
      then show ?thesis using that None by (simp add: restore_contents [OF snap(2) acc])
    next
      case (Some v)
      then show ?thesis
        using snap(4) map_of_SomeD [OF Some] by (fastforce simp: restore_contents [OF snap(2) acc])
    qed
  qed
  have batch: "apply_batch S s ops = run_ops S snap s ops" by (simp add: apply_batch_def snap(1))
  from run_ops_effect [of snap s ops] show ?thesis
  proof (elim disjE exE conjE)
    fix s' assume "run_ops S snap s ops = (Ok (), s')" "contents s' = ops_map (contents s) ops"
      "\<forall>op\<in>set ops. \<forall>v. op_value op = Some v \<longrightarrow> accepts v"
    then show ?thesis unfolding batch by (intro disjI1 exI conjI)
  next
    fix e s' assume "run_ops S snap s ops = (Err e, restore S s' snap)"
      "\<forall>k. k \<notin> op_key ` set ops \<longrightarrow> contents s' k = contents s k"
      "\<exists>op\<in>set ops. \<exists>v. op_value op = Some v \<and> \<not> accepts v"
    then show ?thesis unfolding batch using undone [of s'] by blast
  qed
qed

lemma apply_batch_ok:
  assumes "\<forall>v\<in>ran (contents s). accepts v" "\<forall>op\<in>set ops. \<forall>v. op_value op = Some v \<longrightarrow> accepts v"
  shows "\<exists>s'. apply_batch S s ops = (Ok (), s') \<and> contents s' = ops_map (contents s) ops"
  using apply_batch_atomic [OF assms(1), of ops] assms(2) by blast

end

text \<open>A store that refuses no value: every batch succeeds.\<close>

locale reliable_store = kv_store S contents "\<lambda>_. True"
  for S :: "'s StoreOps" and contents :: "'s \<Rightarrow> bytes \<rightharpoonup> bytes"
begin

lemma batch:
  obtains s' where "apply_batch S s ops = (Ok (), s')" "contents s' = ops_map (contents s) ops"
  using apply_batch_ok [of s ops] by auto

end

lemma ops_map_other: "k \<notin> op_key ` set ops \<Longrightarrow> ops_map m ops k = m k"
  by (induction ops arbitrary: m) (simp_all add: op_map_other)

lemma ops_map_put:
  assumes "Put k v \<in> set ops" "\<forall>op\<in>set ops. op_key op = k \<longrightarrow> op = Put k v"
  shows "ops_map m ops k = Some v"
  using assms
proof (induction ops arbitrary: m)
  case (Cons op ops)
  show ?case
  proof (cases "Put k v \<in> set ops")
    case True
    have "ops_map (op_map m op) ops k = Some v"
      by (rule Cons.IH [OF True]) (use Cons.prems(2) set_subset_Cons [of ops op] in blast)
    then show ?thesis by (simp only: ops_map_simps)
  next
    case False
    have "k \<notin> op_key ` set ops"
    proof
      assume "k \<in> op_key ` set ops"
      then obtain p where p: "p \<in> set ops" "op_key p = k" by auto
      with Cons.prems(2) have "p = Put k v" by simp
      with p False show False by simp
    qed
    moreover have "op = Put k v" using Cons.prems(1) False by simp
    ultimately show ?thesis by (simp add: ops_map_other)
  qed
qed simp

lemma ops_map_upd_other:
  assumes "k \<notin> op_key ` set ops"
  shows "ops_map (m(k := x)) ops = (ops_map m ops)(k := x)"
  using assms
proof (induction ops arbitrary: m)
  case (Cons op ops)
  have "op_map (m(k := x)) op = (op_map m op)(k := x)"
    using Cons.prems by (cases op) (auto simp: fun_upd_twist)
  then have "ops_map (m(k := x)) (op # ops) = ops_map ((op_map m op)(k := x)) ops"
    by (simp only: ops_map_simps)
  also have "\<dots> = (ops_map (op_map m op) ops)(k := x)"
    using Cons.prems by (intro Cons.IH) simp
  finally show ?case by (simp only: ops_map_simps)
qed simp

interpretation mem: reliable_store memory_store bt_get
  by unfold_locales (simp_all add: memory_store_def)

end
