(* ===== verification/Consensus_Wal.thy ===== *)
theory Consensus_Wal
  imports Consensus_Steps Storage_Kv
begin

text \<open>
  The consensus write-ahead log and equivocation evidence (\<open>wal.rs\<close>,
  \<open>evidence.rs\<close> of \<open>crates/consensus\<close>). The log is written over any store. The
  lemmas show that votes signed through the log, across restarts on the same
  store, never equivocate, and that evidence is accepted exactly for two verified
  votes of one slot with different blocks.
\<close>

section \<open>Evidence\<close>

record Evidence =
  ev_a :: Vote
  ev_b :: Vote

definition vote_payload :: "Vote \<Rightarrow> bytes" where
  "vote_payload v =
    vt_signer v @ u64_be (vt_height v) @ u32_be (vt_round v) @ [vote_kind_byte (vt_kind v)] @
    (case vt_block v of VNil \<Rightarrow> [0] | VBlock h \<Rightarrow> [1] @ h) @ vt_signature v"

definition evidence_encode :: "Evidence \<Rightarrow> bytes" where
  "evidence_encode ev =
    (let a = vote_payload (ev_a ev); b = vote_payload (ev_b ev) in
     canonical_encode (u32_be (of_nat (length a)) @ a @ u32_be (of_nat (length b)) @ b))"

definition block_bytes :: "Vote \<Rightarrow> bytes" where
  "block_bytes v = (case vt_block v of VNil \<Rightarrow> [0] | VBlock h \<Rightarrow> [1] @ h)"

definition equivocation ::
  "(bytes \<Rightarrow> Hash) \<Rightarrow> Blst \<Rightarrow> Vote \<Rightarrow> Vote \<Rightarrow> (Evidence, VerifyError) result" where
  "equivocation H B a b =
    and_then (verify_signature B a) (\<lambda>_.
    and_then (verify_signature B b) (\<lambda>_.
      if vt_signer a \<noteq> vt_signer b \<or> vt_height a \<noteq> vt_height b \<or> vt_round a \<noteq> vt_round b \<or>
         vt_kind a \<noteq> vt_kind b then Err ReplaySlot
      else let ka = replay_key H (vt_signer a) (vt_height a) (vt_round a) (vt_kind a);
               kb = replay_key H (vt_signer b) (vt_height b) (vt_round b) (vt_kind b)
           in if ka \<noteq> kb then Err ReplaySlot
              else let ba = vote_hash H (vt_signer a) (vt_height a) (vt_round a) (vt_kind a) (block_bytes a);
                       bb = vote_hash H (vt_signer b) (vt_height b) (vt_round b) (vt_kind b) (block_bytes b)
                   in if ba = bb then Err ReplaySlot else Ok \<lparr>ev_a = a, ev_b = b\<rparr>))"

definition independent_bls_verify :: "Blst \<Rightarrow> Vote \<Rightarrow> (unit, VerifyError) result" where
  "independent_bls_verify B v =
    and_then (ok_or SignatureErr (pk_from_bytes B (vt_signer v))) (\<lambda>pk.
    and_then (ok_or SignatureErr (sig_from_bytes B (vt_signature v))) (\<lambda>sig.
      let msg = signed_message (vt_height v) (vt_round v) (vt_kind v) (vt_block v)
      in map_err (\<lambda>_. SignatureErr) (bls_verify B pk msg sig)))"

definition submit_evidence ::
  "(bytes \<Rightarrow> Hash) \<Rightarrow> Blst \<Rightarrow> Evidence \<Rightarrow> (Evidence, VerifyError) result" where
  "submit_evidence H B ev =
    and_then (independent_bls_verify B (ev_a ev)) (\<lambda>_.
    and_then (independent_bls_verify B (ev_b ev)) (\<lambda>_.
    and_then (equivocation H B (ev_a ev) (ev_b ev)) (\<lambda>_. Ok ev)))"

section \<open>The log\<close>

definition PREFIX :: bytes where "PREFIX = ascii ''cw/''"

definition vote_key :: "(bytes \<Rightarrow> Hash) \<Rightarrow> Vote \<Rightarrow> bytes" where
  "vote_key H v = PREFIX @ replay_key H (vt_signer v) (vt_height v) (vt_round v) (vt_kind v)"

definition encode_vote_body :: "Vote \<Rightarrow> bytes" where
  "encode_vote_body v = signed_message (vt_height v) (vt_round v) (vt_kind v) (vt_block v)"

definition log_vote ::
  "(bytes \<Rightarrow> Hash) \<Rightarrow> 's StoreOps \<Rightarrow> 's \<Rightarrow> Vote \<Rightarrow> (unit, TypesError) result \<times> 's" where
  "log_vote H S s v = apply_batch S s [Put (vote_key H v) (encode_vote_body v)]"

definition log_proposal ::
  "(bytes \<Rightarrow> Hash) \<Rightarrow> 's StoreOps \<Rightarrow> 's \<Rightarrow> Proposal \<Rightarrow> (unit, TypesError) result \<times> 's" where
  "log_proposal H S s p =
    (let key = PREFIX @ ascii ''p/'' @ u64_be (pr_height p) @ u32_be (pr_round p)
     in apply_batch S s [Put key (header_hash H (pr_header p))])"

definition logged_vote_body ::
  "(bytes \<Rightarrow> Hash) \<Rightarrow> 's StoreOps \<Rightarrow> 's \<Rightarrow> Vote \<Rightarrow> (bytes option, TypesError) result" where
  "logged_vote_body H S s v = so_get S s (vote_key H v)"

datatype DoubleSignError =
    DsStore TypesError
  | WouldDoubleSign
  | DsEquivocation Evidence

definition check_no_double_sign ::
  "(bytes \<Rightarrow> Hash) \<Rightarrow> Blst \<Rightarrow> 's StoreOps \<Rightarrow> 's \<Rightarrow> Vote \<Rightarrow> Vote option
    \<Rightarrow> (unit, DoubleSignError) result" where
  "check_no_double_sign H B S s candidate previous_signed =
    (case logged_vote_body H S s candidate of
       Err e \<Rightarrow> Err (DsStore e)
     | Ok None \<Rightarrow> Ok ()
     | Ok (Some prev_body) \<Rightarrow>
         if prev_body = encode_vote_body candidate then Ok ()
         else (case previous_signed of
                 Some old \<Rightarrow>
                   (case equivocation H B old candidate of
                      Err _ \<Rightarrow> Err WouldDoubleSign
                    | Ok e \<Rightarrow> Err (DsEquivocation e))
               | None \<Rightarrow> Err WouldDoubleSign))"

definition sign_vote_logged ::
  "(bytes \<Rightarrow> Hash) \<Rightarrow> Blst \<Rightarrow> 's StoreOps \<Rightarrow> 's \<Rightarrow> Vote \<Rightarrow> Vote option
    \<Rightarrow> (Vote, DoubleSignError) result \<times> 's" where
  "sign_vote_logged H B S s unsigned_vote previous =
    (case check_no_double_sign H B S s unsigned_vote previous of
       Err e \<Rightarrow> (Err e, s)
     | Ok _ \<Rightarrow>
         then_do (map_fail DsStore (log_vote H S s unsigned_vote)) (\<lambda>_ s.
           (Ok unsigned_vote, s)))"

text \<open>
  A history of signing requests against one store; a restart keeps the store
  and nothing else. The votes that were released, in order.
\<close>

fun released ::
  "(bytes \<Rightarrow> Hash) \<Rightarrow> Blst \<Rightarrow> 's StoreOps \<Rightarrow> 's \<Rightarrow> (Vote \<times> Vote option) list \<Rightarrow> Vote list \<times> 's" where
  "released H B S s [] = ([], s)"
| "released H B S s ((v, prev) # reqs) =
    (case sign_vote_logged H B S s v prev of
       (Ok w, s') \<Rightarrow> (case released H B S s' reqs of (ws, s'') \<Rightarrow> (w # ws, s''))
     | (Err _, s') \<Rightarrow> released H B S s' reqs)"

section \<open>Evidence is sound and complete\<close>

lemma block_bytes_encode: "block_bytes v = vote_block_encode (vt_block v)"
  by (cases "vt_block v") (simp_all add: block_bytes_def)

lemma independent_bls_verify_same: "independent_bls_verify B v = verify_signature B v"
  by (simp add: independent_bls_verify_def verify_signature_def)

lemma equivocation_Ok_iff:
  "equivocation H B a b = Ok e \<longleftrightarrow>
    e = \<lparr>ev_a = a, ev_b = b\<rparr> \<and> verify_signature B a = Ok () \<and> verify_signature B b = Ok () \<and>
    vote_slot a = vote_slot b \<and> body_key H a \<noteq> body_key H b"
  by (auto simp: equivocation_def result_simps vote_slot_def body_key_def block_bytes_encode Let_def)

lemma submit_evidence_Ok_iff:
  "submit_evidence H B ev = Ok e \<longleftrightarrow>
    e = ev \<and> verify_signature B (ev_a ev) = Ok () \<and> verify_signature B (ev_b ev) = Ok () \<and>
    vote_slot (ev_a ev) = vote_slot (ev_b ev) \<and> body_key H (ev_a ev) \<noteq> body_key H (ev_b ev)"
  by (auto simp: submit_evidence_def independent_bls_verify_same result_simps equivocation_Ok_iff)

section \<open>The log prevents double signing\<close>

lemma vote_key_slot: "vote_key H v = PREFIX @ slot_key H v"
  by (simp add: vote_key_def slot_key_def)

context kv_store
begin

lemma log_vote_cases:
  assumes "\<forall>v\<in>ran (contents s). accepts v"
  obtains s' where "log_vote H S s v = (Ok (), s')"
    "contents s' = (contents s)(vote_key H v \<mapsto> encode_vote_body v)" "accepts (encode_vote_body v)"
  | e s' where "log_vote H S s v = (Err e, s')" "contents s' = contents s"
  using apply_batch_atomic [OF assms, of "[Put (vote_key H v) (encode_vote_body v)]"] that
  by (auto simp: log_vote_def)

text \<open>The store holds the body of every released vote.\<close>

lemma sign_vote_logged_effect:
  assumes "\<forall>v\<in>ran (contents s). accepts v" "sign_vote_logged H B S s v prev = (r, s')"
  shows "(\<forall>v\<in>ran (contents s'). accepts v) \<and>
    (\<forall>k b. contents s k = Some b \<longrightarrow> contents s' k = Some b) \<and>
    (\<forall>w. r = Ok w \<longrightarrow> w = v \<and> contents s' (vote_key H v) = Some (encode_vote_body v))"
proof (cases "check_no_double_sign H B S s v prev")
  case (Err e)
  then show ?thesis using assms by (auto simp: sign_vote_logged_def)
next
  case (Ok u)
  then have fresh: "contents s (vote_key H v) = None \<or> contents s (vote_key H v) = Some (encode_vote_body v)"
    by (auto simp: check_no_double_sign_def logged_vote_body_def get_ok split: option.splits if_splits result.splits)
  show ?thesis
  proof (cases rule: log_vote_cases [OF assms(1), of H v])
    case (1 s1)
    then have "r = Ok v" "s' = s1" using assms(2) Ok by (auto simp: sign_vote_logged_def)
    with 1 fresh assms(1) show ?thesis by (auto simp: ran_def)
  next
    case (2 e s1)
    then have "\<exists>e. r = Err e" "s' = s1" using assms(2) Ok by (auto simp: sign_vote_logged_def)
    with 2 assms(1) show ?thesis by auto
  qed
qed

lemma released_logged:
  assumes "\<forall>v\<in>ran (contents s). accepts v" "released H B S s reqs = (ws, s')"
  shows "(\<forall>k b. contents s k = Some b \<longrightarrow> contents s' k = Some b) \<and>
    (\<forall>w\<in>set ws. contents s' (vote_key H w) = Some (encode_vote_body w))"
  using assms
proof (induction reqs arbitrary: s ws)
  case (Cons req reqs)
  obtain v prev where req: "req = (v, prev)" by (cases req)
  obtain r s1 where sign: "sign_vote_logged H B S s v prev = (r, s1)" by (cases "sign_vote_logged H B S s v prev")
  note eff = sign_vote_logged_effect [OF Cons.prems(1) sign]
  obtain ws1 where rest: "released H B S s1 reqs = (ws1, s')"
    and ws: "ws = (case r of Ok w \<Rightarrow> w # ws1 | Err _ \<Rightarrow> ws1)"
    using Cons.prems(2) by (auto simp: req sign split: result.splits prod.splits)
  have "(\<forall>k b. contents s1 k = Some b \<longrightarrow> contents s' k = Some b) \<and>
      (\<forall>w\<in>set ws1. contents s' (vote_key H w) = Some (encode_vote_body w))"
    using Cons.IH [OF _ rest] eff by blast
  with eff ws show ?case by (cases r) auto
qed simp

lemma released_one_body:
  assumes "\<forall>v\<in>ran (contents s). accepts v" "released H B S s reqs = (ws, s')"
    and "v \<in> set ws" "w \<in> set ws" "vote_slot v = vote_slot w"
  shows "vt_block v = vt_block w"
proof -
  have "vote_key H v = vote_key H w" using slot_key_cong [OF assms(5)] by (simp add: vote_key_slot)
  then have "encode_vote_body v = encode_vote_body w"
    using released_logged [OF assms(1,2)] assms(3,4) by (metis option.inject)
  then show ?thesis by (simp add: encode_vote_body_def signed_message_inject)
qed

end

text \<open>
  C19. No double signing across restarts. Of all votes released through the log
  on one store, in any order of requests and whatever previous votes the caller
  still remembers, two for the same validator, height, round and kind are for
  the same block, and no evidence against the signer can be made from them. No
  assumption on the hash is needed.
\<close>

theorem wal_no_double_sign:
  assumes "released H B memory_store s reqs = (ws, s')" "v \<in> set ws" "w \<in> set ws"
  shows "(vote_slot v = vote_slot w \<longrightarrow> vt_block v = vt_block w) \<and>
    (\<exists>e. submit_evidence H B \<lparr>ev_a = v, ev_b = w\<rparr> = Err e)"
proof -
  have same: "vote_slot v = vote_slot w \<Longrightarrow> vt_block v = vt_block w"
    using mem.released_one_body [OF _ assms] by simp
  then have "submit_evidence H B \<lparr>ev_a = v, ev_b = w\<rparr> \<noteq> Ok e" for e
    by (auto simp: submit_evidence_Ok_iff body_key_def vote_slot_def)
  then show ?thesis using same by (cases "submit_evidence H B \<lparr>ev_a = v, ev_b = w\<rparr>") auto
qed

theorem wal_no_double_sign_witness:
  "fst (released last32 (toy_blst []) memory_store [] [(example_vote 1 0, None), (example_vote 2 0, None), (example_vote 1 5, None)])
     = [example_vote 1 0, example_vote 1 5] \<and>
   vt_block (example_vote 1 0) = vt_block (example_vote 1 5)"
proof -
  let ?reqs = "[(example_vote 1 0, None), (example_vote 2 0, None), (example_vote 1 5, None)]"
  have key: "vote_key last32 (example_vote 2 0) = vote_key last32 (example_vote 1 0)"
    "vote_key last32 (example_vote 1 5) = vote_key last32 (example_vote 1 0)"
    by (simp_all add: vote_key_def example_vote_def)
  have body: "encode_vote_body (example_vote 1 5) = encode_vote_body (example_vote 1 0)"
    "encode_vote_body (example_vote 2 0) \<noteq> encode_vote_body (example_vote 1 0)"
    by (simp_all add: encode_vote_body_def example_vote_def signed_message_inject)
  have rel: "fst (released last32 (toy_blst []) memory_store [] ?reqs) = [example_vote 1 0, example_vote 1 5]"
    using body
    by (simp add: sign_vote_logged_def check_no_double_sign_def logged_vote_body_def log_vote_def key
        apply_batch_def memory_store_def)
  then obtain s' where "released last32 (toy_blst []) memory_store [] ?reqs = ([example_vote 1 0, example_vote 1 5], s')"
    by (metis prod.collapse)
  from wal_no_double_sign [OF this, of "example_vote 1 0" "example_vote 1 5"] rel show ?thesis
    by (simp add: vote_slot_def example_vote_def)
qed

text \<open>
  C23. Evidence is sound and complete. A submission is accepted exactly when both
  votes verify under their signer's key, fill the same slot and name different
  blocks, provided the hash separates the two vote bodies.
\<close>

theorem evidence_sound_complete:
  assumes "inj_on H {body_preimage (ev_a ev), body_preimage (ev_b ev)}"
  shows "submit_evidence H B ev = Ok ev \<longleftrightarrow>
    verify_signature B (ev_a ev) = Ok () \<and> verify_signature B (ev_b ev) = Ok () \<and>
    vote_slot (ev_a ev) = vote_slot (ev_b ev) \<and> vt_block (ev_a ev) \<noteq> vt_block (ev_b ev)"
proof -
  have "body_key H (ev_a ev) \<noteq> body_key H (ev_b ev) \<longleftrightarrow> vt_block (ev_a ev) \<noteq> vt_block (ev_b ev)"
    if "vote_slot (ev_a ev) = vote_slot (ev_b ev)"
    using inj_on_eq_iff [OF assms, of "body_preimage (ev_a ev)" "body_preimage (ev_b ev)"]
      body_preimage_same_slot [OF that] by (simp add: body_key_alt)
  then show ?thesis by (auto simp: submit_evidence_Ok_iff)
qed

definition toy_double :: "u8 \<Rightarrow> Vote" where
  "toy_double x =
    \<lparr>vt_height = 1, vt_round = 0, vt_kind = Precommit, vt_block = VBlock (replicate 31 0 @ [x]),
     vt_signer = replicate 48 7,
     vt_signature = replicate 48 7 @ signed_message 1 0 Precommit (VBlock (replicate 31 0 @ [x]))\<rparr>"

theorem evidence_sound_complete_witness:
  "submit_evidence last32 (toy_blst [encode_vote_body (toy_double 1), encode_vote_body (toy_double 2)])
     \<lparr>ev_a = toy_double 1, ev_b = toy_double 2\<rparr> = Ok \<lparr>ev_a = toy_double 1, ev_b = toy_double 2\<rparr>"
proof -
  let ?B = "toy_blst [encode_vote_body (toy_double 1), encode_vote_body (toy_double 2)]"
  have last: "last32 (p @ replicate 31 0 @ [x]) = replicate 31 0 @ [x]" for p and x :: u8
    by (simp add: last32_def)
  have pre: "body_preimage (toy_double x) = (apply_domain VoteTag
      (replicate 48 7 @ u64_be 1 @ u32_be 0 @ [1, 1])) @ replicate 31 0 @ [x]" for x
    by (simp add: body_preimage_def toy_double_def apply_domain_def)
  have inj: "inj_on last32 {body_preimage (ev_a \<lparr>ev_a = toy_double 1, ev_b = toy_double 2\<rparr>),
      body_preimage (ev_b \<lparr>ev_a = toy_double 1, ev_b = toy_double 2\<rparr>)}"
    by (simp only: Evidence.simps pre inj_on_def) (simp add: last)
  have "verify_signature ?B (toy_double 1) = Ok ()" "verify_signature ?B (toy_double 2) = Ok ()"
    by (simp_all add: verify_signature_def toy_blst_def bls_verify_def encode_vote_body_def)
      (simp_all add: toy_double_def)
  then show ?thesis
    using evidence_sound_complete [OF inj, of ?B] by (simp add: toy_double_def vote_slot_def)
qed

end
