(* ===== verification/Storage_Codec.thy ===== *)
theory Storage_Codec
  imports Types_Block
begin

text \<open>
  Stored encodings (\<open>crates/storage/src/codec.rs\<close>): the keys of the tables,
  headers rebuilt from their hash preimage, signed transactions, block bodies
  and transaction locators. The formats are canonical: a decoder accepts
  exactly the encodings of well-formed values.
\<close>

section \<open>Definitions\<close>

definition PREFIX_HEADER_HEIGHT :: bytes where "PREFIX_HEADER_HEIGHT = ascii ''h/''"
definition PREFIX_HEADER_HASH :: bytes where "PREFIX_HEADER_HASH = ascii ''H/''"
definition PREFIX_BLOCK :: bytes where "PREFIX_BLOCK = ascii ''b/''"
definition PREFIX_TX :: bytes where "PREFIX_TX = ascii ''t/''"
definition PREFIX_RECEIPT :: bytes where "PREFIX_RECEIPT = ascii ''r/''"
definition PREFIX_APP :: bytes where "PREFIX_APP = ascii ''a/''"
definition KEY_TIP :: bytes where "KEY_TIP = ascii ''m/tip''"
definition KEY_GENESIS :: bytes where "KEY_GENESIS = ascii ''m/genesis''"
definition KEY_WAL :: bytes where "KEY_WAL = ascii ''w/exec''"

lemmas key_defs = PREFIX_HEADER_HEIGHT_def PREFIX_HEADER_HASH_def PREFIX_BLOCK_def PREFIX_TX_def
  PREFIX_RECEIPT_def PREFIX_APP_def KEY_TIP_def KEY_GENESIS_def KEY_WAL_def

definition header_height_key :: "Height \<Rightarrow> bytes" where
  "header_height_key h = PREFIX_HEADER_HEIGHT @ u64_be h"

definition header_hash_key :: "Hash \<Rightarrow> bytes" where
  "header_hash_key h = PREFIX_HEADER_HASH @ h"

definition block_key :: "Height \<Rightarrow> bytes" where
  "block_key h = PREFIX_BLOCK @ u64_be h"

definition tx_index_key :: "Hash \<Rightarrow> bytes" where
  "tx_index_key h = PREFIX_TX @ h"

definition receipt_key :: "Hash \<Rightarrow> bytes" where
  "receipt_key h = PREFIX_RECEIPT @ h"

definition app_hash_key :: "Height \<Rightarrow> bytes" where
  "app_hash_key h = PREFIX_APP @ u64_be h"

lemmas table_key_defs = header_height_key_def header_hash_key_def block_key_def tx_index_key_def
  receipt_key_def app_hash_key_def

definition tx_hash :: "(bytes \<Rightarrow> Hash) \<Rightarrow> Tx \<Rightarrow> Hash" where
  "tx_hash H t = blake3_array H (tx_bytes t)"

definition HEADER_PREIMAGE_LEN :: nat where
  "HEADER_PREIMAGE_LEN = 8 + 4 + 48 + 8 + 32 * 5"

definition header_from_preimage :: "bytes \<Rightarrow> (Header, TypesError) result" where
  "header_from_preimage p =
    (if length p \<noteq> HEADER_PREIMAGE_LEN then Err (BadLength HEADER_PREIMAGE_LEN (length p))
     else Ok
       \<lparr>hd_fields =
          \<lparr>hf_height = u64_from_be (slice 0 8 p), hf_round = u32_from_be (slice 8 12 p),
           hf_proposer = slice 12 60 p, hf_timestamp_ms = u64_from_be (slice 60 68 p)\<rparr>,
        hd_tx_root = slice 68 100 p, hd_state_root = slice 100 132 p,
        hd_receipts_root = slice 132 164 p, hd_validators_hash = slice 164 196 p,
        hd_da_root = slice 196 228 p\<rparr>)"

definition encode_signed_tx :: "SignedTx \<Rightarrow> bytes" where
  "encode_signed_tx s =
    (let t = tx_bytes (st_tx s) in
     canonical_encode (u32_be (of_nat (length t)) @ t @ st_signature s @ st_public_key s))"

definition decode_signed_tx :: "bytes \<Rightarrow> (SignedTx, TypesError) result" where
  "decode_signed_tx buf =
    and_then (canonical_decode buf) (\<lambda>p.
      if length p < 4 + 64 + 32 then Err (BadLength 100 (length p))
      else let tlen = unat (u32_from_be (slice 0 4 p));
               need = 4 + tlen + 64 + 32
           in if length p \<noteq> need then Err (BadLength need (length p))
              else and_then (tx_decode (slice 4 (4 + tlen) p)) (\<lambda>t.
                Ok \<lparr>st_tx = t,
                    st_signature = slice (4 + tlen) (4 + tlen + 64) p,
                    st_public_key = slice (4 + tlen + 64) need p\<rparr>))"

definition signed_tx_entry :: "SignedTx \<Rightarrow> bytes" where
  "signed_tx_entry s =
    (let e = encode_signed_tx s in u32_be (of_nat (length e)) @ e)"

definition encode_block_body :: "Block \<Rightarrow> bytes" where
  "encode_block_body b =
    (let f = bk_header_fields b in
     canonical_encode
       (u64_be (hf_height f) @ u32_be (hf_round f) @ hf_proposer f @ u64_be (hf_timestamp_ms f) @
        u32_be (of_nat (length (bk_txs b))) @ concat (map signed_tx_entry (bk_txs b))))"

text \<open>The loop over the \<open>n\<close> length-prefixed transactions from index \<open>i\<close>.\<close>

fun decode_txs :: "bytes \<Rightarrow> nat \<Rightarrow> nat \<Rightarrow> (SignedTx list \<times> nat, TypesError) result" where
  "decode_txs p 0 i = Ok ([], i)"
| "decode_txs p (Suc n) i =
    (if i + 4 > length p then Err CodecTruncated
     else let elen = unat (u32_from_be (slice i (i + 4) p)); i' = i + 4
          in if i' + elen > length p then Err CodecTruncated
             else and_then (decode_signed_tx (slice i' (i' + elen) p)) (\<lambda>s.
                  and_then (decode_txs p n (i' + elen)) (\<lambda>(rest, j). Ok (s # rest, j))))"

definition decode_block_body :: "bytes \<Rightarrow> (Block, TypesError) result" where
  "decode_block_body buf =
    and_then (canonical_decode buf) (\<lambda>p.
      if length p < 8 + 4 + 48 + 8 + 4 then Err (BadLength 72 (length p))
      else let n = unat (u32_from_be (slice 68 72 p))
           in and_then (decode_txs p n 72) (\<lambda>(txs, i).
              if i \<noteq> length p then Err (CodecLength i (length p))
              else Ok \<lparr>bk_header_fields =
                         \<lparr>hf_height = u64_from_be (slice 0 8 p), hf_round = u32_from_be (slice 8 12 p),
                          hf_proposer = slice 12 60 p, hf_timestamp_ms = u64_from_be (slice 60 68 p)\<rparr>,
                       bk_txs = txs\<rparr>))"

definition encode_tx_locator :: "Height \<Rightarrow> u32 \<Rightarrow> bytes" where
  "encode_tx_locator height index = u64_be height @ u32_be index"

definition decode_tx_locator :: "bytes \<Rightarrow> (Height \<times> u32, TypesError) result" where
  "decode_tx_locator buf =
    (if length buf \<noteq> 12 then Err (BadLength 12 (length buf))
     else Ok (u64_from_be (slice 0 8 buf), u32_from_be (slice 8 12 buf)))"

text \<open>The values the Rust types allow, within the 32-bit length prefixes.\<close>

definition wf_signed :: "SignedTx \<Rightarrow> bool" where
  "wf_signed s = (wf_tx (st_tx s) \<and> length (st_signature s) = 64 \<and>
     length (st_public_key s) = 32 \<and> length (tx_bytes (st_tx s)) + 100 < 2 ^ 32)"

definition wf_body :: "Block \<Rightarrow> bool" where
  "wf_body b = (length (hf_proposer (bk_header_fields b)) = 48 \<and> list_all wf_signed (bk_txs b) \<and>
     length (bk_txs b) < 2 ^ 32 \<and>
     length (concat (map signed_tx_entry (bk_txs b))) + 72 < 2 ^ 32)"

section \<open>The formats are canonical\<close>

lemma header_from_preimage_OkD:
  assumes "header_from_preimage p = Ok h"
  shows "wf_header h \<and> header_preimage h = p"
proof -
  have len: "length p = 228"
    using assms by (auto simp: header_from_preimage_def HEADER_PREIMAGE_LEN_def split: if_splits)
  have "slice 0 8 p @ slice 8 12 p @ slice 12 60 p @ slice 60 68 p @ slice 68 100 p @
      slice 100 132 p @ slice 132 164 p @ slice 164 196 p @ slice 196 228 p = p"
    using len slice_end [of p 228 196] by (simp add: slice_append_drop)
  then show ?thesis
    using assms len
    by (simp add: header_from_preimage_def HEADER_PREIMAGE_LEN_def wf_header_def
        header_preimage_def u_be_from_be) (auto simp: u_be_from_be)
qed

lemma header_from_preimage_preimage:
  "wf_header h \<Longrightarrow> header_from_preimage (header_preimage h) = Ok h"
  by (simp add: header_from_preimage_def HEADER_PREIMAGE_LEN_def length_header_preimage)
    (simp add: header_preimage_def wf_header_def slice_def)

interpretation header_format: canonical header_preimage header_from_preimage wf_header
  by unfold_locales (simp_all add: header_from_preimage_preimage header_from_preimage_OkD)

lemma length_encode_signed_tx:
  "wf_signed s \<Longrightarrow> length (encode_signed_tx s) = 105 + length (tx_bytes (st_tx s))"
  by (simp add: encode_signed_tx_def Let_def length_canonical_encode wf_signed_def)

lemma decode_signed_tx_encode:
  assumes "wf_signed s"
  shows "decode_signed_tx (encode_signed_tx s) = Ok s"
proof -
  let ?t = "tx_bytes (st_tx s)"
  let ?p = "u32_be (of_nat (length ?t)) @ ?t @ st_signature s @ st_public_key s"
  have "canonical_decode (canonical_encode ?p) = Ok ?p"
    using assms by (intro canonical_decode_encode) (simp add: wf_signed_def)
  moreover have "unat (u32_from_be (slice 0 4 ?p)) = length ?t"
    using assms by (simp add: wf_signed_def slice_def unat_of_nat)
  ultimately show ?thesis
    using assms tx_decode_bytes [of "st_tx s"]
    by (simp add: decode_signed_tx_def encode_signed_tx_def Let_def slice_def wf_signed_def)
qed

lemma decode_signed_tx_OkD:
  assumes "decode_signed_tx b = Ok s"
  shows "wf_signed s \<and> encode_signed_tx s = b"
proof -
  from assms obtain p where p: "canonical_decode b = Ok p"
    unfolding decode_signed_tx_def by (cases "canonical_decode b") simp_all
  define n where "n = unat (u32_from_be (slice 0 4 p))"
  have ok: "(if length p < 100 then Err (BadLength 100 (length p))
      else if length p \<noteq> 4 + n + 64 + 32 then Err (BadLength (4 + n + 64 + 32) (length p))
      else and_then (tx_decode (slice 4 (4 + n) p)) (\<lambda>t.
        Ok \<lparr>st_tx = t, st_signature = slice (4 + n) (4 + n + 64) p,
            st_public_key = slice (4 + n + 64) (4 + n + 64 + 32) p\<rparr>)) = Ok s"
    using assms unfolding decode_signed_tx_def p and_then.simps Let_def n_def by simp
  then have len: "length p = 4 + n + 64 + 32"
    by (rule contrapos_pp) simp
  from ok obtain t where t: "tx_decode (slice 4 (4 + n) p) = Ok t"
    and s: "s = \<lparr>st_tx = t, st_signature = slice (4 + n) (4 + n + 64) p,
      st_public_key = slice (4 + n + 64) (4 + n + 64 + 32) p\<rparr>"
    by (cases "tx_decode (slice 4 (4 + n) p)") (simp_all add: len)
  have lt: "length p < 2 ^ 32" and b: "canonical_encode p = b"
    using canonical_decode_OkD [OF p] by simp_all
  have tx: "wf_tx t" "tx_bytes t = slice 4 (4 + n) p"
    using tx_decode_OkD [OF t] by simp_all
  have split: "slice 0 4 p @ slice 4 (4 + n) p @ slice (4 + n) (4 + n + 64) p @
      slice (4 + n + 64) (4 + n + 64 + 32) p = p"
    using slice_end [of p "4 + n + 64 + 32" "4 + n + 64"] len
    by (simp add: slice_append_drop)
  have "length (slice 0 4 p) = 4" using len by simp
  then have "u32_be (of_nat n) = slice 0 4 p" by (simp add: n_def u_be_from_be)
  moreover have "length (tx_bytes t) = n"
    using len by (simp add: tx)
  ultimately have "encode_signed_tx s = b"
    unfolding b [symmetric] by (simp only: encode_signed_tx_def Let_def s SignedTx.simps tx split)
  then show ?thesis
    using tx len lt by (simp add: s wf_signed_def)
qed

interpretation signed_tx_format: canonical encode_signed_tx decode_signed_tx wf_signed
  by unfold_locales (simp_all add: decode_signed_tx_encode decode_signed_tx_OkD)


lemma decode_tx_locator_encode: "decode_tx_locator (encode_tx_locator h i) = Ok (h, i)"
  by (simp add: decode_tx_locator_def encode_tx_locator_def slice_def)

lemma decode_txs_entries:
  assumes "i \<le> length p" "drop i p = concat (map signed_tx_entry txs) @ r"
    and "list_all wf_signed txs" "length (concat (map signed_tx_entry txs)) < 2 ^ 32"
  shows "decode_txs p (length txs) i = Ok (txs, i + length (concat (map signed_tx_entry txs)))"
  using assms
proof (induction txs arbitrary: i)
  case (Cons s txs)
  let ?e = "encode_signed_tx s"
  have e: "length ?e < 2 ^ 32" using Cons.prems(4) by (simp add: signed_tx_entry_def [of s] Let_def)
  have d: "drop i p = u32_be (of_nat (length ?e)) @ ?e @ concat (map signed_tx_entry txs) @ r"
    using Cons.prems(2) by (simp add: signed_tx_entry_def [of s] Let_def)
  have len: "length p = i + 4 + length ?e + length (concat (map signed_tx_entry txs)) + length r"
    using arg_cong [OF d, of length] Cons.prems(1) by simp
  have n: "unat (u32_from_be (slice i (i + 4) p)) = length ?e"
    using e by (simp add: slice_def d unat_of_nat)
  have "drop (4 + i) p = ?e @ concat (map signed_tx_entry txs) @ r"
    using arg_cong [OF d, of "drop 4"] by (simp add: add.commute)
  then have s: "slice (i + 4) (i + 4 + length ?e) p = ?e"
    and rest: "drop (i + 4 + length ?e) p = concat (map signed_tx_entry txs) @ r"
    by (simp_all add: slice_def add.commute drop_drop [symmetric] del: drop_drop)
  have IH: "decode_txs p (length txs) (i + 4 + length ?e) =
      Ok (txs, i + 4 + length ?e + length (concat (map signed_tx_entry txs)))"
    using Cons.prems len by (intro Cons.IH rest) simp_all
  show ?case
    using Cons.prems(3) len IH
    by (simp add: n s Let_def decode_signed_tx_encode signed_tx_entry_def [of s])
qed simp

lemma decode_txs_OkD:
  assumes "decode_txs p n i = Ok (txs, j)" "i \<le> length p"
  shows "length txs = n \<and> list_all wf_signed txs \<and> i \<le> j \<and> j \<le> length p \<and>
    slice i j p = concat (map signed_tx_entry txs)"
  using assms
proof (induction n arbitrary: i txs)
  case (Suc n)
  define l where "l = unat (u32_from_be (slice i (i + 4) p))"
  from Suc.prems(1) have len: "i + 4 + l \<le> length p"
    by (simp add: Let_def l_def [symmetric] split: if_splits)
  with Suc.prems(1) obtain s rest where s: "decode_signed_tx (slice (i + 4) (i + 4 + l) p) = Ok s"
    and rest: "decode_txs p n (i + 4 + l) = Ok (rest, j)" and txs: "txs = s # rest"
    by (auto simp: Let_def l_def [symmetric] result_simps)
  have e: "wf_signed s" "encode_signed_tx s = slice (i + 4) (i + 4 + l) p"
    using decode_signed_tx_OkD [OF s] by simp_all
  have IH: "length rest = n" "list_all wf_signed rest" "i + 4 + l \<le> j" "j \<le> length p"
    "slice (i + 4 + l) j p = concat (map signed_tx_entry rest)"
    using Suc.IH [OF rest len] by simp_all
  have "length (slice i (i + 4) p) = 4" using len by simp
  then have "u32_be (of_nat l) = slice i (i + 4) p" by (simp add: l_def u_be_from_be)
  moreover have "length (encode_signed_tx s) = l" using len by (simp add: e)
  ultimately have "signed_tx_entry s = slice i (i + 4) p @ slice (i + 4) (i + 4 + l) p"
    by (simp add: signed_tx_entry_def e Let_def)
  moreover have "slice i j p = slice i (i + 4) p @ slice (i + 4) (i + 4 + l) p @ slice (i + 4 + l) j p"
    using IH(3) by (simp add: slice_join)
  ultimately show ?case
    using e IH by (simp add: txs)
qed (simp add: slice_def)

lemma decode_block_body_encode:
  assumes "wf_body b"
  shows "decode_block_body (encode_block_body b) = Ok b"
proof -
  let ?f = "bk_header_fields b"
  let ?es = "concat (map signed_tx_entry (bk_txs b))"
  let ?p = "u64_be (hf_height ?f) @ u32_be (hf_round ?f) @ hf_proposer ?f @ u64_be (hf_timestamp_ms ?f) @
    u32_be (of_nat (length (bk_txs b))) @ ?es"
  have len: "length (hf_proposer ?f) = 48" "length ?es + 72 < 2 ^ 32" "length (bk_txs b) < 2 ^ 32"
    using assms by (simp_all add: wf_body_def)
  have p: "canonical_decode (encode_block_body b) = Ok ?p"
    using len unfolding encode_block_body_def Let_def by (intro canonical_decode_encode) simp
  have n: "unat (u32_from_be (slice 68 72 ?p)) = length (bk_txs b)"
    using len by (simp add: slice_def unat_of_nat)
  have "decode_txs ?p (length (bk_txs b)) 72 = Ok (bk_txs b, 72 + length ?es)"
    using assms len by (intro decode_txs_entries [where r = "[]"]) (simp_all add: wf_body_def)
  then show ?thesis
    using len unfolding decode_block_body_def p and_then.simps n Let_def
    by (simp add: slice_def)
qed

lemma decode_block_body_OkD:
  assumes "decode_block_body buf = Ok b"
  shows "wf_body b \<and> encode_block_body b = buf"
proof -
  from assms obtain p where p: "canonical_decode buf = Ok p"
    unfolding decode_block_body_def by (cases "canonical_decode buf") simp_all
  define n where "n = unat (u32_from_be (slice 68 72 p))"
  have "72 \<le> length p"
    using assms by (rule contrapos_pp) (simp add: decode_block_body_def p)
  with assms obtain txs where txs: "decode_txs p n 72 = Ok (txs, length p)"
    and b: "b = \<lparr>bk_header_fields =
      \<lparr>hf_height = u64_from_be (slice 0 8 p), hf_round = u32_from_be (slice 8 12 p),
       hf_proposer = slice 12 60 p, hf_timestamp_ms = u64_from_be (slice 60 68 p)\<rparr>, bk_txs = txs\<rparr>"
    by (auto simp: decode_block_body_def p Let_def n_def [symmetric] result_simps split: if_splits)
  have lt: "length p < 2 ^ 32" and buf: "canonical_encode p = buf"
    using canonical_decode_OkD [OF p] by simp_all
  have D: "length txs = n" "list_all wf_signed txs" "drop 72 p = concat (map signed_tx_entry txs)"
    using decode_txs_OkD [OF txs \<open>72 \<le> length p\<close>] by (simp_all add: slice_end)
  have "length (slice 68 72 p) = 4" using \<open>72 \<le> length p\<close> by simp
  then have n: "u32_be (of_nat n) = slice 68 72 p" by (simp add: n_def u_be_from_be)
  have "slice 0 8 p @ slice 8 12 p @ slice 12 60 p @ slice 60 68 p @ slice 68 72 p @ drop 72 p = p"
    by (simp add: slice_append_drop)
  then have "encode_block_body b = buf"
    using \<open>72 \<le> length p\<close>
    by (simp add: encode_block_body_def b D(1) n D(3) [symmetric] u_be_from_be buf)
  moreover have "n < 2 ^ 32"
    using unat_lt_pow [of "u32_from_be (slice 68 72 p)"] by (simp add: n_def)
  moreover have "length (concat (map signed_tx_entry txs)) + 72 = length p"
    using \<open>72 \<le> length p\<close> by (simp add: D(3) [symmetric] del: length_concat)
  moreover have "length (slice 12 60 p) = 48" using \<open>72 \<le> length p\<close> by simp
  ultimately show ?thesis
    using D(1,2) lt by (simp add: wf_body_def b)
qed

interpretation body_format: canonical encode_block_body decode_block_body wf_body
  by unfold_locales (simp_all add: decode_block_body_encode decode_block_body_OkD)

end
