(* ===== verification/Storage_Blocks.thy ===== *)
theory Storage_Blocks
  imports Storage_Kv Storage_Codec
begin

text \<open>
  The chain database (\<open>blocks.rs\<close>, \<open>index.rs\<close>, \<open>prune.rs\<close>, \<open>snapshot.rs\<close> of
  \<open>crates/storage\<close>): headers, bodies, indexes and application hashes written in
  one batch, their readers, pruning and snapshots. The operations are written
  over any store. The lemmas show what is read back after a block is stored.
\<close>

section \<open>Blocks and indexes\<close>

definition put_header_ops :: "(bytes \<Rightarrow> Hash) \<Rightarrow> Header \<Rightarrow> BatchOp list" where
  "put_header_ops H header =
    (let height = hf_height (hd_fields header) in
     [Put (header_height_key height) (header_preimage header),
      Put (header_hash_key (header_hash H header)) (u64_be height)])"

definition put_header ::
  "(bytes \<Rightarrow> Hash) \<Rightarrow> 's StoreOps \<Rightarrow> 's \<Rightarrow> Header \<Rightarrow> (unit, TypesError) result \<times> 's" where
  "put_header H S s header = apply_batch S s (put_header_ops H header)"

definition get_header :: "'s StoreOps \<Rightarrow> 's \<Rightarrow> Height \<Rightarrow> (Header option, TypesError) result" where
  "get_header S s height =
    and_then (so_get S s (header_height_key height)) (\<lambda>v.
      case v of
        None \<Rightarrow> Ok None
      | Some b \<Rightarrow> and_then (header_from_preimage b) (\<lambda>h. Ok (Some h)))"

definition height_by_header_hash ::
  "'s StoreOps \<Rightarrow> 's \<Rightarrow> Hash \<Rightarrow> (Height option, TypesError) result" where
  "height_by_header_hash S s hash =
    and_then (so_get S s (header_hash_key hash)) (\<lambda>v.
      case v of
        None \<Rightarrow> Ok None
      | Some b \<Rightarrow> if length b = 8 then Ok (Some (u64_from_be b))
                  else Err (Kv ''corrupt header-hash index''))"

definition tx_index_ops :: "(bytes \<Rightarrow> Hash) \<Rightarrow> Height \<Rightarrow> Block \<Rightarrow> BatchOp list" where
  "tx_index_ops H height block =
    map (\<lambda>(i, signed). Put (tx_index_key (tx_hash H (st_tx signed)))
                            (encode_tx_locator height (of_nat i)))
      (enumerate 0 (bk_txs block))"

definition receipt_put_ops :: "(bytes \<Rightarrow> Hash) \<Rightarrow> Block \<Rightarrow> bytes list \<Rightarrow> BatchOp list" where
  "receipt_put_ops H block encoded =
    map (\<lambda>(signed, r). Put (receipt_key (tx_hash H (st_tx signed))) r) (zip (bk_txs block) encoded)"

definition put_block_ops ::
  "(bytes \<Rightarrow> Hash) \<Rightarrow> Header \<Rightarrow> Block \<Rightarrow> bytes list \<Rightarrow> Hash \<Rightarrow> BatchOp list" where
  "put_block_ops H header block receipts app =
    (let height = hf_height (hd_fields header) in
     put_header_ops H header @
     [Put (block_key height) (encode_block_body block)] @
     tx_index_ops H height block @
     receipt_put_ops H block receipts @
     [Put (app_hash_key height) app] @
     [Put KEY_TIP (u64_be height)])"

definition put_block ::
  "(bytes \<Rightarrow> Hash) \<Rightarrow> 's StoreOps \<Rightarrow> 's \<Rightarrow> Header \<Rightarrow> Block \<Rightarrow> bytes list \<Rightarrow> Hash
    \<Rightarrow> (unit, TypesError) result \<times> 's" where
  "put_block H S s header block receipts app =
    apply_batch S s (put_block_ops H header block receipts app)"

definition get_block :: "'s StoreOps \<Rightarrow> 's \<Rightarrow> Height \<Rightarrow> (Block option, TypesError) result" where
  "get_block S s height =
    and_then (so_get S s (block_key height)) (\<lambda>v.
      case v of
        None \<Rightarrow> Ok None
      | Some b \<Rightarrow> and_then (decode_block_body b) (\<lambda>x. Ok (Some x)))"

definition get_app_hash :: "'s StoreOps \<Rightarrow> 's \<Rightarrow> Height \<Rightarrow> (Hash option, TypesError) result" where
  "get_app_hash S s height =
    and_then (so_get S s (app_hash_key height)) (\<lambda>v.
      case v of
        None \<Rightarrow> Ok None
      | Some b \<Rightarrow> if length b = 32 then Ok (Some b) else Err (Kv ''corrupt app_hash''))"

definition tip :: "'s StoreOps \<Rightarrow> 's \<Rightarrow> (Height option, TypesError) result" where
  "tip S s =
    and_then (so_get S s KEY_TIP) (\<lambda>v.
      case v of
        None \<Rightarrow> Ok None
      | Some b \<Rightarrow> if length b = 8 then Ok (Some (u64_from_be b)) else Err (Kv ''corrupt tip''))"

definition put_genesis_hash ::
  "(bytes \<Rightarrow> Hash) \<Rightarrow> 's StoreOps \<Rightarrow> 's \<Rightarrow> Genesis \<Rightarrow> (unit, TypesError) result \<times> 's" where
  "put_genesis_hash H S s genesis = apply_batch S s [Put KEY_GENESIS (genesis_hash H genesis)]"

definition get_genesis_hash :: "'s StoreOps \<Rightarrow> 's \<Rightarrow> (Hash option, TypesError) result" where
  "get_genesis_hash S s =
    and_then (so_get S s KEY_GENESIS) (\<lambda>v.
      case v of
        None \<Rightarrow> Ok None
      | Some b \<Rightarrow> if length b = 32 then Ok (Some b) else Err (Kv ''corrupt genesis hash''))"

definition get_tx_by_hash ::
  "(bytes \<Rightarrow> Hash) \<Rightarrow> 's StoreOps \<Rightarrow> 's \<Rightarrow> Hash
    \<Rightarrow> ((Height \<times> u32 \<times> SignedTx) option, TypesError) result" where
  "get_tx_by_hash H S s hash =
    and_then (so_get S s (tx_index_key hash)) (\<lambda>v.
      case v of
        None \<Rightarrow> Ok None
      | Some loc \<Rightarrow> and_then (decode_tx_locator loc) (\<lambda>(height, index).
          and_then (get_block S s height) (\<lambda>b.
            case b of
              None \<Rightarrow> Err (Kv ''tx index without block'')
            | Some block \<Rightarrow>
                if unat index < length (bk_txs block) then
                  (let signed = bk_txs block ! unat index in
                   if tx_hash H (st_tx signed) \<noteq> hash then Err (Kv ''tx hash mismatch'')
                   else Ok (Some (height, index, signed)))
                else Err (Kv ''tx index out of range''))))"

definition get_receipt :: "'s StoreOps \<Rightarrow> 's \<Rightarrow> Hash \<Rightarrow> (bytes option, TypesError) result" where
  "get_receipt S s hash = so_get S s (receipt_key hash)"

section \<open>Pruning and snapshots\<close>

record PruneConfig =
  pc_prune_cold :: bool
  pc_hot_window :: u64

definition prune_config_default :: PruneConfig where
  "prune_config_default = \<lparr>pc_prune_cold = False, pc_hot_window = 256\<rparr>"

fun prune_loop ::
  "'s StoreOps \<Rightarrow> 's \<Rightarrow> Height list \<Rightarrow> u64 \<Rightarrow> (u64, TypesError) result \<times> 's" where
  "prune_loop S s [] dropped = (Ok dropped, s)"
| "prune_loop S s (h # hs) dropped =
    (case so_get S s (block_key h) of
       Err e \<Rightarrow> (Err e, s)
     | Ok None \<Rightarrow> prune_loop S s hs dropped
     | Ok (Some _) \<Rightarrow>
         then_do (so_delete S s (block_key h)) (\<lambda>_ s. prune_loop S s hs (dropped + 1)))"

definition prune_cold_bodies ::
  "'s StoreOps \<Rightarrow> 's \<Rightarrow> PruneConfig \<Rightarrow> (u64, TypesError) result \<times> 's" where
  "prune_cold_bodies S s cfg =
    (if \<not> pc_prune_cold cfg then (Ok 0, s)
     else (case tip S s of
             Err e \<Rightarrow> (Err e, s)
           | Ok None \<Rightarrow> (Ok 0, s)
           | Ok (Some t) \<Rightarrow>
               if pc_hot_window cfg = 0 \<or> t < pc_hot_window cfg then (Ok 0, s)
               else let first_hot = t - pc_hot_window cfg + 1
                    in prune_loop S s (map of_nat [0..<unat first_hot]) 0))"

definition put_then_maybe_prune ::
  "(bytes \<Rightarrow> Hash) \<Rightarrow> 's StoreOps \<Rightarrow> 's \<Rightarrow> Header \<Rightarrow> Block \<Rightarrow> bytes list \<Rightarrow> Hash \<Rightarrow> PruneConfig
    \<Rightarrow> (u64, TypesError) result \<times> 's" where
  "put_then_maybe_prune H S s header block receipts app cfg =
    then_do (put_block H S s header block receipts app) (\<lambda>_ s. prune_cold_bodies S s cfg)"

definition has_body :: "'s StoreOps \<Rightarrow> 's \<Rightarrow> Height \<Rightarrow> (bool, TypesError) result" where
  "has_body S s height = and_then (get_block S s height) (\<lambda>b. Ok (b \<noteq> None))"

record StateSnapshot =
  sn_commit_root :: Hash
  sn_accounts :: "(Address \<times> bytes) list"

definition take_snapshot :: "Hash \<Rightarrow> (Address \<times> bytes) list \<Rightarrow> StateSnapshot" where
  "take_snapshot root accounts =
    \<lparr>sn_commit_root = root, sn_accounts = sort_key fst accounts\<rparr>"

definition restore_account_encodings :: "StateSnapshot \<Rightarrow> (Address \<times> bytes) list" where
  "restore_account_encodings snap = sn_accounts snap"

definition snapshot_matches_replay :: "StateSnapshot \<Rightarrow> Hash \<Rightarrow> bool" where
  "snapshot_matches_replay snap replayed = (sn_commit_root snap = replayed)"


section \<open>Reading back a stored block\<close>

lemma key_values:
  "PREFIX_HEADER_HEIGHT = [104, 47]" "PREFIX_HEADER_HASH = [72, 47]" "PREFIX_BLOCK = [98, 47]"
  "PREFIX_TX = [116, 47]" "PREFIX_RECEIPT = [114, 47]" "PREFIX_APP = [97, 47]"
  "KEY_TIP = [109, 47, 116, 105, 112]" "KEY_GENESIS = [109, 47, 103, 101, 110, 101, 115, 105, 115]"
  "KEY_WAL = [119, 47, 101, 120, 101, 99]"
  by code_simp+

lemmas keys = table_key_defs key_values

lemma op_keys_tx_index_ops:
  "map op_key (tx_index_ops H h b) = map (\<lambda>s. tx_index_key (tx_hash H (st_tx s))) (bk_txs b)"
  by (auto simp: tx_index_ops_def intro!: nth_equalityI simp: nth_enumerate_eq)

lemma op_keys_receipt_put_ops:
  "map op_key (receipt_put_ops H b rs) =
    map (\<lambda>s. receipt_key (tx_hash H (st_tx s))) (take (length rs) (bk_txs b))"
  by (auto simp: receipt_put_ops_def intro!: nth_equalityI)

lemma put_block_ops_members:
  "Put (header_height_key (hf_height (hd_fields hdr))) (header_preimage hdr) \<in> set (put_block_ops H hdr b rs app)"
  "Put (header_hash_key (header_hash H hdr)) (u64_be (hf_height (hd_fields hdr))) \<in> set (put_block_ops H hdr b rs app)"
  "Put (block_key (hf_height (hd_fields hdr))) (encode_block_body b) \<in> set (put_block_ops H hdr b rs app)"
  "Put (app_hash_key (hf_height (hd_fields hdr))) app \<in> set (put_block_ops H hdr b rs app)"
  "Put KEY_TIP (u64_be (hf_height (hd_fields hdr))) \<in> set (put_block_ops H hdr b rs app)"
  by (simp_all add: put_block_ops_def put_header_ops_def Let_def)

lemma ops_map_last: "k \<notin> op_key ` set ys \<Longrightarrow> ops_map m (xs @ Put k v # ys) k = Some v"
  by (simp add: ops_map_other)

text \<open>The keys of the operations for transactions, as sets.\<close>

lemma op_keys_ops:
  "op_key ` set (tx_index_ops H h b) = (\<lambda>s. tx_index_key (tx_hash H (st_tx s))) ` set (bk_txs b)"
  "op_key ` set (receipt_put_ops H b rs) =
    (\<lambda>s. receipt_key (tx_hash H (st_tx s))) ` set (take (length rs) (bk_txs b))"
  using arg_cong [OF op_keys_tx_index_ops [of H h b], of set] arg_cong [OF op_keys_receipt_put_ops [of H b rs], of set]
  by simp_all

lemma put_block_ops_fixed:
  fixes m H hdr b rs app
  defines "m' \<equiv> ops_map m (put_block_ops H hdr b rs app)" and "h \<equiv> hf_height (hd_fields hdr)"
  shows "m' (header_height_key h) = Some (header_preimage hdr)"
    "m' (header_hash_key (header_hash H hdr)) = Some (u64_be h)"
    "m' (block_key h) = Some (encode_block_body b)" "m' (app_hash_key h) = Some app" "m' KEY_TIP = Some (u64_be h)"
proof -
  have tx: "k \<notin> op_key ` set (tx_index_ops H h b)" if "\<And>x. k \<noteq> tx_index_key x" for k
    unfolding op_keys_ops using that by blast
  have rc: "k \<notin> op_key ` set (receipt_put_ops H b rs)" if "\<And>x. k \<noteq> receipt_key x" for k
    unfolding op_keys_ops using that by blast
  have skip: "ops_map n (tx_index_ops H h b @ receipt_put_ops H b rs) k = n k"
    if "\<And>x. k \<noteq> tx_index_key x" "\<And>x. k \<noteq> receipt_key x" for n k
    using ops_map_other [OF tx [OF that(1)]] ops_map_other [OF rc [OF that(2)]] by simp
  have m': "m' = ops_map (ops_map (ops_map m (put_header_ops H hdr @ [Put (block_key h) (encode_block_body b)]))
      (tx_index_ops H h b @ receipt_put_ops H b rs)) [Put (app_hash_key h) app, Put KEY_TIP (u64_be h)]"
    by (simp add: m'_def h_def put_block_ops_def Let_def)
  note d = m' put_header_ops_def Let_def h_def [symmetric]
  show "m' (header_height_key h) = Some (header_preimage hdr)"
    "m' (header_hash_key (header_hash H hdr)) = Some (u64_be h)" "m' (block_key h) = Some (encode_block_body b)"
    by (simp_all add: d skip keys del: ops_map_simps(3))
  show "m' (app_hash_key h) = Some app" "m' KEY_TIP = Some (u64_be h)"
    by (simp_all add: d keys del: ops_map_simps(3))
qed

text \<open>The entries of a transaction are those of its last occurrence in the block.\<close>

lemma put_block_ops_tx:
  assumes i: "i < length (bk_txs b)"
    and lst: "tx_hash H (st_tx (bk_txs b ! i)) \<notin> (\<lambda>s. tx_hash H (st_tx s)) ` set (drop (Suc i) (bk_txs b))"
  shows "ops_map m (put_block_ops H hdr b rs app) (tx_index_key (tx_hash H (st_tx (bk_txs b ! i)))) =
      Some (encode_tx_locator (hf_height (hd_fields hdr)) (of_nat i))"
    and "length rs = length (bk_txs b) \<Longrightarrow>
      ops_map m (put_block_ops H hdr b rs app) (receipt_key (tx_hash H (st_tx (bk_txs b ! i)))) = Some (rs ! i)"
proof -
  let ?h = "hf_height (hd_fields hdr)" and ?x = "tx_hash H (st_tx (bk_txs b ! i))"
  let ?tx = "tx_index_ops H ?h b" and ?rc = "receipt_put_ops H b rs"
  have tail: "op_key ` set [Put (app_hash_key ?h) app, Put KEY_TIP (u64_be ?h)] = {app_hash_key ?h, KEY_TIP}" by simp
  have ops: "put_block_ops H hdr b rs app = (put_header_ops H hdr @ [Put (block_key ?h) (encode_block_body b)]) @ ?tx @ ?rc @
      [Put (app_hash_key ?h) app, Put KEY_TIP (u64_be ?h)]" by (simp add: put_block_ops_def Let_def)
  have tx: "?tx = take i ?tx @ Put (tx_index_key ?x) (encode_tx_locator ?h (of_nat i)) # drop (Suc i) ?tx"
    using id_take_nth_drop [of i ?tx] i by (simp add: tx_index_ops_def nth_enumerate_eq)
  have later: "op_key ` set (drop (Suc i) ?tx) = (\<lambda>s. tx_index_key (tx_hash H (st_tx s))) ` set (drop (Suc i) (bk_txs b))"
    using arg_cong [OF op_keys_tx_index_ops [of H ?h b], of "\<lambda>l. set (drop (Suc i) l)"] by (simp add: drop_map)
  have "tx_index_key ?x \<notin> op_key ` set (drop (Suc i) ?tx @ ?rc @ [Put (app_hash_key ?h) app, Put KEY_TIP (u64_be ?h)])"
    unfolding set_append image_Un tail op_keys_ops later using lst by (auto simp: keys)
  from ops_map_last [OF this, of m "(put_header_ops H hdr @ [Put (block_key ?h) (encode_block_body b)]) @ take i ?tx"]
  show "ops_map m (put_block_ops H hdr b rs app) (tx_index_key ?x) = Some (encode_tx_locator ?h (of_nat i))"
    unfolding ops by (subst tx) (simp del: ops_map_simps)
  assume rs: "length rs = length (bk_txs b)"
  have rc: "?rc = take i ?rc @ Put (receipt_key ?x) (rs ! i) # drop (Suc i) ?rc"
    using id_take_nth_drop [of i ?rc] i rs by (simp add: receipt_put_ops_def)
  have later: "op_key ` set (drop (Suc i) ?rc) = (\<lambda>s. receipt_key (tx_hash H (st_tx s))) ` set (drop (Suc i) (bk_txs b))"
    using arg_cong [OF op_keys_receipt_put_ops [of H b rs], of "\<lambda>l. set (drop (Suc i) l)"] rs by (simp add: drop_map)
  have "receipt_key ?x \<notin> op_key ` set (drop (Suc i) ?rc @ [Put (app_hash_key ?h) app, Put KEY_TIP (u64_be ?h)])"
    unfolding set_append image_Un tail later using lst by (auto simp: keys)
  from ops_map_last [OF this, of m "(put_header_ops H hdr @ [Put (block_key ?h) (encode_block_body b)]) @ ?tx @ take i ?rc"]
  show "ops_map m (put_block_ops H hdr b rs app) (receipt_key ?x) = Some (rs ! i)"
    unfolding ops by (subst rc) (simp del: ops_map_simps)
qed

context reliable_store
begin

lemma put_block_contents:
  obtains s' where "put_block H S s hdr b rs app = (Ok (), s')"
    "contents s' = ops_map (contents s) (put_block_ops H hdr b rs app)"
  unfolding put_block_def by (rule batch)

lemma put_block_reads:
  assumes hdr: "wf_header hdr" and b: "wf_body b" and app: "length app = 32"
    and rs: "length rs = length (bk_txs b)"
    and put: "put_block H S s hdr b rs app = (Ok (), s')"
  defines "h \<equiv> hf_height (hd_fields hdr)"
  shows "get_header S s' h = Ok (Some hdr) \<and> get_block S s' h = Ok (Some b) \<and>
    get_app_hash S s' h = Ok (Some app) \<and> tip S s' = Ok (Some h) \<and>
    height_by_header_hash S s' (header_hash H hdr) = Ok (Some h) \<and>
    (\<forall>i<length (bk_txs b). let t = bk_txs b ! i in
       tx_hash H (st_tx t) \<notin> (\<lambda>s. tx_hash H (st_tx s)) ` set (drop (Suc i) (bk_txs b)) \<longrightarrow>
       get_tx_by_hash H S s' (tx_hash H (st_tx t)) = Ok (Some (h, of_nat i, t)) \<and>
       get_receipt S s' (tx_hash H (st_tx t)) = Ok (Some (rs ! i)))"
proof -
  have c: "contents s' = ops_map (contents s) (put_block_ops H hdr b rs app)"
    using put put_block_contents [of H s hdr b rs app] by auto
  note reads = put_block_ops_fixed [of "contents s" H hdr b rs app, folded c h_def]
  have blk: "get_block S s' h = Ok (Some b)"
    using reads(3) b by (simp add: get_block_def get_ok decode_block_body_encode)
  have "get_tx_by_hash H S s' (tx_hash H (st_tx (bk_txs b ! i))) = Ok (Some (h, of_nat i, bk_txs b ! i)) \<and>
      get_receipt S s' (tx_hash H (st_tx (bk_txs b ! i))) = Ok (Some (rs ! i))"
    if i: "i < length (bk_txs b)"
      and lst: "tx_hash H (st_tx (bk_txs b ! i)) \<notin> (\<lambda>s. tx_hash H (st_tx s)) ` set (drop (Suc i) (bk_txs b))" for i
  proof -
    have "unat (of_nat i :: u32) = i"
      using i b by (simp add: wf_body_def unat_of_nat)
    then show ?thesis
      using put_block_ops_tx [OF i lst, where m = "contents s" and hdr = hdr and rs = rs and app = app, folded c h_def] rs i blk
      by (simp add: get_tx_by_hash_def get_receipt_def get_ok decode_tx_locator_encode)
  qed
  with blk show ?thesis
    using reads hdr app
    by (simp add: get_header_def get_app_hash_def tip_def height_by_header_hash_def get_ok
        header_from_preimage_preimage Let_def)
qed

end

section \<open>Properties\<close>

text \<open>
  C22. A stored block is read back completely. After \<open>put_block\<close> the height gives
  the header, the body and the application hash, the tip is the height, the
  header hash gives the height, and every transaction of the block is found
  under its hash, at its index and with its receipt; of several transactions with
  the same hash it is the last. There is one receipt per transaction, as the
  debug assertion of \<open>put_block_ops\<close> demands.
\<close>

theorem put_block_readback:
  assumes "wf_header hdr" "wf_body b" "length app = 32" "length rs = length (bk_txs b)"
    and "h = hf_height (hd_fields hdr)"
  shows "\<exists>s'. put_block H memory_store s hdr b rs app = (Ok (), s') \<and>
    get_header memory_store s' h = Ok (Some hdr) \<and> get_block memory_store s' h = Ok (Some b) \<and>
    get_app_hash memory_store s' h = Ok (Some app) \<and> tip memory_store s' = Ok (Some h) \<and>
    height_by_header_hash memory_store s' (header_hash H hdr) = Ok (Some h) \<and>
    (\<forall>i<length (bk_txs b). let t = bk_txs b ! i in
       tx_hash H (st_tx t) \<notin> (\<lambda>s. tx_hash H (st_tx s)) ` set (drop (Suc i) (bk_txs b)) \<longrightarrow>
       get_tx_by_hash H memory_store s' (tx_hash H (st_tx t)) = Ok (Some (h, of_nat i, t)) \<and>
       get_receipt memory_store s' (tx_hash H (st_tx t)) = Ok (Some (rs ! i)))"
proof -
  obtain s' where "put_block H memory_store s hdr b rs app = (Ok (), s')"
    by (rule mem.put_block_contents)
  then show ?thesis
    using mem.put_block_reads [OF assms(1-4)] unfolding assms(5) by blast
qed

definition example_signed :: SignedTx where
  "example_signed =
    \<lparr>st_tx = tx_transfer 1 0 21000 5 (replicate 32 7) 9,
     st_signature = replicate 64 1, st_public_key = replicate 32 2\<rparr>"

definition example_header :: "Height \<Rightarrow> Header" where
  "example_header h =
    \<lparr>hd_fields = \<lparr>hf_height = h, hf_round = 0, hf_proposer = replicate 48 3, hf_timestamp_ms = 1000\<rparr>,
     hd_tx_root = replicate 32 1, hd_state_root = replicate 32 2, hd_receipts_root = replicate 32 3,
     hd_validators_hash = replicate 32 4, hd_da_root = replicate 32 0\<rparr>"

definition example_block :: "Height \<Rightarrow> Block" where
  "example_block h = \<lparr>bk_header_fields = hd_fields (example_header h), bk_txs = [example_signed]\<rparr>"

lemma example_wf:
  "wf_header (example_header h)" "wf_body (example_block h)"
  "length (encode_block_body (example_block h)) < 1000"
proof -
  have len: "length (tx_bytes (st_tx example_signed)) = 94"
    by (simp add: example_signed_def tx_transfer_def tx_bytes_def tx_encode_def tx_payload_bytes_def
        length_canonical_encode)
  then have signed: "wf_signed example_signed"
    unfolding wf_signed_def by (simp add: example_signed_def tx_transfer_def wf_tx_def)
  then have entry: "length (signed_tx_entry example_signed) = 203"
    by (simp add: signed_tx_entry_def Let_def length_encode_signed_tx len)
  show "wf_header (example_header h)" by (simp add: example_header_def wf_header_def)
  show "wf_body (example_block h)"
    by (simp add: wf_body_def example_block_def example_header_def signed entry)
  show "length (encode_block_body (example_block h)) < 1000"
    by (simp add: encode_block_body_def Let_def length_canonical_encode example_block_def
        example_header_def entry)
qed

theorem put_block_readback_witness:
  "\<exists>s'. put_block last32 memory_store [] (example_header 4) (example_block 4) [[1, 2]] (replicate 32 9) = (Ok (), s') \<and>
    get_header memory_store s' 4 = Ok (Some (example_header 4)) \<and>
    get_block memory_store s' 4 = Ok (Some (example_block 4)) \<and>
    get_receipt memory_store s' (tx_hash last32 (st_tx example_signed)) = Ok (Some [1, 2])"
  using put_block_readback [where H = last32 and s = "[]", of "example_header 4" "example_block 4" "replicate 32 9" "[[1, 2]]" 4]
    example_wf [of 4]
  by (auto simp: example_block_def example_header_def)

end
