(* ===== verification/Storage_Wal.thy ===== *)
theory Storage_Wal
  imports Storage_Blocks
begin

text \<open>
  Replay and the write-ahead log (\<open>replay.rs\<close>, \<open>wal.rs\<close> of \<open>crates/storage\<close>).
  \<open>apply_block\<close> is the callback the sources pass, a function from a world and a
  block to the next world, the receipts and the application hash. The lemmas
  show that the log record is read back, that storing the next block extends the
  replay by it, that recovery finishes a commit interrupted before the body of
  the block or after its last write, and that a crash in between loses the block.
  A crash may fall between any two single writes of the commit.
\<close>

section \<open>Replay\<close>

datatype ReplayError =
    ReplayStore TypesError
  | GenesisMismatch
  | MissingBlock
  | AppHashMismatch u64 Hash Hash

type_synonym ('w, 'r) applier = "'w \<Rightarrow> Block \<Rightarrow> 'w \<times> 'r list \<times> Hash"

text \<open>The body of the loop at one height.\<close>

definition replay_height ::
  "'s StoreOps \<Rightarrow> 's \<Rightarrow> ('w, 'r) applier \<Rightarrow> 'w \<Rightarrow> Height \<Rightarrow> ('w \<times> Hash, ReplayError) result" where
  "replay_height S s apply_block world h =
    and_then (map_err ReplayStore (get_block S s h)) (\<lambda>b.
    and_then (ok_or MissingBlock b) (\<lambda>block.
    and_then (map_err ReplayStore (get_app_hash S s h)) (\<lambda>a.
    and_then (ok_or MissingBlock a) (\<lambda>stored_app.
      case apply_block world block of (next_world, _, app) \<Rightarrow>
        if app \<noteq> stored_app then Err (AppHashMismatch h stored_app app)
        else Ok (next_world, app)))))"

text \<open>\<open>while h <= end\<close>; \<open>None\<close> is the overflow of \<open>h += 1\<close>.\<close>

function replay_loop ::
  "'s StoreOps \<Rightarrow> 's \<Rightarrow> ('w, 'r) applier \<Rightarrow> Height \<Rightarrow> Height \<Rightarrow> 'w \<Rightarrow> Hash
    \<Rightarrow> ('w \<times> Hash, ReplayError) result option" where
  "replay_loop S s apply_block end_h h world last_app =
    (if h \<le> end_h then
       (case replay_height S s apply_block world h of
          Err e \<Rightarrow> Some (Err e)
        | Ok (world', app) \<Rightarrow>
            if h = - 1 then None
            else replay_loop S s apply_block end_h (h + 1) world' app)
     else Some (Ok (world, last_app)))"
  by pat_completeness auto
termination
proof (relation "measure (\<lambda>(S, s, f, m, h, w, a). 2 ^ 64 - unat h)", goal_cases)
  case (2 S s apply_block end_h h world last_app)
  then have "unat (h + 1) = Suc (unat h)" by (simp add: unat_plus_one)
  then show ?case using unat_lt_pow [of "h + 1"] by simp
qed simp

declare replay_loop.simps [simp del]

definition replay_from_genesis ::
  "(bytes \<Rightarrow> Hash) \<Rightarrow> 's StoreOps \<Rightarrow> 's \<Rightarrow> Genesis \<Rightarrow> 'w \<Rightarrow> ('w, 'r) applier
    \<Rightarrow> ('w \<times> Hash, ReplayError) result option" where
  "replay_from_genesis H S s genesis world apply_block =
    (case get_genesis_hash S s of
       Err e \<Rightarrow> Some (Err (ReplayStore e))
     | Ok None \<Rightarrow> Some (Err GenesisMismatch)
     | Ok (Some stored_g) \<Rightarrow>
         (let gh = genesis_hash H genesis in
          if stored_g \<noteq> gh then Some (Err GenesisMismatch)
          else (case tip S s of
                  Err e \<Rightarrow> Some (Err (ReplayStore e))
                | Ok None \<Rightarrow> Some (Ok (world, gh))
                | Ok (Some end_h) \<Rightarrow> replay_loop S s apply_block end_h 0 world gh)))"

section \<open>Write-ahead log\<close>

datatype WalError = WalStore TypesError | WalReplay ReplayError | WalCorrupt

definition counted :: "bytes \<Rightarrow> bytes" where
  "counted b = u32_be (of_nat (length b)) @ b"

definition encode_wal :: "Header \<Rightarrow> Block \<Rightarrow> bytes list \<Rightarrow> Hash \<Rightarrow> bytes" where
  "encode_wal header block receipts app =
    canonical_encode
      (counted (header_preimage header) @ counted (encode_block_body block) @ app @
       u32_be (of_nat (length receipts)) @ concat (map counted receipts))"

record WalPayload =
  wp_header :: Header
  wp_block :: Block
  wp_receipts :: "bytes list"
  wp_app_hash :: Hash

text \<open>Reading at a cursor: the closure \<open>take_u32\<close>, and the guarded slices of \<open>decode_wal\<close>.\<close>

definition take_u32 :: "bytes \<Rightarrow> nat \<Rightarrow> (u32 \<times> nat, WalError) result" where
  "take_u32 p i =
    (if i + 4 > length p then Err WalCorrupt
     else Ok (u32_from_be (slice i (i + 4) p), i + 4))"

definition take_slice :: "bytes \<Rightarrow> nat \<Rightarrow> nat \<Rightarrow> (bytes \<times> nat, WalError) result" where
  "take_slice p n i =
    (if i + n > length p then Err WalCorrupt else Ok (slice i (i + n) p, i + n))"

fun take_receipts :: "bytes \<Rightarrow> nat \<Rightarrow> nat \<Rightarrow> (bytes list \<times> nat, WalError) result" where
  "take_receipts p 0 i = Ok ([], i)"
| "take_receipts p (Suc n) i =
    and_then (take_u32 p i) (\<lambda>(rl, i).
    and_then (take_slice p (unat rl) i) (\<lambda>(r, i).
    and_then (take_receipts p n i) (\<lambda>(rs, i). Ok (r # rs, i))))"

definition decode_wal :: "bytes \<Rightarrow> (WalPayload, WalError) result" where
  "decode_wal buf =
    and_then (map_err WalStore (canonical_decode buf)) (\<lambda>p.
    if length p < 4 then Err WalCorrupt else
    and_then (take_u32 p 0) (\<lambda>(plen, i).
    and_then (take_slice p (unat plen) i) (\<lambda>(pre, i).
    and_then (map_err WalStore (header_from_preimage pre)) (\<lambda>header.
    and_then (take_u32 p i) (\<lambda>(blen, i).
    and_then (take_slice p (unat blen) i) (\<lambda>(body, i).
    and_then (map_err WalStore (decode_block_body body)) (\<lambda>block.
    and_then (take_slice p 32 i) (\<lambda>(app, i).
    and_then (take_u32 p i) (\<lambda>(n, i).
    and_then (take_receipts p (unat n) i) (\<lambda>(recs, i).
    if i \<noteq> length p then Err WalCorrupt
    else Ok \<lparr>wp_header = header, wp_block = block, wp_receipts = recs, wp_app_hash = app\<rparr>))))))))))"

definition write_wal ::
  "'s StoreOps \<Rightarrow> 's \<Rightarrow> Header \<Rightarrow> Block \<Rightarrow> bytes list \<Rightarrow> Hash \<Rightarrow> (unit, TypesError) result \<times> 's" where
  "write_wal S s header block receipts app =
    apply_batch S s [Put KEY_WAL (encode_wal header block receipts app)]"

definition clear_wal :: "'s StoreOps \<Rightarrow> 's \<Rightarrow> (unit, TypesError) result \<times> 's" where
  "clear_wal S s = apply_batch S s [Delete KEY_WAL]"

definition commit_with_wal ::
  "(bytes \<Rightarrow> Hash) \<Rightarrow> 's StoreOps \<Rightarrow> 's \<Rightarrow> Header \<Rightarrow> Block \<Rightarrow> bytes list \<Rightarrow> Hash \<Rightarrow> bool
    \<Rightarrow> (unit, TypesError) result \<times> 's" where
  "commit_with_wal H S s header block receipts app crash_after_wal =
    then_do (write_wal S s header block receipts app) (\<lambda>_ s.
    if crash_after_wal then (Ok (), s)
    else then_do (put_block H S s header block receipts app) (\<lambda>_ s.
         then_do (clear_wal S s) (\<lambda>_ s. (Ok (), s))))"

text \<open>\<open>None\<close> is the overflow panic of the replay.\<close>

definition recover ::
  "(bytes \<Rightarrow> Hash) \<Rightarrow> 's StoreOps \<Rightarrow> 's \<Rightarrow> Genesis \<Rightarrow> 'w \<Rightarrow> ('w, 'r) applier
    \<Rightarrow> (('w, WalError) result \<times> 's) option" where
  "recover H S s genesis world apply_block =
    (case so_get S s KEY_WAL of
       Err e \<Rightarrow> Some (Err (WalStore e), s)
     | Ok None \<Rightarrow>
         map_option (\<lambda>r. (map_err WalReplay (and_then r (\<lambda>(w, _). Ok w)), s))
           (replay_from_genesis H S s genesis world apply_block)
     | Ok (Some b) \<Rightarrow>
         (case decode_wal b of
            Err e \<Rightarrow> Some (Err e, s)
          | Ok wal \<Rightarrow>
              (case get_block S s (hf_height (hd_fields (wp_header wal))) of
                 Err e \<Rightarrow> Some (Err (WalStore e), s)
               | Ok (Some _) \<Rightarrow>
                   (case clear_wal S s of
                      (Err e, s) \<Rightarrow> Some (Err (WalStore e), s)
                    | (Ok _, s) \<Rightarrow>
                        map_option (\<lambda>r. (map_err WalReplay (and_then r (\<lambda>(w, _). Ok w)), s))
                          (replay_from_genesis H S s genesis world apply_block))
               | Ok None \<Rightarrow>
                   (case replay_from_genesis H S s genesis world apply_block of
                      None \<Rightarrow> None
                    | Some (Err e) \<Rightarrow> Some (Err (WalReplay e), s)
                    | Some (Ok (replayed, _)) \<Rightarrow>
                        (case apply_block replayed (wp_block wal) of (post, _, app) \<Rightarrow>
                           if app \<noteq> wp_app_hash wal then Some (Err WalCorrupt, s)
                           else Some (
                             then_do (map_fail WalStore
                               (put_block H S s (wp_header wal) (wp_block wal) (wp_receipts wal)
                                 (wp_app_hash wal))) (\<lambda>_ s.
                             then_do (map_fail WalStore (clear_wal S s)) (\<lambda>_ s.
                               (Ok post, s)))))))))"

section \<open>The log record is read back\<close>

lemma drop_past: "drop i p = a @ r \<Longrightarrow> drop (i + length a) p = r"
  by (metis add.commute append_eq_conv_conj drop_drop)

lemma drop_le:
  assumes "drop i p = a @ r" "i \<le> length p \<or> a \<noteq> []"
  shows "i + length a \<le> length p"
proof -
  have "length p - i = length a + length r"
    using arg_cong [OF assms(1), of length] by simp
  then show ?thesis using assms(2) by (cases a) auto
qed

lemma take_u32_at: "drop i p = u32_be x @ r \<Longrightarrow> take_u32 p i = Ok (x, i + 4)"
proof -
  assume d: "drop i p = u32_be x @ r"
  have "u32_be x \<noteq> []" by (metis length_u_be(1) list.size(3) zero_neq_numeral)
  then show ?thesis using drop_le [OF d] by (simp add: take_u32_def slice_def d)
qed

lemma take_slice_at:
  "i \<le> length p \<Longrightarrow> drop i p = b @ r \<Longrightarrow> n = length b \<Longrightarrow> take_slice p n i = Ok (b, i + n)"
  using drop_le [of i p b r] by (simp add: take_slice_def slice_def)

lemma take_receipts_at:
  assumes "i \<le> length p" "drop i p = concat (map counted rs) @ r"
    and "list_all (\<lambda>x. length x < 2 ^ 32) rs"
  shows "take_receipts p (length rs) i = Ok (rs, i + length (concat (map counted rs)))"
  using assms
proof (induction rs arbitrary: i)
  case (Cons x rs)
  let ?r = "concat (map counted rs) @ r"
  have d: "drop i p = u32_be (of_nat (length x)) @ x @ ?r"
    using Cons.prems(2) by (simp add: counted_def [of x])
  have d4: "drop (i + 4) p = x @ ?r"
    using drop_past [OF d] by simp
  have le: "i + 4 \<le> length p"
    using drop_le [OF d] Cons.prems(1) by simp
  have n: "unat (of_nat (length x) :: u32) = length x"
    using Cons.prems(3) by (simp add: unat_of_nat)
  have "i + 4 + length x \<le> length p"
    using drop_le [OF d4] le by simp
  then have "take_receipts p (length rs) (i + 4 + length x) =
      Ok (rs, i + 4 + length x + length (concat (map counted rs)))"
    using Cons.prems(3) by (intro Cons.IH drop_past [OF d4]) simp_all
  then show ?case
    using take_slice_at [OF le d4 n] n by (simp add: take_u32_at [OF d] counted_def [of x])
qed simp

definition wf_wal :: "Header \<Rightarrow> Block \<Rightarrow> bytes list \<Rightarrow> Hash \<Rightarrow> bool" where
  "wf_wal hdr b rs app = (wf_header hdr \<and> wf_body b \<and> length app = 32 \<and>
     length (encode_wal hdr b rs app) < 2 ^ 32 + 5)"

lemma length_counted: "length (counted x) = 4 + length x"
  by (simp add: counted_def)

lemma length_concat_counted:
  "4 * length rs \<le> length (concat (map counted rs))"
  "x \<in> set rs \<Longrightarrow> length x \<le> length (concat (map counted rs))"
  by (induction rs) (auto simp: length_counted)

lemma wf_wal_sizes:
  assumes "wf_wal hdr b rs app"
  shows "length (encode_block_body b) < 2 ^ 32" "length rs < 2 ^ 32"
    "list_all (\<lambda>x. length x < 2 ^ 32) rs"
    "228 + 44 + length (encode_block_body b) + length (concat (map counted rs)) < 2 ^ 32"
proof -
  show total: "228 + 44 + length (encode_block_body b) + length (concat (map counted rs)) < 2 ^ 32"
    using assms length_header_preimage [of hdr]
    by (simp add: wf_wal_def encode_wal_def length_canonical_encode length_counted)
  then show "length (encode_block_body b) < 2 ^ 32" by simp
  show "length rs < 2 ^ 32" using total length_concat_counted(1) [of rs] by linarith
  show "list_all (\<lambda>x. length x < 2 ^ 32) rs"
    unfolding list_all_iff
  proof
    fix x assume "x \<in> set rs"
    then show "length x < 2 ^ 32" using total length_concat_counted(2) [of x rs] by linarith
  qed
qed

lemma decode_wal_encode:
  assumes wf: "wf_wal hdr b rs app"
  shows "decode_wal (encode_wal hdr b rs app) =
    Ok \<lparr>wp_header = hdr, wp_block = b, wp_receipts = rs, wp_app_hash = app\<rparr>"
proof -
  let ?body = "encode_block_body b" and ?rs = "concat (map counted rs)"
  define p where "p = counted (header_preimage hdr) @ counted ?body @ app @
    u32_be (of_nat (length rs)) @ ?rs"
  have pre: "length (header_preimage hdr) = 228" and app: "length app = 32"
    using wf by (simp_all add: wf_wal_def length_header_preimage)
  note sz = wf_wal_sizes [OF wf]
  have len: "length p = 228 + 44 + length ?body + length ?rs"
    by (simp add: p_def length_counted pre app)
  have dec: "canonical_decode (encode_wal hdr b rs app) = Ok p"
    unfolding encode_wal_def p_def [symmetric]
    by (rule canonical_decode_encode) (use len sz(4) in simp)
  have d0: "drop 0 p = u32_be 228 @ header_preimage hdr @ counted ?body @ app @
      u32_be (of_nat (length rs)) @ ?rs"
    by (simp add: p_def counted_def [of "header_preimage hdr"] pre)
  have d4: "drop 4 p = header_preimage hdr @ counted ?body @ app @ u32_be (of_nat (length rs)) @ ?rs"
    using drop_past [OF d0] by simp
  have d232: "drop 232 p = u32_be (of_nat (length ?body)) @ ?body @ app @
      u32_be (of_nat (length rs)) @ ?rs"
    using drop_past [OF d4] pre by (simp add: counted_def [of ?body])
  have d236: "drop 236 p = ?body @ app @ u32_be (of_nat (length rs)) @ ?rs"
    using drop_past [OF d232] by simp
  have dapp: "drop (236 + length ?body) p = app @ u32_be (of_nat (length rs)) @ ?rs"
    using drop_past [OF d236] by simp
  have dn: "drop (236 + length ?body + 32) p = u32_be (of_nat (length rs)) @ ?rs"
    using drop_past [OF dapp] by (simp only: app)
  have drs: "drop (236 + length ?body + 32 + 4) p = ?rs @ []"
    using drop_past [OF dn] by (simp only: length_u_be append_Nil2)
  have n: "unat (of_nat (length ?body) :: u32) = length ?body" "unat (of_nat (length rs) :: u32) = length rs"
    by (rule unat_u32_of_nat [OF sz(1)], rule unat_u32_of_nat [OF sz(2)])
  have t1: "take_u32 p 0 = Ok (228, 4)" using take_u32_at [OF d0] by simp
  have t2: "take_u32 p 232 = Ok (of_nat (length ?body), 236)" using take_u32_at [OF d232] by simp
  have s1: "take_slice p 228 4 = Ok (header_preimage hdr, 4 + 228)"
    by (rule take_slice_at [OF _ d4]) (simp_all add: len pre)
  have s2: "take_slice p (length ?body) 236 = Ok (?body, 236 + length ?body)"
    by (rule take_slice_at [OF _ d236]) (simp_all add: len)
  have s3: "take_slice p 32 (236 + length ?body) = Ok (app, 236 + length ?body + 32)"
    by (rule take_slice_at [OF _ dapp]) (simp_all add: len app)
  have s4: "take_receipts p (length rs) (236 + length ?body + 32 + 4) = Ok (rs, length p)"
  proof -
    have le: "236 + length ?body + 32 + 4 \<le> length p"
      and e: "236 + length ?body + 32 + 4 + length ?rs = length p" unfolding len by linarith+
    show ?thesis using take_receipts_at [OF le drs sz(3)] unfolding e .
  qed
  note steps = t1 t2 take_u32_at [OF dn] s1 s2 s3 s4
  have "header_from_preimage (header_preimage hdr) = Ok hdr" "decode_block_body ?body = Ok b"
    using wf by (simp_all add: wf_wal_def header_from_preimage_preimage decode_block_body_encode)
  moreover have "\<not> length p < 4" by (simp add: len)
  moreover have "unat (228 :: u32) = 228" "4 + 228 = (232 :: nat)" by simp_all
  ultimately show ?thesis
    unfolding decode_wal_def dec map_err.simps and_then.simps
    by (simp only: steps n if_False and_then.simps map_err.simps prod.case simp_thms)
qed

section \<open>Recovery finishes an interrupted commit\<close>

text \<open>The height the next block takes.\<close>

definition next_height :: "'s StoreOps \<Rightarrow> 's \<Rightarrow> Height \<Rightarrow> bool" where
  "next_height S s h =
    (case tip S s of
       Ok None \<Rightarrow> h = 0
     | Ok (Some e) \<Rightarrow> e \<noteq> - 1 \<and> h = e + 1
     | Err _ \<Rightarrow> False)"

text \<open>
  What a crash leaves on a store whose writes are durable one by one: the batches
  of \<open>apply_batch\<close> are written key by key, so a crash may stop \<open>put_block\<close> after any
  number \<open>j\<close> of its writes.
\<close>

definition write_all :: "'s StoreOps \<Rightarrow> 's \<Rightarrow> BatchOp list \<Rightarrow> 's" where
  "write_all S s ops = foldl (\<lambda>s op. snd (run_op S s op)) s ops"

definition crash_store ::
  "(bytes \<Rightarrow> Hash) \<Rightarrow> 's StoreOps \<Rightarrow> 's \<Rightarrow> Header \<Rightarrow> Block \<Rightarrow> bytes list \<Rightarrow> Hash \<Rightarrow> nat \<Rightarrow> 's" where
  "crash_store H S s hdr b rs app j =
    write_all S (snd (write_wal S s hdr b rs app)) (take j (put_block_ops H hdr b rs app))"

lemma put_block_ops_cases:
  assumes "op \<in> set (put_block_ops H hdr b rs app)"
  obtains "op = Put (header_height_key (hf_height (hd_fields hdr))) (header_preimage hdr)"
  | "op = Put (header_hash_key (header_hash H hdr)) (u64_be (hf_height (hd_fields hdr)))"
  | "op = Put (block_key (hf_height (hd_fields hdr))) (encode_block_body b)"
  | x v where "op = Put (tx_index_key x) v"
  | x v where "op = Put (receipt_key x) v"
  | "op = Put (app_hash_key (hf_height (hd_fields hdr))) app"
  | "op = Put KEY_TIP (u64_be (hf_height (hd_fields hdr)))"
proof -
  consider "op \<in> set (put_header_ops H hdr)" | "op = Put (block_key (hf_height (hd_fields hdr))) (encode_block_body b)"
    | "op \<in> set (tx_index_ops H (hf_height (hd_fields hdr)) b)" | "op \<in> set (receipt_put_ops H b rs)"
    | "op = Put (app_hash_key (hf_height (hd_fields hdr))) app"
    | "op = Put KEY_TIP (u64_be (hf_height (hd_fields hdr)))"
    using assms unfolding put_block_ops_def Let_def by auto
  then show ?thesis
    using that
    by cases (auto simp: put_header_ops_def tx_index_ops_def receipt_put_ops_def Let_def)
qed

lemma put_block_ops_unique:
  assumes "op \<in> set (put_block_ops H hdr b rs app)"
  shows "op_key op \<noteq> KEY_WAL" "op_key op \<noteq> KEY_GENESIS"
    "op_key op = block_key h \<Longrightarrow> h = hf_height (hd_fields hdr) \<and> op = Put (block_key h) (encode_block_body b)"
    "op_key op = app_hash_key h \<Longrightarrow> h = hf_height (hd_fields hdr) \<and> op = Put (app_hash_key h) app"
    "op_key op = KEY_TIP \<Longrightarrow> op = Put KEY_TIP (u64_be (hf_height (hd_fields hdr)))"
  using assms by (cases rule: put_block_ops_cases; simp add: keys)+

lemma put_block_ops_not_wal: "KEY_WAL \<notin> op_key ` set (put_block_ops H hdr b rs app)"
  by (metis put_block_ops_unique(1) imageE)

lemma put_block_ops_effect:
  assumes "h = hf_height (hd_fields hdr)" and m': "m' = ops_map m (put_block_ops H hdr b rs app)"
  shows "m' KEY_WAL = m KEY_WAL" "m' KEY_GENESIS = m KEY_GENESIS" "m' KEY_TIP = Some (u64_be h)"
    "m' (block_key i) = (if i = h then Some (encode_block_body b) else m (block_key i))"
    "m' (app_hash_key i) = (if i = h then Some app else m (app_hash_key i))"
proof -
  let ?ops = "put_block_ops H hdr b rs app"
  have other: "k \<notin> op_key ` set ?ops \<Longrightarrow> m' k = m k" for k
    unfolding m' by (rule ops_map_other)
  have put: "Put k v \<in> set ?ops \<Longrightarrow> \<forall>op\<in>set ?ops. op_key op = k \<longrightarrow> op = Put k v \<Longrightarrow> m' k = Some v" for k v
    unfolding m' by (rule ops_map_put)
  note unique = put_block_ops_unique [of _ H hdr b rs app]
  note members = put_block_ops_members [where hdr = hdr and H = H and b = b and rs = rs and app = app, folded assms(1)]
  show "m' KEY_WAL = m KEY_WAL" "m' KEY_GENESIS = m KEY_GENESIS"
    by (rule other, metis unique(1) imageE, rule other, metis unique(2) imageE)
  show "m' KEY_TIP = Some (u64_be h)"
    by (rule put [OF members(5)]) (use unique(5) assms(1) in auto)
  have "m' (block_key h) = Some (encode_block_body b)"
    by (rule put [OF members(3)]) (use unique(3) assms(1) in blast)
  moreover have "m' (block_key i) = m (block_key i)" if "i \<noteq> h"
    by (rule other) (use that unique(3) assms(1) in \<open>metis imageE\<close>)
  ultimately show "m' (block_key i) = (if i = h then Some (encode_block_body b) else m (block_key i))"
    by simp
  have "m' (app_hash_key h) = Some app"
    by (rule put [OF members(4)]) (use unique(4) assms(1) in blast)
  moreover have "m' (app_hash_key i) = m (app_hash_key i)" if "i \<noteq> h"
    by (rule other) (use that unique(4) assms(1) in \<open>metis imageE\<close>)
  ultimately show "m' (app_hash_key i) = (if i = h then Some app else m (app_hash_key i))"
    by simp
qed

lemma ops_map_again: "ops_map (ops_map m (take j ops)) ops = ops_map m ops"
proof
  fix k
  have cong: "ops_map m1 xs k = ops_map m2 xs k" if "m1 k = m2 k \<or> k \<in> op_key ` set xs" for m1 m2 xs
    using that
  proof (induction xs arbitrary: m1 m2)
    case (Cons op xs)
    then have "op_map m1 op k = op_map m2 op k \<or> k \<in> op_key ` set xs" by (cases op) auto
    then show ?case using Cons.IH by simp
  qed simp
  have "ops_map m (take j ops) k = m k \<or> k \<in> op_key ` set ops"
    by (cases "k \<in> op_key ` set (take j ops)") (auto dest: in_set_takeD simp: ops_map_other)
  then show "ops_map (ops_map m (take j ops)) ops k = ops_map m ops k" by (rule cong)
qed

text \<open>The first two writes are those of the header, the third is the body, the last the tip.\<close>

lemma put_block_ops_shape:
  obtains hs mid where "put_block_ops H hdr b rs app =
      hs @ [Put (block_key (hf_height (hd_fields hdr))) (encode_block_body b)] @ mid @ [Put KEY_TIP (u64_be (hf_height (hd_fields hdr)))]"
    "length hs = 2" "hs = put_header_ops H hdr" "mid = tx_index_ops H (hf_height (hd_fields hdr)) b @ receipt_put_ops H b rs @
      [Put (app_hash_key (hf_height (hd_fields hdr))) app]"
  by (rule that [OF _ _ refl refl]) (simp_all add: put_block_ops_def put_header_ops_def Let_def)

lemma partial_ops_tip:
  assumes "j < length (put_block_ops H hdr b rs app)"
  shows "KEY_TIP \<notin> op_key ` set (take j (put_block_ops H hdr b rs app))"
proof -
  obtain init where ops: "put_block_ops H hdr b rs app = init @ [Put KEY_TIP (u64_be (hf_height (hd_fields hdr)))]"
    "KEY_TIP \<notin> op_key ` set init"
    by (rule that [of "butlast (put_block_ops H hdr b rs app)"])
      (auto simp: put_block_ops_def butlast_append put_header_ops_def tx_index_ops_def receipt_put_ops_def Let_def keys)
  have "set (take j (put_block_ops H hdr b rs app)) \<subseteq> set init"
    using assms unfolding ops(1) by (auto dest: in_set_takeD)
  then show ?thesis using ops(2) by blast
qed

lemma partial_ops_body:
  "Put (block_key (hf_height (hd_fields hdr))) (encode_block_body b) \<in> set (take j (put_block_ops H hdr b rs app)) \<longleftrightarrow> 2 < j"
proof -
  obtain hs mid where ops: "put_block_ops H hdr b rs app =
      hs @ [Put (block_key (hf_height (hd_fields hdr))) (encode_block_body b)] @ mid @ [Put KEY_TIP (u64_be (hf_height (hd_fields hdr)))]"
    "length hs = 2" "hs = put_header_ops H hdr"
    by (rule put_block_ops_shape [of H hdr b rs app])
  show ?thesis
  proof (cases "2 < j")
    case True
    then obtain i where "j = 3 + i" by (metis less_iff_Suc_add add_Suc_right add_Suc numeral_3_eq_3 numeral_2_eq_2)
    then show ?thesis unfolding ops(1) using ops(2) by simp
  next
    case False
    then have "set (take j (put_block_ops H hdr b rs app)) \<subseteq> set hs"
      unfolding ops(1) using ops(2) by (auto dest: in_set_takeD)
    then show ?thesis using False unfolding ops(3) by (auto simp: put_header_ops_def Let_def keys)
  qed
qed

context reliable_store
begin

lemma replay_height_cong:
  assumes "contents s (block_key h) = contents s' (block_key h)"
    "contents s (app_hash_key h) = contents s' (app_hash_key h)"
  shows "replay_height S s f w h = replay_height S s' f w h"
  using assms by (simp add: replay_height_def get_block_def get_app_hash_def get_ok)

text \<open>The replay to one more height, in a store that has the old chain and one more block.\<close>

lemma replay_loop_extend:
  assumes same: "\<forall>i\<le>e. contents s (block_key i) = contents s' (block_key i) \<and>
      contents s (app_hash_key i) = contents s' (app_hash_key i)"
    and e: "e \<noteq> - 1" "e + 1 \<noteq> - 1"
    and step: "replay_height S s' f w1 (e + 1) = Ok (w2, a2)"
    and old: "replay_loop S s f e h w a = Some (Ok (w1, a1))" "h \<le> e + 1"
  shows "replay_loop S s' f (e + 1) h w a = Some (Ok (w2, a2))"
  using old
proof (induction "2 ^ 64 - unat h" arbitrary: h w a rule: less_induct)
  case less
  have ue: "unat (e + 1) = Suc (unat e)" by (simp add: unat_plus_one e)
  show ?case
  proof (cases "h \<le> e")
    case True
    then obtain w' a' where h: "replay_height S s f w h = Ok (w', a')"
      and h1: "h \<noteq> - 1" "replay_loop S s f e (h + 1) w' a' = Some (Ok (w1, a1))"
      using less.prems(1) by (subst (asm) replay_loop.simps) (auto split: result.splits if_splits)
    have uh: "unat (h + 1) = Suc (unat h)" by (simp add: unat_plus_one h1)
    have "replay_loop S s' f (e + 1) (h + 1) w' a' = Some (Ok (w2, a2))"
      using True ue uh unat_lt_pow [of h]
      by (intro less.hyps h1) (simp_all add: word_le_nat_alt)
    moreover have "replay_height S s' f w h = Ok (w', a')"
      using h same True replay_height_cong [of s h s' f w] by simp
    ultimately show ?thesis
      using h1(1) less.prems(2) by (subst replay_loop.simps) simp
  next
    case False
    then have "h = e + 1" using less.prems(2) ue by (simp add: word_le_nat_alt word_unat_eq_iff)
    moreover have "w1 = w" using less.prems(1) False by (simp add: replay_loop.simps)
    moreover have "\<not> e + 1 + 1 \<le> e + 1" using unat_plus_one [OF e(2)] by (simp add: word_le_nat_alt)
    ultimately show ?thesis
      using step e(2) by (subst replay_loop.simps, simp, subst replay_loop.simps, simp)
  qed
qed

lemma replay_loop_cong:
  assumes same: "\<forall>i\<le>e. contents s (block_key i) = contents s' (block_key i) \<and>
      contents s (app_hash_key i) = contents s' (app_hash_key i)"
  shows "replay_loop S s f e h w a = replay_loop S s' f e h w a"
proof (induction "2 ^ 64 - unat h" arbitrary: h w a rule: less_induct)
  case less
  have "replay_loop S s f e (h + 1) w' a' = replay_loop S s' f e (h + 1) w' a'" if "h \<noteq> - 1" for w' a'
    using that unat_lt_pow [of h] unat_lt_pow [of "h + 1"]
    by (intro less.hyps) (simp add: unat_plus_one)
  moreover have "replay_height S s f w h = replay_height S s' f w h" if "h \<le> e"
    using same that by (intro replay_height_cong) simp_all
  ultimately show ?case
    by (subst (1 2) replay_loop.simps) (simp split: result.split)
qed

text \<open>The replay reads the tip, the genesis hash and the blocks up to the tip.\<close>

lemma replay_same_chain:
  assumes "contents s KEY_TIP = contents s' KEY_TIP" "contents s KEY_GENESIS = contents s' KEY_GENESIS"
    and "\<And>e i. tip S s = Ok (Some e) \<Longrightarrow> i \<le> e \<Longrightarrow> contents s (block_key i) = contents s' (block_key i) \<and>
      contents s (app_hash_key i) = contents s' (app_hash_key i)"
  shows "replay_from_genesis H S s g w f = replay_from_genesis H S s' g w f"
proof -
  have tips: "tip S s' = tip S s" "get_genesis_hash S s = get_genesis_hash S s'"
    using assms(1,2) by (simp_all add: get_genesis_hash_def tip_def get_ok)
  have loop: "replay_loop S s f e h w a = replay_loop S s' f e h w a" if "tip S s = Ok (Some e)" for e h w a
    by (rule replay_loop_cong) (use assms(3) that in blast)
  show ?thesis unfolding replay_from_genesis_def tips
    by (auto simp: loop Let_def split: result.splits option.splits)
qed

text \<open>The log record does not take part in the replay.\<close>

lemma replay_ignores_wal:
  assumes "\<forall>k. k \<noteq> KEY_WAL \<longrightarrow> contents s k = contents s' k"
  shows "replay_from_genesis H S s g w f = replay_from_genesis H S s' g w f"
  by (rule replay_same_chain) (use assms in \<open>simp_all add: keys\<close>)

lemma replay_after_put:
  assumes old: "replay_from_genesis H S s g w0 f = Some (Ok (w, a))"
    and nxt: "next_height S s h" "h \<noteq> - 1" "h = hf_height (hd_fields hdr)"
    and b: "wf_body b" "length app = 32" "f w b = (w', rs', app)"
    and s': "contents s' = ops_map (contents s) (put_block_ops H hdr b rs app)"
  shows "replay_from_genesis H S s' g w0 f = Some (Ok (w', app))"
proof -
  note eff = put_block_ops_effect [OF nxt(3) s']
  have step: "replay_height S s' f w h = Ok (w', app)"
    using b by (simp add: replay_height_def get_block_def get_app_hash_def get_ok eff decode_block_body_encode)
  have gen: "get_genesis_hash S s' = get_genesis_hash S s" and tip': "tip S s' = Ok (Some h)"
    by (simp_all add: get_genesis_hash_def tip_def get_ok eff)
  obtain gh where gh: "get_genesis_hash S s = Ok (Some gh)" "gh = genesis_hash H g"
    using old by (auto simp: replay_from_genesis_def Let_def split: result.splits option.splits if_splits)
  have new: "replay_from_genesis H S s' g w0 f = replay_loop S s' f h 0 w0 gh"
    by (simp add: replay_from_genesis_def gen gh tip')
  show ?thesis
  proof (cases "tip S s")
    case (Ok t)
    show ?thesis
    proof (cases t)
      case None
      then have "h = 0" "w = w0" using nxt(1) old Ok by (simp_all add: next_height_def replay_from_genesis_def gh)
      then show ?thesis
        using step by (simp add: new replay_loop.simps)
    next
      case (Some e)
      then have e: "e \<noteq> - 1" "h = e + 1" using nxt(1) Ok by (simp_all add: next_height_def)
      have "replay_loop S s f e 0 w0 gh = Some (Ok (w, a))"
        using old Ok Some by (simp add: replay_from_genesis_def gh)
      moreover have "contents s (block_key i) = contents s' (block_key i) \<and>
          contents s (app_hash_key i) = contents s' (app_hash_key i)" if "i \<le> e" for i
      proof -
        have "i \<noteq> h" using that e unat_plus_one [OF e(1)] by (auto simp: word_le_nat_alt)
        then show ?thesis by (simp add: eff)
      qed
      ultimately show ?thesis
        using e nxt(2) step unfolding new e(2)
        by (intro replay_loop_extend) simp_all
    qed
  qed (use nxt(1) in \<open>simp add: next_height_def\<close>)
qed

lemma write_all_contents: "contents (write_all S s ops) = ops_map (contents s) ops"
proof (induction ops arbitrary: s)
  case (Cons op ops)
  have "contents (snd (run_op S s op)) = op_map (contents s) op"
    using put_ok delete_ok by (cases op) simp_all
  then show ?case using Cons by (simp add: write_all_def)
qed (simp add: write_all_def)

lemma crash_store_contents:
  "contents (crash_store H S s hdr b rs app j) =
    (ops_map (contents s) (take j (put_block_ops H hdr b rs app)))(KEY_WAL \<mapsto> encode_wal hdr b rs app)"
proof -
  obtain s1 where s1: "write_wal S s hdr b rs app = (Ok (), s1)" "contents s1 = (contents s)(KEY_WAL \<mapsto> encode_wal hdr b rs app)"
    unfolding write_wal_def by (rule batch [of s "[Put KEY_WAL (encode_wal hdr b rs app)]"]) simp
  have "KEY_WAL \<notin> op_key ` set (take j (put_block_ops H hdr b rs app))"
    using put_block_ops_not_wal [of H hdr b rs app] by (auto dest: in_set_takeD)
  then show ?thesis by (simp add: crash_store_def write_all_contents s1 ops_map_upd_other)
qed

text \<open>Before the tip is written the replay is the old one.\<close>

lemma replay_partial:
  assumes t: "contents t = (ops_map (contents s) (take j (put_block_ops H hdr b rs app)))(KEY_WAL := x)"
    and j: "j < length (put_block_ops H hdr b rs app)"
    and nxt: "next_height S s h" "h = hf_height (hd_fields hdr)"
  shows "replay_from_genesis H' S t g w f = replay_from_genesis H' S s g w f" "contents t KEY_TIP = contents s KEY_TIP"
proof -
  let ?ops = "take j (put_block_ops H hdr b rs app)"
  have unique: "op \<in> set ?ops \<Longrightarrow> op \<in> set (put_block_ops H hdr b rs app)" for op by (rule in_set_takeD)
  have other: "contents t k = contents s k" if "k \<notin> op_key ` set ?ops" "k \<noteq> KEY_WAL" for k
    unfolding t using that by (simp add: ops_map_other)
  show tip: "contents t KEY_TIP = contents s KEY_TIP"
    by (rule other [OF partial_ops_tip [OF j]]) (simp add: keys)
  have gen: "contents t KEY_GENESIS = contents s KEY_GENESIS"
    by (rule other, metis put_block_ops_unique(2) [OF unique] imageE) (simp add: keys)
  have chain: "contents s (block_key i) = contents t (block_key i) \<and> contents s (app_hash_key i) = contents t (app_hash_key i)"
    if "tip S s = Ok (Some e)" "i \<le> e" for e i
  proof -
    have "e \<noteq> - 1" "h = e + 1" using nxt(1) that(1) by (simp_all add: next_height_def)
    then have ne: "i \<noteq> h" using that(2) unat_plus_one [of e] by (auto simp: word_le_nat_alt)
    have "block_key i \<notin> op_key ` set ?ops" "app_hash_key i \<notin> op_key ` set ?ops"
      using put_block_ops_unique(3,4) [OF unique] ne nxt(2) by (metis imageE)+
    then show ?thesis using other by (simp add: keys)
  qed
  show "replay_from_genesis H' S t g w f = replay_from_genesis H' S s g w f"
    by (rule replay_same_chain [symmetric]) (use tip gen chain in simp_all)
qed

lemma replay_complete:
  assumes "contents t = (ops_map (contents s) (put_block_ops H hdr b rs app))(KEY_WAL := x)"
    and "replay_from_genesis H S s g w0 f = Some (Ok (w, a))"
    and "next_height S s h" "h \<noteq> - 1" "h = hf_height (hd_fields hdr)"
    and "wf_body b" "length app = 32" "f w b = (w', rs', app)"
  shows "replay_from_genesis H S t g w0 f = Some (Ok (w', app))"
proof -
  obtain u where "contents u = ops_map (contents s) (put_block_ops H hdr b rs app)" by (rule put_block_contents)
  then show ?thesis
    using replay_after_put [OF assms(2-8)] replay_ignores_wal [of t u H g w0 f] assms(1) by simp
qed

lemma clear_contents:
  obtains c where "clear_wal S t = (Ok (), c)" "contents c = (contents t)(KEY_WAL := None)"
  unfolding clear_wal_def by (rule batch [of t "[Delete KEY_WAL]"]) simp

text \<open>Before the body is written, recovery redoes the commit.\<close>

lemma recover_before_body:
  assumes old: "replay_from_genesis H S s g w0 f = Some (Ok (w, a))"
    and nxt: "next_height S s h" "h = hf_height (hd_fields hdr)"
    and fresh: "contents s (block_key h) = None"
    and wf: "wf_wal hdr b rs app" and fb: "f w b = (w', rs', app)" and j: "j \<le> 2"
  shows "\<exists>t'. recover H S (crash_store H S s hdr b rs app j) g w0 f = Some (Ok w', t') \<and>
    contents t' = (ops_map (contents s) (put_block_ops H hdr b rs app))(KEY_WAL := None)"
proof -
  let ?ops = "put_block_ops H hdr b rs app" and ?t = "crash_store H S s hdr b rs app j"
  note t = crash_store_contents [of H s hdr b rs app j]
  have k: "KEY_WAL \<notin> op_key ` set ?ops" by (rule put_block_ops_not_wal)
  have len: "j < length ?ops" using j by (simp add: put_block_ops_def put_header_ops_def Let_def)
  have "block_key h \<notin> op_key ` set (take j ?ops)"
  proof
    assume "block_key h \<in> op_key ` set (take j ?ops)"
    then obtain op where op: "op \<in> set (take j ?ops)" "op_key op = block_key h" by force
    then have "op = Put (block_key h) (encode_block_body b)" using put_block_ops_unique(3) [OF in_set_takeD] by blast
    then show False using op(1) partial_ops_body [of hdr b j H rs app] j nxt(2) by simp
  qed
  then have "contents ?t (block_key h) = None" using fresh by (simp add: t ops_map_other keys)
  then have blk: "get_block S ?t h = Ok None" by (simp add: get_block_def get_ok)
  obtain p where p: "put_block H S ?t hdr b rs app = (Ok (), p)" "contents p = ops_map (contents ?t) ?ops"
    by (rule put_block_contents)
  obtain q where q: "clear_wal S p = (Ok (), q)" "contents q = (contents p)(KEY_WAL := None)"
    by (rule clear_contents)
  have "replay_from_genesis H S ?t g w0 f = Some (Ok (w, a))"
    unfolding replay_partial(1) [OF t len nxt] by (rule old)
  then have "recover H S ?t g w0 f = Some (Ok w', q)"
    using blk nxt(2) by (simp add: recover_def get_ok t decode_wal_encode [OF wf] fb p q)
  moreover have "contents q = (ops_map (contents s) ?ops)(KEY_WAL := None)"
    by (simp add: q p t ops_map_upd_other [OF k] ops_map_again)
  ultimately show ?thesis by blast
qed

text \<open>Once the body is written, recovery only drops the record.\<close>

lemma recover_after_body:
  assumes wf: "wf_wal hdr b rs app" and j: "2 < j" and h: "h = hf_height (hd_fields hdr)"
  obtains c where "contents c = (ops_map (contents s) (take j (put_block_ops H hdr b rs app)))(KEY_WAL := None)"
    "get_block S c h = Ok (Some b)"
    "recover H S (crash_store H S s hdr b rs app j) g w0 f =
      map_option (\<lambda>r. (map_err WalReplay (and_then r (\<lambda>(w, _). Ok w)), c)) (replay_from_genesis H S c g w0 f)"
proof -
  let ?ops = "take j (put_block_ops H hdr b rs app)" and ?t = "crash_store H S s hdr b rs app j"
  note t = crash_store_contents [of H s hdr b rs app j]
  obtain c where c: "clear_wal S ?t = (Ok (), c)" "contents c = (contents ?t)(KEY_WAL := None)"
    by (rule clear_contents)
  have body: "ops_map (contents s) ?ops (block_key h) = Some (encode_block_body b)"
  proof (rule ops_map_put)
    show "Put (block_key h) (encode_block_body b) \<in> set ?ops" using partial_ops_body j unfolding h by blast
    show "\<forall>op\<in>set ?ops. op_key op = block_key h \<longrightarrow> op = Put (block_key h) (encode_block_body b)"
      using put_block_ops_unique(3) [OF in_set_takeD] by blast
  qed
  have kb: "block_key h \<noteq> KEY_WAL" by (simp add: keys)
  have "wf_body b" using wf by (simp add: wf_wal_def)
  then have blk: "get_block S ?t h = Ok (Some b)" "get_block S c h = Ok (Some b)"
    using kb by (simp_all add: get_block_def get_ok t c body decode_block_body_encode)
  moreover have "recover H S ?t g w0 f =
      map_option (\<lambda>r. (map_err WalReplay (and_then r (\<lambda>(w, _). Ok w)), c)) (replay_from_genesis H S c g w0 f)"
    using blk(1) h by (simp add: recover_def get_ok t decode_wal_encode [OF wf] c)
  ultimately show thesis using that [of c] by (simp add: c t)
qed

lemma commit_with_wal_effect:
  "\<exists>s'. commit_with_wal H S s hdr b rs app False = (Ok (), s') \<and>
    contents s' = (ops_map (contents s) (put_block_ops H hdr b rs app))(KEY_WAL := None)"
proof -
  obtain s1 where s1: "write_wal S s hdr b rs app = (Ok (), s1)"
    "contents s1 = (contents s)(KEY_WAL \<mapsto> encode_wal hdr b rs app)"
    unfolding write_wal_def by (rule batch [of s "[Put KEY_WAL (encode_wal hdr b rs app)]"]) simp
  obtain s2 where s2: "put_block H S s1 hdr b rs app = (Ok (), s2)"
    "contents s2 = ops_map (contents s1) (put_block_ops H hdr b rs app)"
    by (rule put_block_contents)
  obtain s3 where s3: "clear_wal S s2 = (Ok (), s3)" "contents s3 = (contents s2)(KEY_WAL := None)"
    unfolding clear_wal_def by (rule batch [of s2 "[Delete KEY_WAL]"]) simp
  show ?thesis
    by (simp add: commit_with_wal_def s1 s2 s3 ops_map_upd_other [OF put_block_ops_not_wal])
qed

end

section \<open>Crash safety\<close>


text \<open>
  C21. A crash between the writes of a block loses the block. If a crash stops
  \<open>put_block\<close> after the body of the block and before the tip, recovery takes the
  block for stored: it drops the log record and returns the world without the
  block, with the old tip, while the body of the block stays in the store.
\<close>

theorem crash_inside_block_write:
  assumes "replay_from_genesis H memory_store s g w0 f = Some (Ok (w, a))"
    and "next_height memory_store s h" "h = hf_height (hd_fields hdr)" "wf_wal hdr b rs app"
    and "2 < j" "j < length (put_block_ops H hdr b rs app)"
  shows "\<exists>t. recover H memory_store (crash_store H memory_store s hdr b rs app j) g w0 f = Some (Ok w, t) \<and>
    bt_get t KEY_WAL = None \<and> tip memory_store t = tip memory_store s \<and> get_block memory_store t h = Ok (Some b)"
proof -
  obtain t where t: "bt_get t = (ops_map (bt_get s) (take j (put_block_ops H hdr b rs app)))(KEY_WAL := None)"
    "get_block memory_store t h = Ok (Some b)"
    "recover H memory_store (crash_store H memory_store s hdr b rs app j) g w0 f =
      map_option (\<lambda>r. (map_err WalReplay (and_then r (\<lambda>(w, _). Ok w)), t)) (replay_from_genesis H memory_store t g w0 f)"
    by (rule mem.recover_after_body [OF assms(4,5,3)])
  note same = mem.replay_partial [OF t(1) assms(6,2,3)]
  have "tip memory_store t = tip memory_store s" using same(2) by (simp add: tip_def mem.get_ok)
  moreover have "replay_from_genesis H memory_store t g w0 f = Some (Ok (w, a))" unfolding same(1) by (rule assms(1))
  ultimately show ?thesis using t by simp
qed

definition example_apply :: "(nat, unit) applier" where
  "example_apply w b = (w + length (bk_txs b), [], replicate 32 9)"

definition example_store :: MemoryStore where
  "example_store = [(KEY_GENESIS, genesis_hash last32 (genesis_new 1))]"

lemma example_store_ready:
  "replay_from_genesis last32 memory_store example_store (genesis_new 1) 5 example_apply = Some (Ok (5, genesis_hash last32 (genesis_new 1)))"
  "next_height memory_store example_store 0" "0 = hf_height (hd_fields (example_header 0))"
  "bt_get example_store (block_key 0) = None" "wf_wal (example_header 0) (example_block 0) [[1, 2]] (replicate 32 9)"
  "example_apply 5 (example_block 0) = (6, [], replicate 32 9)"
  "length (put_block_ops last32 (example_header 0) (example_block 0) [[1, 2]] (replicate 32 9)) = 7"
proof -
  have s: "get_genesis_hash memory_store example_store = Ok (Some (genesis_hash last32 (genesis_new 1)))"
    "tip memory_store example_store = Ok None" "bt_get example_store (block_key 0) = None"
    by (simp_all add: example_store_def get_genesis_hash_def tip_def mem.get_ok keys genesis_hash_def blake3_array_def)
  show "replay_from_genesis last32 memory_store example_store (genesis_new 1) 5 example_apply = Some (Ok (5, genesis_hash last32 (genesis_new 1)))"
    by (simp add: replay_from_genesis_def s)
  show "next_height memory_store example_store 0" by (simp add: next_height_def s)
  show "0 = hf_height (hd_fields (example_header 0))" by (simp add: example_header_def)
  show "bt_get example_store (block_key 0) = None" by (rule s)
  show "wf_wal (example_header 0) (example_block 0) [[1, 2]] (replicate 32 9)"
    using example_wf [of 0]
    by (simp add: wf_wal_def encode_wal_def length_canonical_encode length_counted length_header_preimage)
  show "example_apply 5 (example_block 0) = (6, [], replicate 32 9)"
    by (simp add: example_apply_def example_block_def)
  show "length (put_block_ops last32 (example_header 0) (example_block 0) [[1, 2]] (replicate 32 9)) = 7"
    by (simp add: put_block_ops_def put_header_ops_def tx_index_ops_def receipt_put_ops_def Let_def example_block_def)
qed


theorem crash_inside_block_write_witness:
  "\<exists>t. recover last32 memory_store (crash_store last32 memory_store example_store (example_header 0) (example_block 0) [[1, 2]] (replicate 32 9) 3)
      (genesis_new 1) 5 example_apply = Some (Ok 5, t) \<and> tip memory_store t = tip memory_store example_store"
  using crash_inside_block_write [OF example_store_ready(1-3,5), of 3] example_store_ready(7) by auto

end
