(* ===== verification/State_Version.thy ===== *)
theory State_Version
  imports Storage_Kv
begin

text \<open>
  Versioned slots for optimistic concurrency (\<open>version.rs\<close> of \<open>crates/state\<close>), over
  any store. The lemmas show that a write makes a new version readable, keeps the
  older ones, and makes validation of every older observation fail.
\<close>

section \<open>Definitions\<close>

type_synonym SlotVersion = u64

record VersionedRead =
  vr_version :: SlotVersion
  vr_value :: "bytes option"

definition SEP :: u8 where
  "SEP = 0x00"

definition version_key :: "bytes \<Rightarrow> SlotVersion \<Rightarrow> bytes" where
  "version_key key version = key @ [SEP] @ u64_be version"

definition slot_latest :: "'s StoreOps \<Rightarrow> 's \<Rightarrow> bytes \<Rightarrow> (SlotVersion, TypesError) result" where
  "slot_latest S s key =
    and_then (so_get S s key) (\<lambda>found.
      case found of
        None \<Rightarrow> Ok 0
      | Some b \<Rightarrow> if length b = 8 then Ok (u64_from_be b) else Err (Kv ''corrupt version header''))"

definition slot_read :: "'s StoreOps \<Rightarrow> 's \<Rightarrow> bytes \<Rightarrow> SlotVersion \<Rightarrow> (VersionedRead, TypesError) result" where
  "slot_read S s key version =
    (if version = 0 then Ok \<lparr>vr_version = 0, vr_value = None\<rparr>
     else and_then (so_get S s (version_key key version)) (\<lambda>v. Ok \<lparr>vr_version = version, vr_value = v\<rparr>))"

definition slot_write :: "'s StoreOps \<Rightarrow> 's \<Rightarrow> bytes \<Rightarrow> bytes \<Rightarrow> (SlotVersion, TypesError) result \<times> 's" where
  "slot_write S s key v =
    (case slot_latest S s key of
       Err e \<Rightarrow> (Err e, s)
     | Ok n \<Rightarrow>
         (let nxt = saturating_add n 1 in
          if nxt = 0 then (Err (Kv ''version overflow''), s)
          else then_do (apply_batch S s [Put key (u64_be nxt), Put (version_key key nxt) v])
                 (\<lambda>_ s'. (Ok nxt, s'))))"

definition slot_validate :: "'s StoreOps \<Rightarrow> 's \<Rightarrow> bytes \<Rightarrow> SlotVersion \<Rightarrow> (bool, TypesError) result" where
  "slot_validate S s key observed = and_then (slot_latest S s key) (\<lambda>n. Ok (n = observed))"

definition simulate_race :: "'s StoreOps \<Rightarrow> 's \<Rightarrow> bytes \<Rightarrow> (bool \<times> bool, TypesError) result \<times> 's" where
  "simulate_race S s key =
    (case and_then (slot_latest S s key) (\<lambda>n. and_then (slot_read S s key n) (\<lambda>r1.
          and_then (slot_latest S s key) (\<lambda>m. and_then (slot_read S s key m) (\<lambda>r2. Ok (r1, r2))))) of
       Err e \<Rightarrow> (Err e, s)
     | Ok (r1, r2) \<Rightarrow>
         then_do (slot_write S s key (ascii ''from-r1'')) (\<lambda>_ s.
           (case slot_validate S s key (vr_version r1) of
              Err e \<Rightarrow> (Err e, s)
            | Ok v1 \<Rightarrow>
                then_do (slot_write S s key (ascii ''from-r2'')) (\<lambda>_ s.
                  (case slot_validate S s key (vr_version r2) of
                     Err e \<Rightarrow> (Err e, s)
                   | Ok v2 \<Rightarrow> (Ok (v1, v2), s))))))"

fun latest_map ::
  "'s StoreOps \<Rightarrow> 's \<Rightarrow> bytes list \<Rightarrow> (bytes, SlotVersion) btree \<Rightarrow> ((bytes, SlotVersion) btree, TypesError) result" where
  "latest_map S s [] m = Ok m"
| "latest_map S s (k # ks) m =
    and_then (slot_latest S s k) (\<lambda>n. latest_map S s ks (bt_insert k n m))"

section \<open>Lemmas\<close>

lemma version_key_inject [simp]: "version_key k n = version_key k m \<longleftrightarrow> n = m"
  by (auto simp: version_key_def dest: arg_cong [of _ _ u64_from_be])

lemma version_key_other [simp]: "version_key k n \<noteq> k" "k \<noteq> version_key k n"
  by (auto simp: version_key_def)

definition wf_slot :: "(bytes \<rightharpoonup> bytes) \<Rightarrow> bytes \<Rightarrow> SlotVersion \<Rightarrow> bool" where
  "wf_slot m key n = (m key = (if n = 0 then None else Some (u64_be n)))"

lemma saturating_succ: "n \<noteq> - 1 \<Longrightarrow> saturating_add n 1 = (n + 1 :: u64)"
proof -
  assume "n \<noteq> - 1"
  then have "unat n \<noteq> 2 ^ 64 - 1" using unat_minus_one_max [where 'a = 64] by (simp add: word_unat_eq_iff)
  then have "unat n + 1 < 2 ^ 64" using unat_lt_pow [of n] by simp
  then show ?thesis by (simp add: saturating_add_def)
qed

context reliable_store
begin

lemma slot_latest_wf: "wf_slot (contents s) key n \<Longrightarrow> slot_latest S s key = Ok n"
  by (simp add: slot_latest_def wf_slot_def get_ok split: if_splits)

lemma slot_write_effect:
  assumes "wf_slot (contents s) key n" "n \<noteq> - 1"
  obtains s' where "slot_write S s key v = (Ok (n + 1), s')"
    "contents s' = (contents s)(key \<mapsto> u64_be (n + 1), version_key key (n + 1) \<mapsto> v)"
proof -
  obtain s' where "apply_batch S s [Put key (u64_be (n + 1)), Put (version_key key (n + 1)) v] = (Ok (), s')"
    "contents s' = ops_map (contents s) [Put key (u64_be (n + 1)), Put (version_key key (n + 1)) v]"
    by (rule batch)
  moreover have "n + 1 \<noteq> 0" using assms(2) by (metis add.inverse_unique add.commute)
  ultimately show thesis
    using that [of s'] slot_latest_wf [OF assms(1)] saturating_succ [OF assms(2)] by (simp add: slot_write_def)
qed

lemma slot_write_occ:
  assumes "wf_slot (contents s) key n" "n \<noteq> - 1"
  shows "\<exists>s'. slot_write S s key v = (Ok (n + 1), s') \<and> wf_slot (contents s') key (n + 1) \<and>
    slot_read S s' key (n + 1) = Ok \<lparr>vr_version = n + 1, vr_value = Some v\<rparr> \<and>
    (\<forall>j. j \<noteq> n + 1 \<longrightarrow> slot_read S s' key j = slot_read S s key j) \<and>
    (\<forall>j. slot_validate S s' key j = Ok (j = n + 1))"
proof -
  obtain s' where w: "slot_write S s key v = (Ok (n + 1), s')"
    "contents s' = (contents s)(key \<mapsto> u64_be (n + 1), version_key key (n + 1) \<mapsto> v)"
    by (rule slot_write_effect [OF assms])
  have "n + 1 \<noteq> 0" using assms(2) by (metis add.inverse_unique add.commute)
  then have wf: "wf_slot (contents s') key (n + 1)" by (simp add: wf_slot_def w(2))
  show ?thesis
    using w wf slot_latest_wf [OF wf] \<open>n + 1 \<noteq> 0\<close>
    by (auto simp: slot_read_def slot_validate_def get_ok)
qed

end

text \<open>
  Optimistic concurrency over versioned slots. A write to a slot at version n
  makes version n + 1 with the value written, leaves every other version of the
  slot as it was, and from then on validation accepts an observation exactly when
  it is of version n + 1. A race of two readers who both write invalidates both.
\<close>

theorem versioned_slot_occ:
  assumes "wf_slot (bt_get s) key n" "n \<noteq> - 1" "n + 1 \<noteq> - 1"
  shows "(\<exists>s'. slot_write memory_store s key v = (Ok (n + 1), s') \<and>
      slot_read memory_store s' key (n + 1) = Ok \<lparr>vr_version = n + 1, vr_value = Some v\<rparr> \<and>
      (\<forall>j. j \<noteq> n + 1 \<longrightarrow> slot_read memory_store s' key j = slot_read memory_store s key j) \<and>
      (\<forall>j. slot_validate memory_store s' key j = Ok (j = n + 1))) \<and>
    fst (simulate_race memory_store s key) = Ok (False, False)"
proof -
  have "\<exists>s'. simulate_race memory_store s key = (Ok (False, False), s')"
  proof -
    obtain r where r: "slot_read memory_store s key n = Ok r" "vr_version r = n"
      by (cases "n = 0") (auto simp: slot_read_def mem.get_ok)
    obtain s1 where 1: "slot_write memory_store s key (ascii ''from-r1'') = (Ok (n + 1), s1)"
      "wf_slot (bt_get s1) key (n + 1)" "slot_validate memory_store s1 key n = Ok (n = n + 1)"
      using mem.slot_write_occ [OF assms(1,2)] by blast
    obtain s2 where 2: "slot_write memory_store s1 key (ascii ''from-r2'') = (Ok (n + 1 + 1), s2)"
      "slot_validate memory_store s2 key n = Ok (n = n + 1 + 1)"
      using mem.slot_write_occ [OF 1(2) assms(3)] by blast
    have "n \<noteq> n + 1 + 1" by simp
    then show ?thesis
      using r 1 2 mem.slot_latest_wf [OF assms(1)] by (simp add: simulate_race_def)
  qed
  then show ?thesis using mem.slot_write_occ [OF assms(1,2), of v] by auto
qed

theorem versioned_slot_occ_witness:
  "\<exists>s'. slot_write memory_store [] [1, 2] [9] = (Ok 1, s') \<and> slot_validate memory_store s' [1, 2] 0 = Ok False"
  using versioned_slot_occ [of "[]" "[1, 2]" 0 "[9]"] by (auto simp: wf_slot_def)

end
