(* ===== verification/State_Node.thy ===== *)
theory State_Node
  imports Crypto
begin

unbundle bit_operations_syntax

text \<open>
  Paths and nodes of the Merkle Patricia trie (\<open>mpt/path.rs\<close>, \<open>mpt/node.rs\<close> of
  \<open>crates/state\<close>): nibble paths, hex-prefix packing, and the node payloads that
  are hashed. The lemmas show that the packing and the payload format are read
  back on every well-formed node.
\<close>

section \<open>Paths\<close>

definition bytes_to_nibbles :: "bytes \<Rightarrow> bytes" where
  "bytes_to_nibbles bs = concat (map (\<lambda>b. [drop_bit 4 b, b AND 0x0f]) bs)"

text \<open>The loop \<open>for i in (k..len).step_by(2)\<close>; its callers pass an even number of nibbles.\<close>

fun pack_pairs :: "bytes \<Rightarrow> bytes" where
  "pack_pairs (a # b # rest) = (push_bit 4 a OR b) # pack_pairs rest"
| "pack_pairs _ = []"

definition pack_hex_prefix :: "bytes \<Rightarrow> bool \<Rightarrow> bytes" where
  "pack_hex_prefix nibbles is_leaf =
    (let flags = (if is_leaf then 0x20 else 0x00) :: u8 in
     if length nibbles mod 2 = 1 then
       ((flags OR 0x10) OR (nibbles ! 0)) # pack_pairs (drop 1 nibbles)
     else flags # pack_pairs nibbles)"

definition unpack_hex_prefix :: "bytes \<Rightarrow> (bytes \<times> bool, TypesError) result" where
  "unpack_hex_prefix packed =
    (if packed = [] then Err (BadLength 1 0)
     else let flags = packed ! 0;
              is_leaf = (flags AND 0x20 \<noteq> 0);
              odd = (flags AND 0x10 \<noteq> 0);
              rest = concat (map (\<lambda>b. [drop_bit 4 b, b AND 0x0f]) (drop 1 packed))
          in Ok (if odd then (flags AND 0x0f) # rest else rest, is_leaf))"

definition encode_path :: "bytes \<Rightarrow> bool \<Rightarrow> bytes" where
  "encode_path nibbles is_leaf = canonical_encode (pack_hex_prefix nibbles is_leaf)"

definition decode_path :: "bytes \<Rightarrow> (bytes \<times> bool, TypesError) result" where
  "decode_path buf = and_then (canonical_decode buf) unpack_hex_prefix"

fun common_prefix_len :: "bytes \<Rightarrow> bytes \<Rightarrow> nat" where
  "common_prefix_len (x # xs) (y # ys) = (if x = y then Suc (common_prefix_len xs ys) else 0)"
| "common_prefix_len _ _ = 0"

section \<open>Nodes\<close>

datatype Node =
    NEmpty
  | NLeaf bytes bytes
  | NExtension bytes Hash
  | NBranch "Hash option list" "bytes option"

definition tag_payload :: "u8 \<Rightarrow> bytes \<Rightarrow> bytes" where
  "tag_payload kind rest = [kind] @ rest"

fun child_bytes :: "Hash option \<Rightarrow> bytes" where
  "child_bytes None = [0]"
| "child_bytes (Some h) = [1] @ h"

fun serialize_node :: "Node \<Rightarrow> bytes" where
  "serialize_node NEmpty = tag_payload 0 []"
| "serialize_node (NLeaf path value) =
    (let hp = pack_hex_prefix path True in
     tag_payload 1 (u32_be (of_nat (length hp)) @ hp @ u32_be (of_nat (length value)) @ value))"
| "serialize_node (NExtension path nxt) =
    (let hp = pack_hex_prefix path False in
     tag_payload 2 (u32_be (of_nat (length hp)) @ hp @ nxt))"
| "serialize_node (NBranch children value) =
    tag_payload 3 (concat (map child_bytes children) @
      (case value of
         None \<Rightarrow> [0]
       | Some v \<Rightarrow> [1] @ u32_be (of_nat (length v)) @ v))"

fun deserialize_children :: "nat \<Rightarrow> bytes \<Rightarrow> (Hash option list \<times> bytes) option" where
  "deserialize_children 0 rest = Some ([], rest)"
| "deserialize_children (Suc n) rest =
    (if rest = [] then None
     else if rest ! 0 = 0 then
       map_option (\<lambda>(cs, r). (None # cs, r)) (deserialize_children n (drop 1 rest))
     else if rest ! 0 = 1 \<and> length rest \<ge> 33 then
       map_option (\<lambda>(cs, r). (Some (slice 1 33 rest) # cs, r)) (deserialize_children n (drop 33 rest))
     else None)"

definition deserialize_leaf :: "bytes \<Rightarrow> Node option" where
  "deserialize_leaf rest =
    (if length rest < 4 then None
     else let hlen = unat (u32_from_be (slice 0 4 rest)) in
     if length rest < 4 + hlen + 4 then None
     else (case unpack_hex_prefix (slice 4 (4 + hlen) rest) of
             Err _ \<Rightarrow> None
           | Ok (path, is_leaf) \<Rightarrow>
               if \<not> is_leaf then None
               else let voff = 4 + hlen;
                        vlen = unat (u32_from_be (slice voff (voff + 4) rest))
                    in if voff + 4 + vlen \<le> length rest
                       then Some (NLeaf path (slice (voff + 4) (voff + 4 + vlen) rest))
                       else None))"

definition deserialize_extension :: "bytes \<Rightarrow> Node option" where
  "deserialize_extension rest =
    (if length rest < 4 then None
     else let hlen = unat (u32_from_be (slice 0 4 rest)) in
     if length rest < 4 + hlen + 32 then None
     else (case unpack_hex_prefix (slice 4 (4 + hlen) rest) of
             Err _ \<Rightarrow> None
           | Ok (path, is_leaf) \<Rightarrow>
               if is_leaf then None
               else Some (NExtension path (slice (4 + hlen) (4 + hlen + 32) rest))))"

definition deserialize_branch :: "bytes \<Rightarrow> Node option" where
  "deserialize_branch rest0 =
    (case deserialize_children 16 rest0 of
       None \<Rightarrow> None
     | Some (children, rest) \<Rightarrow>
         if rest = [] then None
         else if rest ! 0 = 0 then Some (NBranch children None)
         else if rest ! 0 = 1 \<and> length rest \<ge> 5 then
           (let vlen = unat (u32_from_be (slice 1 5 rest)) in
            if 5 + vlen \<le> length rest
            then Some (NBranch children (Some (slice 5 (5 + vlen) rest)))
            else None)
         else None)"

definition deserialize_node :: "bytes \<Rightarrow> Node option" where
  "deserialize_node payload =
    (if payload = [] then None
     else if payload ! 0 = 0 then Some NEmpty
     else if payload ! 0 = 1 then deserialize_leaf (drop 1 payload)
     else if payload ! 0 = 2 then deserialize_extension (drop 1 payload)
     else if payload ! 0 = 3 then deserialize_branch (drop 1 payload)
     else None)"

definition hash_encoded :: "(bytes \<Rightarrow> Hash) \<Rightarrow> bytes \<Rightarrow> Hash" where
  "hash_encoded H payload = hash_to_array H (apply_domain MptNodeTag (canonical_encode payload))"

definition hash_node :: "(bytes \<Rightarrow> Hash) \<Rightarrow> Node \<Rightarrow> Hash" where
  "hash_node H node = hash_encoded H (serialize_node node)"

definition empty_root :: "(bytes \<Rightarrow> Hash) \<Rightarrow> Hash" where
  "empty_root H = hash_node H NEmpty"

section \<open>Packing is read back\<close>

definition nibs :: "bytes \<Rightarrow> bool" where
  "nibs k = (\<forall>x\<in>set k. x < 16)"

lemma nibs_simps [simp]:
  "nibs []" "nibs (x # k) \<longleftrightarrow> x < 16 \<and> nibs k" "nibs (k @ l) \<longleftrightarrow> nibs k \<and> nibs l"
  by (auto simp: nibs_def)

lemma nibs_drop [simp]: "nibs k \<Longrightarrow> nibs (drop n k)" and nibs_take [simp]: "nibs k \<Longrightarrow> nibs (take n k)"
  by (auto simp: nibs_def dest: in_set_dropD in_set_takeD)

text \<open>Facts on one byte and its two nibbles, checked on all values.\<close>

lemma nibble_cases:
  fixes a :: u8
  assumes "a < 16"
  shows "a \<in> set [0, 1, 2, 3, 4, 5, 6, 7, 8, 9, 10, 11, 12, 13, 14, 15]"
proof -
  have "unat a < 16" using assms by (simp add: word_less_nat_alt)
  then have "unat a \<in> set [0..<16]" by simp
  then show ?thesis by (auto simp: word_unat_eq_iff upt_rec)
qed

lemma all_nibbles:
  assumes "list_all P [0, 1, 2, 3, 4, 5, 6, 7, 8, 9, 10, 11, 12, 13, 14, 15 :: u8]" "a < 16"
  shows "P a"
  using assms(1) nibble_cases [OF assms(2)] by (auto simp: list_all_iff)

lemma join_nibbles:
  fixes a b :: u8
  assumes "a < 16" "b < 16"
  shows "drop_bit 4 (push_bit 4 a OR b) = a \<and> (push_bit 4 a OR b) AND 0x0f = b"
proof -
  have "list_all (\<lambda>a. list_all (\<lambda>b. drop_bit 4 (push_bit 4 a OR b) = a \<and> (push_bit 4 a OR b) AND 0x0f = b)
      [0, 1, 2, 3, 4, 5, 6, 7, 8, 9, 10, 11, 12, 13, 14, 15]) [0, 1, 2, 3, 4, 5, 6, 7, 8, 9, 10, 11, 12, 13, 14, 15 :: u8]"
    by code_simp
  from all_nibbles [OF this assms(1)] show ?thesis
    using all_nibbles [OF _ assms(2)] by blast
qed

lemma join_nibbles_high: "a < 16 \<Longrightarrow> b < 16 \<Longrightarrow> drop_bit 4 (push_bit 4 a) OR drop_bit 4 b = (a :: u8)"
  using join_nibbles [of a b] by simp

lemma flag_bits:
  fixes a f :: u8
  assumes "a < 16" "f = 0x20 \<or> f = 0"
  shows "((f OR 0x10) OR a) AND 0x20 = f \<and> ((f OR 0x10) OR a) AND 0x10 \<noteq> 0 \<and>
    ((f OR 0x10) OR a) AND 0x0f = a \<and> f AND 0x20 = f \<and> f AND 0x10 = 0"
proof -
  have "list_all (\<lambda>a. list_all (\<lambda>f. ((f OR 0x10) OR a) AND 0x20 = f \<and> ((f OR 0x10) OR a) AND 0x10 \<noteq> 0 \<and>
      ((f OR 0x10) OR a) AND 0x0f = a \<and> f AND 0x20 = f \<and> f AND 0x10 = 0) [0x20, 0])
      [0, 1, 2, 3, 4, 5, 6, 7, 8, 9, 10, 11, 12, 13, 14, 15 :: u8]"
    by code_simp
  moreover have "f \<in> set [0x20, 0]" using assms(2) by auto
  ultimately show ?thesis
    using all_nibbles [OF _ assms(1)] unfolding list_all_iff by blast
qed

lemma unat_nibbles:
  fixes b :: u8
  shows "unat (drop_bit 4 b) = unat b div 16" "unat (b AND 0x0f) = unat b mod 16"
proof -
  show "unat (drop_bit 4 b) = unat b div 16" 
    unfolding unat_drop_bit_eq by (simp add: drop_bit_eq_div)
  have "b AND 0x0f = take_bit 4 b" by (simp add: take_bit_eq_mask mask_eq_exp_minus_1)
  show "unat (b AND 0x0f) = unat b mod 16"
    unfolding \<open>b AND 0x0f = take_bit 4 b\<close> unsigned_take_bit_eq by (simp add: take_bit_eq_mod)
qed

lemma nibs_bytes_to_nibbles [simp]: "nibs (bytes_to_nibbles k)"
proof -
  have "drop_bit 4 b < 16 \<and> b AND 0x0f < 16" for b :: u8
    using unat_lt_pow [of b] by (simp add: word_less_nat_alt unat_nibbles)
  then show ?thesis by (auto simp: nibs_def bytes_to_nibbles_def)
qed

lemma bytes_to_nibbles_inject [simp]: "bytes_to_nibbles k = bytes_to_nibbles l \<longleftrightarrow> k = l"
proof (induction k arbitrary: l)
  case Nil
  then show ?case by (cases l) (simp_all add: bytes_to_nibbles_def)
next
  case (Cons b k)
  show ?case
  proof (cases l)
    case (Cons c l')
    have "b = c" if "drop_bit 4 b = drop_bit 4 c" "b AND 0x0f = c AND 0x0f"
      using that arg_cong [of _ _ unat]
      by (metis div_mult_mod_eq unat_nibbles word_unat_eq_iff)
    then show ?thesis using Cons.IH [of l'] by (auto simp: Cons bytes_to_nibbles_def)
  qed (simp add: bytes_to_nibbles_def)
qed

lemma unpack_pairs:
  "nibs ns \<Longrightarrow> even (length ns) \<Longrightarrow> concat (map (\<lambda>b. [drop_bit 4 b, b AND 0x0f]) (pack_pairs ns)) = ns"
  by (induction ns rule: pack_pairs.induct) (auto simp: join_nibbles join_nibbles_high)

lemma length_pack_pairs: "length (pack_pairs ns) = length ns div 2"
  by (induction ns rule: pack_pairs.induct) auto

lemma length_pack_hex_prefix: "length (pack_hex_prefix ns l) = 1 + length ns div 2"
  by (auto simp: pack_hex_prefix_def Let_def length_pack_pairs) presburger

lemma unpack_pack:
  assumes "nibs ns"
  shows "unpack_hex_prefix (pack_hex_prefix ns l) = Ok (ns, l)"
proof (cases "odd (length ns)")
  case True
  then obtain n ns' where ns: "ns = n # ns'" by (cases ns) auto
  then have "even (length ns')" "n < 16" "nibs ns'" using True assms by auto
  moreover from this(1) have "Suc (length ns') mod 2 = 1" by presburger
  ultimately show ?thesis
    using flag_bits [of n 32] flag_bits [of n 0] unpack_pairs [of ns']
    by (cases l) (simp_all add: unpack_hex_prefix_def pack_hex_prefix_def ns)
next
  case False
  then show ?thesis
    using flag_bits [of 0 32] flag_bits [of 0 0] unpack_pairs [OF assms]
    by (cases l) (simp_all add: unpack_hex_prefix_def pack_hex_prefix_def)
qed

lemma decode_encode_path:
  "nibs ns \<Longrightarrow> length ns < 2 ^ 32 \<Longrightarrow> decode_path (encode_path ns l) = Ok (ns, l)"
  by (simp add: decode_path_def encode_path_def canonical_decode_encode length_pack_hex_prefix unpack_pack)

section \<open>Payloads are read back\<close>

fun wf_node :: "Node \<Rightarrow> bool" where
  "wf_node NEmpty = True"
| "wf_node (NLeaf path value) = (nibs path \<and> length path < 2 ^ 32 \<and> length value < 2 ^ 32)"
| "wf_node (NExtension path nxt) = (nibs path \<and> length path < 2 ^ 32 \<and> length nxt = 32)"
| "wf_node (NBranch children value) =
    (length children = 16 \<and> (\<forall>h. Some h \<in> set children \<longrightarrow> length h = 32) \<and>
     (\<forall>v. value = Some v \<longrightarrow> length v < 2 ^ 32))"

lemma deserialize_children_bytes:
  "\<forall>h. Some h \<in> set cs \<longrightarrow> length h = 32 \<Longrightarrow>
    deserialize_children (length cs) (concat (map child_bytes cs) @ r) = Some (cs, r)"
proof (induction cs)
  case (Cons c cs)
  then show ?case by (cases c) (simp_all add: slice_def)
qed simp

lemma hp_prefix:
  fixes l
  assumes "length path < 2 ^ 32"
  defines "hp \<equiv> pack_hex_prefix path l"
  shows "unat (u32_from_be (slice 0 4 (u32_be (of_nat (length hp)) @ hp @ r))) = length hp"
    "slice 4 (4 + length hp) (u32_be (of_nat (length hp)) @ hp @ r) = hp"
proof -
  have "length hp < 2 ^ 32" using assms(1) by (simp add: hp_def length_pack_hex_prefix)
  then show "unat (u32_from_be (slice 0 4 (u32_be (of_nat (length hp)) @ hp @ r))) = length hp"
    by (simp add: slice_def unat_u32_of_nat)
  show "slice 4 (4 + length hp) (u32_be (of_nat (length hp)) @ hp @ r) = hp" by (simp add: slice_def)
qed

lemma deserialize_serialize:
  assumes "wf_node n"
  shows "deserialize_node (serialize_node n) = Some n"
proof (cases n)
  case NEmpty
  then show ?thesis by (simp add: deserialize_node_def tag_payload_def)
next
  case (NLeaf path val)
  let ?hp = "pack_hex_prefix path True"
  let ?v = "u32_be (of_nat (length val)) @ val"
  have wf: "nibs path" "length path < 2 ^ 32" "length val < 2 ^ 32" using assms by (simp_all add: NLeaf)
  note hp = hp_prefix [OF wf(2), of True ?v]
  have "slice (4 + length ?hp) (4 + length ?hp + 4) (u32_be (of_nat (length ?hp)) @ ?hp @ ?v) = u32_be (of_nat (length val))"
    "slice (4 + length ?hp + 4) (4 + length ?hp + 4 + length val) (u32_be (of_nat (length ?hp)) @ ?hp @ ?v) = val"
    by (simp_all add: slice_def)
  then have "deserialize_leaf (u32_be (of_nat (length ?hp)) @ ?hp @ ?v) = Some (NLeaf path val)"
    using hp wf(3) unpack_pack [OF wf(1)] by (simp add: deserialize_leaf_def Let_def unat_u32_of_nat)
  then show ?thesis by (simp add: NLeaf deserialize_node_def tag_payload_def Let_def)
next
  case (NExtension path nxt)
  let ?hp = "pack_hex_prefix path False"
  have wf: "nibs path" "length path < 2 ^ 32" "length nxt = 32" using assms by (simp_all add: NExtension)
  note hp = hp_prefix [OF wf(2), of False nxt]
  have "slice (4 + length ?hp) (4 + length ?hp + 32) (u32_be (of_nat (length ?hp)) @ ?hp @ nxt) = nxt"
    using wf(3) by (simp add: slice_def)
  then have "deserialize_extension (u32_be (of_nat (length ?hp)) @ ?hp @ nxt) = Some (NExtension path nxt)"
    using hp wf(3) unpack_pack [OF wf(1)] by (simp add: deserialize_extension_def Let_def)
  then show ?thesis by (simp add: NExtension deserialize_node_def tag_payload_def Let_def)
next
  case (NBranch children val)
  have wf: "length children = 16" "\<forall>h. Some h \<in> set children \<longrightarrow> length h = 32"
    "\<forall>v. val = Some v \<longrightarrow> length v < 2 ^ 32"
    using assms by (simp_all add: NBranch)
  note cs = deserialize_children_bytes [OF wf(2), unfolded wf(1)]
  show ?thesis
    using wf(3)
    by (cases val)
      (simp_all add: NBranch deserialize_node_def deserialize_branch_def tag_payload_def cs slice_def unat_u32_of_nat)
qed

interpretation node_format: codec serialize_node "\<lambda>b. ok_or () (deserialize_node b)" wf_node
  by unfold_locales (simp add: deserialize_serialize)

end
