(* ===== verification/State_Trie.thy ===== *)
theory State_Trie
  imports State_Node Storage_Kv
begin

text \<open>
  The Patricia trie as a tree: the reference that the hash-addressed trie of
  \<open>mpt/mod.rs\<close> implements. Lookup, insertion and deletion follow the cases of the
  code, on subtrees in place of node hashes. The lemmas show that the tree is a
  map from paths to values and that its canonical form, which the operations
  keep, is unique for its contents.
\<close>

section \<open>Definitions\<close>

datatype mpt =
    TEmpty
  | TLeaf bytes bytes
  | TExt bytes mpt
  | TBranch "mpt option list" "bytes option"

function t_get :: "mpt \<Rightarrow> bytes \<Rightarrow> bytes option" where
  "t_get TEmpty k = None"
| "t_get (TLeaf p v) k = (if p = k then Some v else None)"
| "t_get (TExt p n) k = (if starts_with k p then t_get n (drop (length p) k) else None)"
| "t_get (TBranch cs v) [] = v"
| "t_get (TBranch cs v) (n # r) =
    (case cs ! unat n of None \<Rightarrow> None | Some c \<Rightarrow> t_get c r)"
  by pat_completeness auto
termination
  by (relation "measures [\<lambda>(t, k). length k, \<lambda>(t, k). size t]") auto

text \<open>An extension, or the node itself when the shared path is empty.\<close>

definition t_ext :: "bytes \<Rightarrow> mpt \<Rightarrow> mpt" where
  "t_ext p n = (if p = [] then n else TExt p n)"

definition no_children :: "mpt option list" where
  "no_children = replicate 16 None"

fun put_rest :: "bytes \<Rightarrow> bytes \<Rightarrow> mpt option list \<times> bytes option \<Rightarrow> mpt option list \<times> bytes option" where
  "put_rest [] v (cs, bv) = (cs, Some v)"
| "put_rest (n # r) v (cs, bv) = (cs[unat n := Some (TLeaf r v)], bv)"

definition t_split :: "bytes \<Rightarrow> bytes \<Rightarrow> bytes \<Rightarrow> bytes \<Rightarrow> mpt" where
  "t_split a_rest a_val b_rest b_val =
    (case put_rest b_rest b_val (put_rest a_rest a_val (no_children, None)) of
       (cs, bv) \<Rightarrow> TBranch cs bv)"

function t_insert :: "mpt \<Rightarrow> bytes \<Rightarrow> bytes \<Rightarrow> mpt" where
  "t_insert TEmpty k v = TLeaf k v"
| "t_insert (TLeaf p w) k v =
    (if p = k then TLeaf p v
     else let cp = common_prefix_len p k
          in t_ext (take cp p) (t_split (drop cp p) w (drop cp k) v))"
| "t_insert (TExt p n) k v =
    (if starts_with k p then TExt p (t_insert n (drop (length p) k) v)
     else let cp = common_prefix_len p k;
              cs = no_children[unat (p ! cp) := Some (t_ext (drop (Suc cp) p) n)]
          in if length k = cp then t_ext k (TBranch cs (Some v))
             else t_ext (take cp p)
               (TBranch (cs[unat (k ! cp) := Some (TLeaf (drop (Suc cp) k) v)]) None))"
| "t_insert (TBranch cs bv) [] v = TBranch cs (Some v)"
| "t_insert (TBranch cs bv) (n # r) v =
    TBranch (cs[unat n := Some (t_insert (case cs ! unat n of Some c \<Rightarrow> c | None \<Rightarrow> TEmpty) r v)]) bv"
  by pat_completeness auto
termination
  by (relation "measures [\<lambda>(t, k, v). length k, \<lambda>(t, k, v). size t]") auto

fun t_prefix :: "u8 \<Rightarrow> mpt \<Rightarrow> mpt" where
  "t_prefix n (TLeaf p v) = TLeaf (n # p) v"
| "t_prefix n (TExt p c) = TExt (n # p) c"
| "t_prefix n (TBranch cs v) = TExt [n] (TBranch cs v)"
| "t_prefix n TEmpty = TEmpty"

fun t_normalize :: "bytes \<Rightarrow> mpt \<Rightarrow> mpt" where
  "t_normalize p TEmpty = TEmpty"
| "t_normalize p (TLeaf q v) = TLeaf (p @ q) v"
| "t_normalize p (TExt q c) = TExt (p @ q) c"
| "t_normalize p (TBranch cs v) = TExt p (TBranch cs v)"

definition present :: "'a option list \<Rightarrow> (nat \<times> 'a) list" where
  "present cs = concat (map (\<lambda>(i, c). case c of Some h \<Rightarrow> [(i, h)] | None \<Rightarrow> []) (enumerate 0 cs))"

definition t_collapse :: "mpt option list \<Rightarrow> bytes option \<Rightarrow> mpt option" where
  "t_collapse cs v =
    (case (present cs, v) of
       ([], None) \<Rightarrow> None
     | ([], Some w) \<Rightarrow> Some (TLeaf [] w)
     | ([(i, c)], None) \<Rightarrow> Some (t_prefix (of_nat i) c)
     | _ \<Rightarrow> Some (TBranch cs v))"

function t_remove :: "mpt \<Rightarrow> bytes \<Rightarrow> mpt option" where
  "t_remove TEmpty k = None"
| "t_remove (TLeaf p v) k = (if p = k then None else Some (TLeaf p v))"
| "t_remove (TExt p n) k =
    (if \<not> starts_with k p then Some (TExt p n)
     else map_option (t_normalize p) (t_remove n (drop (length p) k)))"
| "t_remove (TBranch cs v) [] =
    (if v = None then Some (TBranch cs None) else t_collapse cs None)"
| "t_remove (TBranch cs v) (n # r) =
    (case cs ! unat n of
       None \<Rightarrow> Some (TBranch cs v)
     | Some c \<Rightarrow>
         (case t_remove c r of
            None \<Rightarrow> t_collapse (cs[unat n := None]) v
          | Some c' \<Rightarrow> Some (TBranch (cs[unat n := Some c']) v)))"
  by pat_completeness auto
termination
  by (relation "measures [\<lambda>(t, k). length k, \<lambda>(t, k). size t]") auto

definition t_delete :: "mpt \<Rightarrow> bytes \<Rightarrow> mpt" where
  "t_delete t k =
    (if t_get t k = None then t
     else case t_remove t k of Some t' \<Rightarrow> t' | None \<Rightarrow> TEmpty)"

text \<open>Well-formed trees: paths are nibbles and branches have sixteen children.\<close>

lemma size_child: "Some c \<in> set cs \<Longrightarrow> size c < size (TBranch cs v)"
  by (induction cs) (auto)

fun wf_mpt :: "mpt \<Rightarrow> bool" where
  "wf_mpt TEmpty = True"
| "wf_mpt (TLeaf p v) = nibs p"
| "wf_mpt (TExt p n) = (nibs p \<and> wf_mpt n)"
| "wf_mpt (TBranch cs v) =
    (length cs = 16 \<and> list_all (\<lambda>c. case c of None \<Rightarrow> True | Some t \<Rightarrow> wf_mpt t) cs)"

lemma wf_mpt_child: "wf_mpt (TBranch cs v) \<Longrightarrow> i < 16 \<Longrightarrow> cs ! i = Some c \<Longrightarrow> wf_mpt c"
  by (force simp: list_all_length split: option.splits)

section \<open>The tree is a map\<close>

lemma starts_with_append [simp]: "starts_with (p @ q) p"
  by (simp add: starts_with_def)

lemma starts_withE: "starts_with k p \<Longrightarrow> (\<And>q. k = p @ q \<Longrightarrow> P) \<Longrightarrow> P"
  by (metis append_take_drop_id starts_with_def)

lemma starts_with_Nil [simp]: "starts_with k []"
  by (simp add: starts_with_def)

lemma starts_with_append_iff [simp]: "starts_with (c @ k) (c @ p) \<longleftrightarrow> starts_with k p"
  by (simp add: starts_with_def)

lemma starts_with_Cons [simp]: "starts_with (x # k) (y # p) \<longleftrightarrow> x = y \<and> starts_with k p"
  "\<not> starts_with [] (y # p)"
  by (auto simp: starts_with_def)

lemma starts_with_self [simp]: "starts_with c (c @ q) \<longleftrightarrow> q = []"
  using starts_with_append_iff [of c "[]" q] by (cases q) simp_all

lemma starts_with_refl [simp]: "starts_with c c"
  by (simp add: starts_with_def)

lemma starts_with_appendD: "starts_with k (p @ q) \<Longrightarrow> starts_with k p"
  by (auto elim!: starts_withE)

lemma common_prefix_append [simp]:
  "common_prefix_len (c @ p) (c @ k) = length c + common_prefix_len p k"
  "common_prefix_len (c @ p) c = length c" "common_prefix_len c (c @ k) = length c"
  by (induction c) simp_all

lemma common_prefix_split:
  obtains c p' k' where "p = c @ p'" "k = c @ k'" "common_prefix_len p' k' = 0"
    "p' = [] \<or> k' = [] \<or> hd p' \<noteq> hd k'"
proof -
  have "\<exists>c p' k'. p = c @ p' \<and> k = c @ k' \<and> common_prefix_len p' k' = 0 \<and>
      (p' = [] \<or> k' = [] \<or> hd p' \<noteq> hd k')"
  proof (induction p k rule: common_prefix_len.induct)
    case (1 x xs y ys)
    show ?case
    proof (cases "x = y")
      case True
      then obtain c p' k' where "xs = c @ p'" "ys = c @ k'" "common_prefix_len p' k' = 0"
        "p' = [] \<or> k' = [] \<or> hd p' \<noteq> hd k'" using 1 by auto
      then show ?thesis using True by (intro exI [of _ "x # c"] exI [of _ p'] exI [of _ k']) simp
    next
      case False
      then show ?thesis by (intro exI [of _ "[]"] exI [of _ "x # xs"] exI [of _ "y # ys"]) simp
    qed
  qed auto
  then show ?thesis using that by blast
qed

lemma get_t_ext: "t_get (t_ext p n) k = (if starts_with k p then t_get n (drop (length p) k) else None)"
  by (simp add: t_ext_def)

lemma nibble_less: "x < 16 \<Longrightarrow> unat (x :: u8) < 16"
  by (simp add: word_less_nat_alt)

lemma no_children_nth [simp]: "i < 16 \<Longrightarrow> no_children ! i = None" "length no_children = 16"
  by (simp_all add: no_children_def)

lemma unat_eq_iff8: "unat (x :: u8) = unat y \<longleftrightarrow> x = y"
  by (simp add: word_unat_eq_iff)

lemma get_t_split:
  assumes "nibs a" "nibs b" "nibs q" "a \<noteq> b" "a = [] \<or> b = [] \<or> hd a \<noteq> hd b"
  shows "t_get (t_split a w b v) q = (if q = b then Some v else if q = a then Some w else None)"
  using assms
  by (cases a; cases b; cases q)
    (auto simp: t_split_def nth_list_update nibble_less unat_eq_iff8 split: if_splits)

lemma get_insert_ext:
  fixes n :: mpt and v :: bytes
  assumes "nibs (c @ x # rest)" "nibs (c @ k')" "nibs q" "k' = [] \<or> hd k' \<noteq> x"
  defines "cs \<equiv> no_children[unat x := Some (t_ext rest n)]"
  shows "k' = [] \<Longrightarrow> t_get (t_ext c (TBranch cs (Some v))) q =
      (if q = c then Some v else t_get (TExt (c @ x # rest) n) q)"
    and "k' \<noteq> [] \<Longrightarrow> t_get (t_ext c (TBranch (cs[unat (hd k') := Some (TLeaf (tl k') v)]) None)) q =
      (if q = c @ k' then Some v else t_get (TExt (c @ x # rest) n) q)"
proof -
  have x: "unat x < 16" using assms(1) by (simp add: nibble_less)
  have ext: "t_get (TExt (c @ x # rest) n) (c @ q') =
      (case q' of y # r \<Rightarrow> if y = x \<and> starts_with r rest then t_get n (drop (length rest) r) else None
       | [] \<Rightarrow> None)" for q'
    by (cases q') auto
  have out: "t_get (TExt (c @ x # rest) n) q = None" if "\<not> starts_with q c"
    using that by (auto dest: starts_with_appendD)
  show "t_get (t_ext c (TBranch cs (Some v))) q =
      (if q = c then Some v else t_get (TExt (c @ x # rest) n) q)"
  proof (cases "starts_with q c")
    case True
    then obtain q' where q: "q = c @ q'" by (rule starts_withE)
    then have "nibs q'" using assms(3) by simp
    then show ?thesis
      using x unfolding q get_t_ext ext
      by (cases q') (auto simp: cs_def nth_list_update nibble_less unat_eq_iff8 get_t_ext)
  next
    case False
    then show ?thesis using out by (auto simp: get_t_ext)
  qed
  assume "k' \<noteq> []"
  then obtain y r where k': "k' = y # r" "y \<noteq> x" "unat y < 16"
    using assms(2,4) by (cases k') (auto simp: nibble_less)
  show "t_get (t_ext c (TBranch (cs[unat (hd k') := Some (TLeaf (tl k') v)]) None)) q =
      (if q = c @ k' then Some v else t_get (TExt (c @ x # rest) n) q)"
  proof (cases "starts_with q c")
    case True
    then obtain q' where q: "q = c @ q'" by (rule starts_withE)
    then have "nibs q'" using assms(3) by simp
    then show ?thesis
      using x k' unfolding q get_t_ext ext
      by (cases q') (auto simp: cs_def nth_list_update nibble_less unat_eq_iff8 get_t_ext)
  next
    case False
    then show ?thesis using out by (auto simp: get_t_ext)
  qed
qed

lemma t_get_insert:
  assumes "wf_mpt t" "nibs k" "nibs q"
  shows "t_get (t_insert t k v) q = (if q = k then Some v else t_get t q)"
  using assms
proof (induction t k v arbitrary: q rule: t_insert.induct)
  case (2 p w k v)
  obtain c p' k' where c: "p = c @ p'" "k = c @ k'" "common_prefix_len p' k' = 0"
    "p' = [] \<or> k' = [] \<or> hd p' \<noteq> hd k'" by (rule common_prefix_split)
  show ?case
  proof (cases "p = k \<or> \<not> starts_with q c")
    case True
    then show ?thesis by (auto simp: c get_t_ext)
  next
    case False
    then obtain q' where "q = c @ q'" by (blast elim: starts_withE)
    then show ?thesis
      using False 2 get_t_split [of p' k' q' w v] c(4) by (auto simp: c(1-3) get_t_ext)
  qed
next
  case (3 p n k v)
  show ?case
  proof (cases "starts_with k p")
    case True
    then obtain r where k: "k = p @ r" by (rule starts_withE)
    show ?thesis
    proof (cases "starts_with q p")
      case True
      then obtain q' where "q = p @ q'" by (rule starts_withE)
      then show ?thesis using 3 k by simp
    next
      case False
      then show ?thesis using k by auto
    qed
  next
    case False
    obtain c p' k' where c: "p = c @ p'" "k = c @ k'" "common_prefix_len p' k' = 0"
      "p' = [] \<or> k' = [] \<or> hd p' \<noteq> hd k'" by (rule common_prefix_split)
    then obtain x rest where p': "p' = x # rest" using False by (cases p') auto
    have ne: "k' = [] \<or> hd k' \<noteq> x" using c(4) by (auto simp: p')
    have nibs: "nibs (c @ x # rest)" "nibs (c @ k')" using 3 by (simp_all add: c p')
    show ?thesis
    proof (cases k')
      case Nil
      then show ?thesis
        using False get_insert_ext(1) [OF nibs 3(4) ne, of n v] by (simp add: c(1,2) p' Let_def)
    next
      case (Cons y r)
      then show ?thesis
        using False ne get_insert_ext(2) [OF nibs 3(4) ne, of n v] by (simp add: c(1,2) p' Let_def)
    qed
  qed
next
  case (5 cs bv n r v)
  have n: "unat n < 16" "length cs = 16" using 5 by (simp_all add: nibble_less)
  have wf: "wf_mpt (case cs ! unat n of Some c \<Rightarrow> c | None \<Rightarrow> TEmpty)"
    using wf_mpt_child [OF 5(2) n(1)] by (simp split: option.split)
  show ?case
  proof (cases q)
    case (Cons m q')
    then show ?thesis
      using 5 wf n by (auto simp: nth_list_update unat_eq_iff8 nibble_less split: option.splits)
  qed simp
next
  case (4 cs bv v)
  then show ?case by (cases q) auto
qed auto

lemma wf_update:
  "wf_mpt (TBranch cs v) \<Longrightarrow> wf_mpt c \<Longrightarrow> wf_mpt (TBranch (cs[i := Some c]) w)"
  "wf_mpt (TBranch cs v) \<Longrightarrow> wf_mpt (TBranch (cs[i := None]) w)"
  by (auto simp: list_all_iff dest!: set_update_subset_insert [THEN subsetD] split: option.split)

lemma wf_no_children [simp]: "wf_mpt (TBranch no_children v)"
  by (simp add: no_children_def list_all_iff)

lemma wf_t_ext [simp]: "nibs p \<Longrightarrow> wf_mpt n \<Longrightarrow> wf_mpt (t_ext p n)"
  by (simp add: t_ext_def)

lemma wf_t_insert: "wf_mpt t \<Longrightarrow> nibs k \<Longrightarrow> wf_mpt (t_insert t k v)"
proof (induction t k v rule: t_insert.induct)
  case (2 p w k v)
  have "wf_mpt (t_split a w b v)" if "nibs a" "nibs b" for a b
    using that
    by (cases a; cases b) (auto simp: t_split_def simp del: wf_mpt.simps(4) intro!: wf_update [where v = None])
  with 2 show ?case by (simp add: Let_def)
next
  case (3 p n k v)
  obtain c p' k' where c: "p = c @ p'" "k = c @ k'" "common_prefix_len p' k' = 0" by (rule common_prefix_split)
  have "nibs (drop i p)" "nibs (drop i k)" for i using 3 by simp_all
  then show ?case
    using 3
    by (auto simp: Let_def simp del: wf_mpt.simps(4) intro!: wf_update [where v = None] wf_t_ext)
next
  case (5 cs bv n r v)
  then have "wf_mpt (case cs ! unat n of Some c \<Rightarrow> c | None \<Rightarrow> TEmpty)"
    using wf_mpt_child [of cs bv "unat n"] by (simp add: nibble_less split: option.split)
  with 5 show ?case by (auto intro!: wf_update simp del: wf_mpt.simps(4))
qed auto

subsection \<open>Deletion\<close>

lemma get_t_prefix:
  "t_get (t_prefix n t) k = (case k of [] \<Rightarrow> None | m # r \<Rightarrow> if m = n then t_get t r else None)"
  by (cases t; cases k) auto

lemma get_t_normalize: "t_get (t_normalize p t) k = t_get (TExt p t) k"
proof (cases t)
  case (TExt q c)
  then show ?thesis
    by (cases "starts_with k p") (auto elim!: starts_withE dest: starts_with_appendD)
next
  case (TLeaf q v)
  then show ?thesis
    by (cases "starts_with k p") (auto elim!: starts_withE)
qed auto

lemma set_present: "(i, c) \<in> set (present cs) \<longleftrightarrow> i < length cs \<and> cs ! i = Some c"
  by (force simp: present_def in_set_enumerate_eq split: option.splits)

text \<open>Collapsing keeps the contents of the branch.\<close>

definition opt_get :: "mpt option \<Rightarrow> bytes \<Rightarrow> bytes option" where
  "opt_get t k = (case t of None \<Rightarrow> None | Some t \<Rightarrow> t_get t k)"

lemma opt_get_simps [simp]: "opt_get None k = None" "opt_get (Some t) k = t_get t k"
  by (simp_all add: opt_get_def)

lemma get_t_branch:
  "t_get (TBranch cs v) k = (case k of [] \<Rightarrow> v | n # r \<Rightarrow> opt_get (cs ! unat n) r)"
  by (cases k) (simp_all add: opt_get_def split: option.split)

lemma present_Nil_nth: "present cs = [] \<Longrightarrow> i < length cs \<Longrightarrow> cs ! i = None"
  using set_present [of i _ cs] by (cases "cs ! i") auto

lemma present_one_nth:
  assumes "present cs = [(j, c)]" "i < length cs"
  shows "cs ! i = (if i = j then Some c else None)"
  using assms set_present [of i _ cs] set_present [of j c cs] by (cases "cs ! i") auto

lemma get_t_collapse:
  assumes "length cs = 16" "nibs k"
  shows "opt_get (t_collapse cs v) k = t_get (TBranch cs v) k"
proof -
  have nth: "\<And>n r. k = n # r \<Longrightarrow> unat n < length cs" using assms by (simp add: nibble_less)
  consider "present cs = []" | j c where "present cs = [(j, c)]" "v = None"
    | "t_collapse cs v = Some (TBranch cs v)"
    by (cases "(present cs, v)" rule: prod.exhaust; cases "present cs"; cases v; cases "tl (present cs)")
      (auto simp: t_collapse_def split: prod.splits list.splits)
  then show ?thesis
  proof cases
    case 1
    then show ?thesis
      using nth present_Nil_nth [OF 1]
      by (cases v; cases k) (auto simp: t_collapse_def get_t_branch)
  next
    case (2 j c)
    then have j: "j < 16" using set_present [of j c cs] assms(1) by simp
    then have "unat (of_nat j :: u8) = j" by (simp add: unat_of_nat)
    then show ?thesis
      using nth present_one_nth [OF 2(1)] 2
      by (cases k) (auto simp: t_collapse_def get_t_branch get_t_prefix)
  qed simp
qed

lemma opt_get_normalize: "opt_get (map_option (t_normalize p) t) k =
    (if starts_with k p then opt_get t (drop (length p) k) else None)"
  by (cases t) (simp_all add: get_t_normalize)

lemma get_t_remove:
  assumes "wf_mpt t" "nibs k" "nibs q"
  shows "opt_get (t_remove t k) q = (if q = k then None else t_get t q)"
  using assms
proof (induction t k arbitrary: q rule: t_remove.induct)
  case (3 p n k)
  show ?case
  proof (cases "starts_with k p \<and> starts_with q p")
    case True
    then obtain k' q' where "k = p @ k'" "q = p @ q'" by (auto elim!: starts_withE)
    then show ?thesis using 3 by (simp add: opt_get_normalize)
  next
    case False
    then show ?thesis by (auto simp: opt_get_normalize)
  qed
next
  case (4 cs v)
  then show ?case
    using get_t_collapse [of cs q None] by (cases q) (auto simp: get_t_branch)
next
  case (5 cs v n r)
  have n: "unat n < 16" "length cs = 16" using 5 by (simp_all add: nibble_less)
  show ?case
  proof (cases "cs ! unat n")
    case None
    then show ?thesis by (cases q) (auto simp: get_t_branch)
  next
    case (Some c)
    have IH: "opt_get (t_remove c r) q' = (if q' = r then None else t_get c q')" if "nibs q'" for q'
      using 5 Some wf_mpt_child [OF 5(2) n(1) Some] that by simp
    show ?thesis
    proof (cases q)
      case Nil
      then show ?thesis
        using get_t_collapse [of "cs[unat n := None]" q v] n 5
        by (auto simp: Some get_t_branch split: option.splits)
    next
      case (Cons m q')
      then have m: "unat m < 16" "nibs q'" using 5 by (simp_all add: nibble_less)
      show ?thesis
        using get_t_collapse [of "cs[unat n := None]" q v] n m 5(4) IH [of q'] Some
        by (cases "t_remove c r")
          (auto simp: Cons get_t_branch nth_list_update unat_eq_iff8 split: if_splits)
    qed
  qed
qed auto

lemma wf_t_normalize: "nibs p \<Longrightarrow> wf_mpt t \<Longrightarrow> wf_mpt (t_normalize p t)"
  by (cases t) auto

lemma wf_t_collapse:
  assumes "wf_mpt (TBranch cs v)" "t_collapse cs w = Some t"
  shows "wf_mpt t"
proof -
  have "wf_mpt (t_prefix (of_nat j) c)" if "present cs = [(j, c)]" for j c
  proof -
    have j: "j < 16" "cs ! j = Some c" using set_present [of j c cs] that assms(1) by auto
    then have "wf_mpt c" using wf_mpt_child assms(1) by blast
    moreover have "(of_nat j :: u8) < 16" using j by (simp add: word_less_nat_alt unat_of_nat)
    ultimately show ?thesis by (cases c) auto
  qed
  then show ?thesis
    using assms by (auto simp: t_collapse_def split: list.splits option.splits prod.splits)
qed

lemma wf_t_remove: "wf_mpt t \<Longrightarrow> nibs k \<Longrightarrow> t_remove t k = Some t' \<Longrightarrow> wf_mpt t'"
proof (induction t k arbitrary: t' rule: t_remove.induct)
  case (3 p n k)
  then show ?case by (auto simp: wf_t_normalize split: if_splits)
next
  case (4 cs v)
  then show ?case by (auto simp del: wf_mpt.simps(4) split: if_splits intro: wf_t_collapse)
next
  case (5 cs v n r)
  have n: "unat n < 16" using 5 by (simp add: nibble_less)
  show ?case
  proof (cases "cs ! unat n")
    case (Some c)
    show ?thesis
    proof (cases "t_remove c r")
      case None
      then show ?thesis
        using 5(4) Some wf_t_collapse [OF wf_update(2) [OF 5(2), of "unat n" v]]
        by (simp del: wf_mpt.simps(4))
    next
      case (Some c')
      then have "wf_mpt c'" using 5 \<open>cs ! unat n = Some c\<close> wf_mpt_child [OF 5(2) n] by simp
      then show ?thesis
        using 5 Some \<open>cs ! unat n = Some c\<close> wf_update(1) [OF 5(2)] by (auto simp del: wf_mpt.simps(4))
    qed
  qed (use 5 in auto)
qed (auto split: if_splits)

lemma t_get_delete:
  "wf_mpt t \<Longrightarrow> nibs k \<Longrightarrow> nibs q \<Longrightarrow> t_get (t_delete t k) q = (if q = k then None else t_get t q)"
  using get_t_remove [of t k q] by (auto simp: t_delete_def split: option.split)

lemma wf_t_delete: "wf_mpt t \<Longrightarrow> nibs k \<Longrightarrow> wf_mpt (t_delete t k)"
  using wf_t_remove [of t k] by (auto simp: t_delete_def split: option.split)

section \<open>The canonical form\<close>

text \<open>
  No empty subtree, extensions have a path and lead to a branch, and a branch
  has at least two entries.
\<close>

definition two_entries :: "mpt option list \<Rightarrow> bytes option \<Rightarrow> bool" where
  "two_entries cs v =
    ((\<exists>i<length cs. \<exists>j<length cs. i \<noteq> j \<and> cs ! i \<noteq> None \<and> cs ! j \<noteq> None) \<or>
     (v \<noteq> None \<and> (\<exists>i<length cs. cs ! i \<noteq> None)))"

fun is_branch :: "mpt \<Rightarrow> bool" where
  "is_branch (TBranch cs v) = True"
| "is_branch _ = False"

fun canon :: "mpt \<Rightarrow> bool" where
  "canon TEmpty = False"
| "canon (TLeaf p v) = True"
| "canon (TExt p n) = (p \<noteq> [] \<and> is_branch n \<and> canon n)"
| "canon (TBranch cs v) =
    (two_entries cs v \<and> list_all (\<lambda>c. case c of None \<Rightarrow> True | Some t \<Rightarrow> canon t) cs)"

definition canonical_mpt :: "mpt \<Rightarrow> bool" where
  "canonical_mpt t = (t = TEmpty \<or> canon t)"

lemma canon_child: "canon (TBranch cs v) \<Longrightarrow> i < length cs \<Longrightarrow> cs ! i = Some c \<Longrightarrow> canon c"
  by (force simp: list_all_length split: option.splits)

lemma canon_t_ext: "canon n \<Longrightarrow> is_branch n \<Longrightarrow> canon (t_ext p n)"
  by (simp add: t_ext_def)

lemma canon_branchI:
  assumes "two_entries cs v" "\<And>i c. i < length cs \<Longrightarrow> cs ! i = Some c \<Longrightarrow> canon c"
  shows "canon (TBranch cs v)"
  using assms by (auto simp: list_all_length split: option.splits)

lemma two_entries_update:
  "two_entries cs v \<Longrightarrow> two_entries (cs[i := Some c]) v"
  unfolding two_entries_def by (metis length_list_update nth_list_update nth_list_update_neq option.distinct(1))

lemma canon_t_split:
  assumes "nibs a" "nibs b" "a \<noteq> b" "a = [] \<or> b = [] \<or> hd a \<noteq> hd b"
  shows "canon (t_split a w b v) \<and> is_branch (t_split a w b v)"
proof -
  have two: "two_entries cs x"
    if "i < 16" "j < 16" "i \<noteq> j" "length cs = 16" "cs ! i \<noteq> None" "cs ! j \<noteq> None" for cs x i j
    using that unfolding two_entries_def by metis
  have one: "two_entries cs (Some x)" if "i < 16" "length cs = 16" "cs ! i \<noteq> None" for cs x i
    using that unfolding two_entries_def by auto
  show ?thesis
  proof (cases a)
    case Nil
    then obtain y r where b: "b = y # r" "unat y < 16"
      using assms by (cases b) (auto simp: nibble_less)
    then show ?thesis
      by (auto simp: Nil t_split_def simp del: canon.simps(4)
          intro!: canon_branchI one [of "unat y"] simp: nth_list_update split: if_splits)
  next
    case (Cons x ra)
    then have x: "unat x < 16" using assms by (simp add: nibble_less)
    show ?thesis
    proof (cases b)
      case Nil
      then show ?thesis
        using x by (auto simp: Cons t_split_def simp del: canon.simps(4)
            intro!: canon_branchI one [of "unat x"] simp: nth_list_update split: if_splits)
    next
      case (Cons y rb)
      then have y: "unat y < 16" "x \<noteq> y" using assms \<open>a = x # ra\<close> by (auto simp: nibble_less)
      then show ?thesis
        using x Cons \<open>a = x # ra\<close>
        by (auto simp: t_split_def unat_eq_iff8 simp del: canon.simps(4)
            intro!: canon_branchI two [of "unat x" "unat y"] simp: nth_list_update split: if_splits)
    qed
  qed
qed

lemma canon_branch_update:
  assumes "canon (TBranch cs v)" "canon c"
  shows "canon (TBranch (cs[i := Some c]) v)"
proof (rule canon_branchI)
  show "two_entries (cs[i := Some c]) v" using assms(1) by (simp add: two_entries_update)
  show "canon d" if "j < length (cs[i := Some c])" "cs[i := Some c] ! j = Some d" for j d
    using that assms(2) canon_child [OF assms(1), of j d] by (cases "i = j") simp_all
qed

lemma canon_insert_ext:
  assumes "nibs (x # rest)" "nibs k'" "k' = [] \<or> hd k' \<noteq> x" "canon n" "is_branch n"
  defines "cs \<equiv> no_children[unat x := Some (t_ext rest n)]"
  shows "k' = [] \<Longrightarrow> canon (TBranch cs (Some v))"
    and "k' \<noteq> [] \<Longrightarrow> canon (TBranch (cs[unat (hd k') := Some (TLeaf (tl k') v)]) None)"
proof -
  have x: "unat x < 16" and n: "canon (t_ext rest n)"
    using assms(1,4,5) by (simp_all add: nibble_less canon_t_ext)
  show "canon (TBranch cs (Some v))"
    using x n by (intro canon_branchI)
      (auto simp: cs_def two_entries_def nth_list_update split: if_splits)
  assume "k' \<noteq> []"
  then obtain y r where k': "k' = y # r" "y \<noteq> x" "unat y < 16"
    using assms(2,3) by (cases k') (auto simp: nibble_less)
  then have "two_entries (cs[unat y := Some (TLeaf r v)]) None"
    unfolding two_entries_def cs_def using x
    by (intro disjI1 exI [of _ "unat x"] exI [of _ "unat y"] conjI) (auto simp: unat_eq_iff8 nth_list_update)
  then show "canon (TBranch (cs[unat (hd k') := Some (TLeaf (tl k') v)]) None)"
    using x n k' by (intro canon_branchI) (auto simp: cs_def nth_list_update split: if_splits)
qed

lemma canon_t_insert:
  "wf_mpt t \<Longrightarrow> nibs k \<Longrightarrow> canonical_mpt t \<Longrightarrow> canon (t_insert t k v) \<and> (is_branch t \<longrightarrow> is_branch (t_insert t k v))"
proof (induction t k v rule: t_insert.induct)
  case (2 p w k v)
  obtain c p' k' where c: "p = c @ p'" "k = c @ k'" "common_prefix_len p' k' = 0"
    "p' = [] \<or> k' = [] \<or> hd p' \<noteq> hd k'" by (rule common_prefix_split)
  show ?case
  proof (cases "p = k")
    case False
    then have "p' \<noteq> k'" using c by auto
    then have "canon (t_split p' w k' v) \<and> is_branch (t_split p' w k' v)"
      using 2 c by (intro canon_t_split) auto
    then show ?thesis using False by (simp add: c(1-3) Let_def canon_t_ext)
  qed simp
next
  case (3 p n k v)
  have n: "p \<noteq> []" "canon n" "is_branch n" using 3(4) by (auto simp: canonical_mpt_def)
  show ?case
  proof (cases "starts_with k p")
    case True
    then show ?thesis using 3 n by (auto simp: canonical_mpt_def elim!: starts_withE)
  next
    case False
    obtain c p' k' where c: "p = c @ p'" "k = c @ k'" "common_prefix_len p' k' = 0"
      "p' = [] \<or> k' = [] \<or> hd p' \<noteq> hd k'" by (rule common_prefix_split)
    then obtain x rest where p': "p' = x # rest" using False by (cases p') auto
    have ne: "k' = [] \<or> hd k' \<noteq> x" using c(4) by (auto simp: p')
    have nibs: "nibs (x # rest)" "nibs k'" using 3 by (simp_all add: c p')
    show ?thesis
    proof (cases k')
      case Nil
      then show ?thesis
        using False canon_insert_ext(1) [OF nibs ne n(2,3), of v]
        by (simp add: c(1,2) p' Let_def canon_t_ext del: canon.simps(4))
    next
      case (Cons y r)
      then show ?thesis
        using False ne canon_insert_ext(2) [OF nibs ne n(2,3), of v]
        by (simp add: c(1,2) p' Let_def canon_t_ext del: canon.simps(4))
    qed
  qed
next
  case (4 cs bv v)
  then have c: "canon (TBranch cs bv)" by (simp add: canonical_mpt_def)
  then have "two_entries cs (Some v)" by (auto simp: two_entries_def)
  then have "canon (TBranch cs (Some v))" by (rule canon_branchI) (rule canon_child [OF c])
  then show ?case by simp
next
  case (5 cs bv n r v)
  have n: "unat n < 16" "length cs = 16" using 5 by (simp_all add: nibble_less)
  have c: "canon (TBranch cs bv)" using 5(4) by (simp add: canonical_mpt_def)
  let ?c = "case cs ! unat n of Some c \<Rightarrow> c | None \<Rightarrow> TEmpty"
  have "wf_mpt ?c \<and> canonical_mpt ?c"
    using wf_mpt_child [OF 5(2) n(1)] canon_child [OF c, of "unat n"] n
    by (auto simp: canonical_mpt_def split: option.split)
  then have "canon (t_insert ?c r v)" using 5 by simp
  then show ?case using canon_branch_update [OF c] by (simp del: canon.simps(4))
qed (simp_all add: canonical_mpt_def)

lemma canon_t_prefix: "canon c \<Longrightarrow> canon (t_prefix n c)"
  by (cases c) auto

lemma canon_t_normalize: "canon c \<Longrightarrow> p \<noteq> [] \<Longrightarrow> canon (t_normalize p c)"
  by (cases c) auto

lemma distinct_present: "distinct (map fst (present cs))"
proof -
  let ?f = "\<lambda>(i, c). case c of Some h \<Rightarrow> [(i, h)] | None \<Rightarrow> []"
  have "distinct (map fst (concat (map ?f (enumerate n cs)))) \<and>
      (\<forall>x\<in>set (concat (map ?f (enumerate n cs))). n \<le> fst x)" for n
  proof (induction cs arbitrary: n)
    case (Cons c cs)
    show ?case using Cons [of "Suc n"] by (cases c) (force split: option.splits)+
  qed simp
  then show ?thesis by (simp add: present_def)
qed

lemma canon_t_collapse:
  assumes ch: "\<And>i c. i < length cs \<Longrightarrow> cs ! i = Some c \<Longrightarrow> canon c" and t: "t_collapse cs v = Some t"
  shows "canon t"
proof (cases "present cs")
  case Nil
  then show ?thesis using t by (auto simp: t_collapse_def split: option.splits)
next
  case (Cons x xs)
  obtain i c where x: "x = (i, c)" by (cases x)
  have i: "i < length cs" "cs ! i = Some c" using set_present [of i c cs] Cons x by auto
  show ?thesis
  proof (cases "xs = [] \<and> v = None")
    case True
    then show ?thesis using t Cons x ch [OF i] by (auto simp: t_collapse_def canon_t_prefix)
  next
    case False
    have "two_entries cs v"
    proof (cases xs)
      case Nil
      then show ?thesis using False i by (auto simp: two_entries_def)
    next
      case (Cons y ys)
      obtain j d where y: "y = (j, d)" by (cases y)
      have "j < length cs" "cs ! j = Some d" "i \<noteq> j"
        using set_present [of j d cs] distinct_present [of cs] \<open>present cs = x # xs\<close> Cons x y by auto
      then show ?thesis using i unfolding two_entries_def by blast
    qed
    moreover have "t = TBranch cs v"
      using t False Cons x by (auto simp: t_collapse_def split: list.splits option.splits)
    ultimately show ?thesis using ch by (auto intro: canon_branchI simp del: canon.simps(4))
  qed
qed

lemma canon_t_remove:
  "wf_mpt t \<Longrightarrow> nibs k \<Longrightarrow> canon t \<Longrightarrow> t_remove t k = Some t' \<Longrightarrow> canon t'"
proof (induction t k arbitrary: t' rule: t_remove.induct)
  case (3 p n k)
  then show ?case by (auto simp: canon_t_normalize split: if_splits)
next
  case (4 cs v)
  then show ?case
    using canon_t_collapse [of cs None] canon_child [OF 4(3)] by (simp split: if_splits del: canon.simps(4))
next
  case (5 cs v n r)
  have n: "unat n < 16" "length cs = 16" using 5 by (simp_all add: nibble_less)
  show ?case
  proof (cases "cs ! unat n")
    case None
    then show ?thesis using 5 by auto
  next
    case (Some c)
    have c: "wf_mpt c" "canon c"
      using wf_mpt_child [OF 5(2) n(1) Some] canon_child [OF 5(4) _ Some] n by simp_all
    show ?thesis
    proof (cases "t_remove c r")
      case None
      have "canon d" if "j < length (cs[unat n := None])" "cs[unat n := None] ! j = Some d" for j d
        using that canon_child [OF 5(4), of j d] by (cases "unat n = j") simp_all
      then show ?thesis
        using 5(5) Some None canon_t_collapse [of "cs[unat n := None]" v] by simp
    next
      case (Some c')
      then have "canon c'" using 5 \<open>cs ! unat n = Some c\<close> c by simp
      then show ?thesis
        using 5(5) Some \<open>cs ! unat n = Some c\<close> canon_branch_update [OF 5(4)] by (auto simp del: canon.simps(4))
    qed
  qed
qed (auto split: if_splits)

lemma canonical_t_delete:
  "wf_mpt t \<Longrightarrow> nibs k \<Longrightarrow> canonical_mpt t \<Longrightarrow> canonical_mpt (t_delete t k)"
  using canon_t_remove [of t k] by (auto simp: t_delete_def canonical_mpt_def split: option.split)

subsection \<open>Equal contents have equal trees\<close>

definition has_key :: "mpt \<Rightarrow> bytes \<Rightarrow> bool" where
  "has_key t k = (nibs k \<and> t_get t k \<noteq> None)"

text \<open>Two keys that part at their first nibble.\<close>

definition part :: "bytes \<Rightarrow> bytes \<Rightarrow> bool" where
  "part k l = (k \<noteq> l \<and> (k = [] \<or> l = [] \<or> hd k \<noteq> hd l))"

lemma canon_has_key: "canon t \<Longrightarrow> wf_mpt t \<Longrightarrow> \<exists>k. has_key t k"
proof (induction t)
  case (TLeaf p v)
  then show ?case by (intro exI [of _ p]) (simp add: has_key_def)
next
  case (TExt p n)
  then obtain k where "has_key n k" by auto
  then show ?case using TExt.prems by (intro exI [of _ "p @ k"]) (simp add: has_key_def)
next
  case (TBranch cs v)
  then obtain i c where i: "i < length cs" "cs ! i = Some c" by (auto simp: two_entries_def)
  then have "i < 16" "canon c" "wf_mpt c"
    using TBranch.prems canon_child [OF TBranch.prems(1) i] wf_mpt_child [OF TBranch.prems(2)] by auto
  moreover have "Some c \<in> set cs" using i by (metis nth_mem)
  ultimately obtain k where k: "has_key c k" using TBranch.IH [of "Some c" c] by auto
  have "unat (of_nat i :: u8) = i" using \<open>i < 16\<close> by (simp add: unat_of_nat)
  then have "has_key (TBranch cs v) (of_nat i # k)"
    using k i \<open>i < 16\<close> by (simp add: has_key_def word_less_nat_alt)
  then show ?case ..
qed simp

lemma branch_key:
  assumes "canon (TBranch cs v)" "wf_mpt (TBranch cs v)" "i < 16" "cs ! i = Some c"
  shows "\<exists>k. has_key (TBranch cs v) (of_nat i # k)"
proof -
  have "canon c" "wf_mpt c"
    using assms canon_child [OF assms(1) _ assms(4)] wf_mpt_child [OF assms(2,3,4)] by auto
  then obtain k where "has_key c k" using canon_has_key by blast
  moreover have "unat (of_nat i :: u8) = i" using assms(3) by (simp add: unat_of_nat)
  ultimately show ?thesis using assms(3,4) by (auto simp: has_key_def word_less_nat_alt)
qed

lemma branch_parts:
  assumes "canon (TBranch cs v)" "wf_mpt (TBranch cs v)"
  obtains k l where "has_key (TBranch cs v) k" "has_key (TBranch cs v) l" "part k l"
proof -
  have len: "length cs = 16" using assms(2) by simp
  have two: "two_entries cs v" using assms(1) by simp
  show thesis
  proof (cases "v = None")
    case True
    then obtain i j c d where ij: "i < 16" "j < 16" "i \<noteq> j" "cs ! i = Some c" "cs ! j = Some d"
      using two len unfolding two_entries_def by auto
    then have "(of_nat i :: u8) \<noteq> of_nat j" by (simp add: word_unat_eq_iff unat_of_nat)
    then show thesis
      using branch_key [OF assms ij(1,4)] branch_key [OF assms ij(2,5)] that by (auto simp: part_def)
  next
    case False
    then have "has_key (TBranch cs v) []" by (simp add: has_key_def)
    moreover obtain i c where "i < 16" "cs ! i = Some c"
      using two len unfolding two_entries_def by auto
    ultimately show thesis using branch_key [OF assms] that by (auto simp: part_def)
  qed
qed

lemma has_key_ext: "has_key (TExt p n) k \<Longrightarrow> starts_with k p"
  by (auto simp: has_key_def split: if_splits)

lemma part_common_prefix:
  assumes "part k l" "starts_with (p @ k) q" "starts_with (p @ l) q"
  shows "starts_with p q"
proof -
  obtain c p' q' where c: "p = c @ p'" "q = c @ q'" "p' = [] \<or> q' = [] \<or> hd p' \<noteq> hd q'"
    by (rule common_prefix_split)
  show ?thesis
  proof (cases q')
    case Nil
    then show ?thesis by (simp add: c)
  next
    case (Cons x r)
    then show ?thesis
      using assms c(3) by (cases p'; cases k; cases l) (auto simp: c part_def)
  qed
qed

lemma starts_with_antisym: "starts_with p q \<Longrightarrow> starts_with q p \<Longrightarrow> p = q"
  by (auto elim!: starts_withE)

lemma ext_branch_differ:
  assumes "canon (TExt p n)" "canon (TBranch cs v)" "wf_mpt (TBranch cs v)"
  shows "\<exists>k. has_key (TBranch cs v) k \<and> \<not> has_key (TExt p n) k"
proof -
  obtain k l where kl: "has_key (TBranch cs v) k" "has_key (TBranch cs v) l" "part k l"
    using branch_parts [OF assms(2,3)] .
  have "\<not> (starts_with k p \<and> starts_with l p)"
    using assms(1) kl(3) by (cases p; cases k; cases l) (auto simp: part_def)
  then show ?thesis using kl has_key_ext by blast
qed

lemma ext_parts:
  assumes "canon (TExt p n)" "wf_mpt (TExt p n)"
  obtains k l where "has_key (TExt p n) (p @ k)" "has_key (TExt p n) (p @ l)" "part k l"
proof -
  obtain cs v where n: "n = TBranch cs v" using assms(1) by (cases n) auto
  obtain k l where "has_key n k" "has_key n l" "part k l"
    using branch_parts [of cs v] assms by (auto simp: n)
  then show thesis using assms(2) by (intro that [of k l]) (auto simp: has_key_def)
qed

lemma leaf_one_key: "has_key (TLeaf p v) k \<Longrightarrow> k = p"
  by (auto simp: has_key_def split: if_splits)

definition same_contents :: "mpt \<Rightarrow> mpt \<Rightarrow> bool" where
  "same_contents t u = (\<forall>k. nibs k \<longrightarrow> t_get t k = t_get u k)"

lemma same_contents_keys: "same_contents t u \<Longrightarrow> has_key t k \<longleftrightarrow> has_key u k"
  unfolding same_contents_def has_key_def by metis

lemma same_contents_sym: "same_contents t u \<Longrightarrow> same_contents u t"
  by (simp add: same_contents_def)

lemma leaf_unique:
  assumes "wf_mpt (TLeaf p v)" "canon u" "wf_mpt u" "same_contents (TLeaf p v) u"
  shows "u = TLeaf p v"
proof -
  have one: "k = p" if "has_key u k" for k
    using that same_contents_keys [OF assms(4)] leaf_one_key by blast
  show ?thesis
  proof (cases u)
    case (TLeaf q w)
    then show ?thesis
      using assms(1,4) by (auto simp: same_contents_def dest!: spec [of _ p] split: if_splits)
  next
    case (TExt q n)
    then obtain k l where "has_key u (q @ k)" "has_key u (q @ l)" "part k l"
      using ext_parts [of q n] assms(2,3) by auto
    then show ?thesis using one by (metis part_def same_append_eq)
  next
    case (TBranch cs w)
    then obtain k l where "has_key u k" "has_key u l" "part k l"
      using branch_parts [of cs w] assms(2,3) by auto
    then show ?thesis using one by (metis part_def)
  qed (use assms in simp)
qed

lemma ext_unique:
  assumes "canon (TExt p n)" "wf_mpt (TExt p n)" "canon (TExt q m)" "wf_mpt (TExt q m)"
    and "same_contents (TExt p n) (TExt q m)"
  shows "p = q \<and> same_contents n m"
proof -
  note keys = same_contents_keys [OF assms(5)]
  obtain k l where kl: "has_key (TExt p n) (p @ k)" "has_key (TExt p n) (p @ l)" "part k l"
    using ext_parts [OF assms(1,2)] .
  obtain k' l' where kl': "has_key (TExt q m) (q @ k')" "has_key (TExt q m) (q @ l')" "part k' l'"
    using ext_parts [OF assms(3,4)] .
  have "starts_with p q" using kl keys has_key_ext part_common_prefix [of k l p q] by blast
  moreover have "starts_with q p" using kl' keys has_key_ext part_common_prefix [of k' l' q p] by blast
  ultimately have pq: "p = q" by (rule starts_with_antisym)
  have "t_get n r = t_get m r" if "nibs r" for r
    using assms(2,5) that pq by (auto simp: same_contents_def dest!: spec [of _ "p @ r"])
  then show ?thesis using pq by (simp add: same_contents_def)
qed

lemma branch_child_contents:
  assumes "canon (TBranch cs v)" "wf_mpt (TBranch cs v)" "canon (TBranch ds w)" "wf_mpt (TBranch ds w)"
    and "same_contents (TBranch cs v) (TBranch ds w)" "i < 16" "cs ! i = Some c"
  shows "\<exists>d. ds ! i = Some d \<and> same_contents c d"
proof -
  have ui: "unat (of_nat i :: u8) = i" "(of_nat i :: u8) < 16"
    using assms(6) by (simp_all add: unat_of_nat word_less_nat_alt)
  have get: "t_get c r = opt_get (ds ! i) r" if "nibs r" for r
    using assms(5,7) ui that
    by (auto simp: same_contents_def get_t_branch dest!: spec [of _ "of_nat i # r"])
  have "canon c" "wf_mpt c"
    using canon_child [OF assms(1) _ assms(7)] wf_mpt_child [OF assms(2,6,7)] assms(2,6) by auto
  then obtain k where "nibs k" "t_get c k \<noteq> None"
    using canon_has_key unfolding has_key_def by blast
  then show ?thesis using get by (cases "ds ! i") (auto simp: same_contents_def)
qed

lemma branch_unique:
  assumes cs: "canon (TBranch cs v)" "wf_mpt (TBranch cs v)"
    and ds: "canon (TBranch ds w)" "wf_mpt (TBranch ds w)"
    and same: "same_contents (TBranch cs v) (TBranch ds w)"
    and IH: "\<And>c d. Some c \<in> set cs \<Longrightarrow> canon c \<Longrightarrow> wf_mpt c \<Longrightarrow> canon d \<Longrightarrow> wf_mpt d \<Longrightarrow>
      same_contents c d \<Longrightarrow> c = d"
  shows "TBranch cs v = TBranch ds w"
proof -
  have len: "length cs = 16" "length ds = 16" using cs(2) ds(2) by simp_all
  have "cs ! i = ds ! i" if i: "i < 16" for i
  proof (cases "cs ! i")
    case None
    then show ?thesis
      using branch_child_contents [OF ds cs same_contents_sym [OF same] i] by (cases "ds ! i") auto
  next
    case (Some c)
    then obtain d where d: "ds ! i = Some d" "same_contents c d"
      using branch_child_contents [OF cs ds same i] by auto
    have "Some c \<in> set cs" using Some i len by (metis nth_mem)
    moreover have "canon c" "wf_mpt c" "canon d" "wf_mpt d"
      using canon_child [OF cs(1) _ Some] wf_mpt_child [OF cs(2) i Some]
        canon_child [OF ds(1) _ d(1)] wf_mpt_child [OF ds(2) i d(1)] i len by auto
    ultimately have "c = d" using IH d(2) by blast
    then show ?thesis using Some d by simp
  qed
  then have "cs = ds" using len by (intro nth_equalityI) auto
  moreover have "v = w" using same by (auto simp: same_contents_def dest!: spec [of _ "[]"])
  ultimately show ?thesis by simp
qed

lemma canon_unique:
  assumes "canon t" "wf_mpt t" "canon u" "wf_mpt u" "same_contents t u"
  shows "t = u"
  using assms
proof (induction t arbitrary: u)
  case (TLeaf p v)
  then show ?case using leaf_unique by blast
next
  case (TExt p n)
  show ?case
  proof (cases u)
    case (TLeaf q w)
    then show ?thesis using leaf_unique [of q w "TExt p n"] TExt.prems same_contents_sym by simp
  next
    case u: (TExt q m)
    then have "p = q" "same_contents n m" using ext_unique [of p n q m] TExt.prems by auto
    then show ?thesis using TExt.IH [of m] TExt.prems u by auto
  next
    case (TBranch cs w)
    then show ?thesis
      using ext_branch_differ [OF TExt.prems(1)] TExt.prems(3,4) same_contents_keys [OF TExt.prems(5)] by blast
  qed (use TExt.prems in simp)
next
  case (TBranch cs v)
  show ?case
  proof (cases u)
    case (TLeaf q w)
    then show ?thesis using leaf_unique [of q w "TBranch cs v"] TBranch.prems same_contents_sym by simp
  next
    case (TExt q m)
    then show ?thesis
      using ext_branch_differ [of q m cs v] TBranch.prems same_contents_keys [OF TBranch.prems(5)] by blast
  next
    case u: (TBranch ds w)
    show ?thesis
      unfolding u by (rule branch_unique) (use TBranch u in auto)
  qed (use TBranch.prems in simp)
qed simp

lemma canonical_unique:
  assumes "canonical_mpt t" "wf_mpt t" "canonical_mpt u" "wf_mpt u"
    and "\<forall>k. nibs k \<longrightarrow> t_get t k = t_get u k"
  shows "t = u"
proof (cases "t = TEmpty \<or> u = TEmpty")
  case True
  then show ?thesis
    using assms canon_has_key [of t] canon_has_key [of u] by (auto simp: canonical_mpt_def has_key_def)
next
  case False
  then show ?thesis
    using assms canon_unique [of t u] by (auto simp: canonical_mpt_def same_contents_def)
qed

end
