(* ===== verification/State_Mpt.thy ===== *)
theory State_Mpt
  imports State_Trie "HOL-Library.Monad_Syntax"
begin

text \<open>
  The hash-addressed trie of \<open>mpt/mod.rs\<close>: a table from node hashes to payloads
  and a root. A missing node, a payload that does not parse and an index out of
  range are panics of the code and give \<open>None\<close>, as does a walk that does not end.
  The lemmas show that, as long as no two of the stored payloads have the same
  hash, the operations return and act as the tree operations of \<open>State_Trie\<close>.
\<close>

section \<open>Definitions\<close>

record Trie =
  tr_nodes :: "(Hash, bytes) btree"
  tr_root :: Hash

definition load :: "Trie \<Rightarrow> Hash \<Rightarrow> Node option" where
  "load tr h = Option.bind (bt_get (tr_nodes tr) h) deserialize_node"

definition store :: "(bytes \<Rightarrow> Hash) \<Rightarrow> Trie \<Rightarrow> Node \<Rightarrow> Hash \<times> Trie" where
  "store H tr node =
    (let bs = serialize_node node;
         h = hash_node H node
     in (h, tr\<lparr>tr_nodes := bt_insert h bs (tr_nodes tr)\<rparr>))"

definition trie_new :: "(bytes \<Rightarrow> Hash) \<Rightarrow> Trie" where
  "trie_new H =
    (let h = hash_node H NEmpty
     in \<lparr>tr_nodes = bt_insert h (serialize_node NEmpty) [], tr_root = h\<rparr>)"

text \<open>Array access by a nibble, with the bounds check of the language.\<close>

definition child_at :: "'a option list \<Rightarrow> u8 \<Rightarrow> 'a option option" where
  "child_at cs n = (if unat n < length cs then Some (cs ! unat n) else None)"

definition set_child :: "'a option list \<Rightarrow> u8 \<Rightarrow> 'a option \<Rightarrow> 'a option list option" where
  "set_child cs n c = (if unat n < length cs then Some (cs[unat n := c]) else None)"

partial_function (option) get_at :: "Trie \<Rightarrow> Hash \<Rightarrow> bytes \<Rightarrow> bytes option option" where
  [code]: "get_at tr h key =
    do {
      node \<leftarrow> load tr h;
      (case node of
         NEmpty \<Rightarrow> Some None
       | NLeaf path v \<Rightarrow> Some (if path = key then Some v else None)
       | NExtension path nxt \<Rightarrow>
           if starts_with key path then get_at tr nxt (drop (length path) key) else Some None
       | NBranch children v \<Rightarrow>
           (case key of
              [] \<Rightarrow> Some v
            | n # rest \<Rightarrow>
                do {
                  c \<leftarrow> child_at children n;
                  (case c of None \<Rightarrow> Some None | Some h' \<Rightarrow> get_at tr h' rest)
                }))
    }"

definition trie_get :: "Trie \<Rightarrow> bytes \<Rightarrow> bytes option option" where
  "trie_get tr key = get_at tr (tr_root tr) (bytes_to_nibbles key)"

fun place_rest :: "(bytes \<Rightarrow> Hash) \<Rightarrow> Trie \<Rightarrow> bytes \<Rightarrow> bytes \<Rightarrow> Hash option list \<times> bytes option \<Rightarrow>
    ((Hash option list \<times> bytes option) \<times> Trie) option" where
  "place_rest H tr [] v (children, bv) = Some ((children, Some v), tr)"
| "place_rest H tr (n # r) v (children, bv) =
    (let (h, tr) = store H tr (NLeaf r v)
     in map_option (\<lambda>cs. ((cs, bv), tr)) (set_child children n (Some h)))"

definition split_to_branch ::
  "(bytes \<Rightarrow> Hash) \<Rightarrow> Trie \<Rightarrow> bytes \<Rightarrow> bytes \<Rightarrow> bytes \<Rightarrow> bytes \<Rightarrow> (Hash \<times> Trie) option" where
  "split_to_branch H tr a_rest a_val b_rest b_val =
    do {
      (acc, tr) \<leftarrow> place_rest H tr a_rest a_val (replicate 16 None, None);
      ((children, bv), tr) \<leftarrow> place_rest H tr b_rest b_val acc;
      Some (store H tr (NBranch children bv))
    }"

definition store_under :: "(bytes \<Rightarrow> Hash) \<Rightarrow> bytes \<Rightarrow> Hash \<times> Trie \<Rightarrow> Hash \<times> Trie" where
  "store_under H path ht = (if path = [] then ht else store H (snd ht) (NExtension path (fst ht)))"

definition insert_split_ext :: "(bytes \<Rightarrow> Hash) \<Rightarrow> Trie \<Rightarrow> bytes \<Rightarrow> Hash \<Rightarrow> bytes \<Rightarrow> bytes \<Rightarrow> (Hash \<times> Trie) option" where
  "insert_split_ext H tr path nxt key v =
    (let cp = common_prefix_len path key in
     if cp < length path then
       (let (ext_child, tr) = store_under H (drop (Suc cp) path) (nxt, tr) in
        do {
          children \<leftarrow> set_child (replicate 16 None) (path ! cp) (Some ext_child);
          if length key = cp then
            Some (store_under H key (store H tr (NBranch children (Some v))))
          else
            (let (leaf_h, tr) = store H tr (NLeaf (drop (Suc cp) key) v) in
             do {
               children \<leftarrow> set_child children (key ! cp) (Some leaf_h);
               Some (store_under H (take cp path) (store H tr (NBranch children None)))
             })
        })
     else None)"

partial_function (option) insert_at ::
  "(bytes \<Rightarrow> Hash) \<Rightarrow> Trie \<Rightarrow> Hash \<Rightarrow> bytes \<Rightarrow> bytes \<Rightarrow> (Hash \<times> Trie) option" where
  [code]: "insert_at H tr h key v =
    do {
      node \<leftarrow> load tr h;
      (case node of
         NEmpty \<Rightarrow> Some (store H tr (NLeaf key v))
       | NLeaf path old_val \<Rightarrow>
           if path = key then Some (store H tr (NLeaf path v))
           else do {
             ht \<leftarrow> split_to_branch H tr (drop (common_prefix_len path key) path) old_val
                      (drop (common_prefix_len path key) key) v;
             Some (store_under H (take (common_prefix_len path key) path) ht)
           }
       | NExtension path nxt \<Rightarrow>
           if starts_with key path then
             do {
               (new_next, tr) \<leftarrow> insert_at H tr nxt (drop (length path) key) v;
               Some (store H tr (NExtension path new_next))
             }
           else insert_split_ext H tr path nxt key v
       | NBranch children br_val \<Rightarrow>
           (case key of
              [] \<Rightarrow> Some (store H tr (NBranch children (Some v)))
            | n # rest \<Rightarrow>
                do {
                  c \<leftarrow> child_at children n;
                  (new_c, tr) \<leftarrow> insert_at H tr (case c of Some h' \<Rightarrow> h' | None \<Rightarrow> hash_node H NEmpty) rest v;
                  children \<leftarrow> set_child children n (Some new_c);
                  Some (store H tr (NBranch children br_val))
                }))
    }"

definition trie_put :: "(bytes \<Rightarrow> Hash) \<Rightarrow> Trie \<Rightarrow> bytes \<Rightarrow> bytes \<Rightarrow> Trie option" where
  "trie_put H tr key v =
    do {
      (h, tr) \<leftarrow> insert_at H tr (tr_root tr) (bytes_to_nibbles key) v;
      Some (tr\<lparr>tr_root := h\<rparr>)
    }"

definition prefix_child :: "(bytes \<Rightarrow> Hash) \<Rightarrow> Trie \<Rightarrow> u8 \<Rightarrow> Hash \<Rightarrow> (Hash \<times> Trie) option" where
  "prefix_child H tr nibble child_h =
    do {
      node \<leftarrow> load tr child_h;
      Some (store H tr
        (case node of
           NLeaf path v \<Rightarrow> NLeaf (nibble # path) v
         | NExtension path nxt \<Rightarrow> NExtension (nibble # path) nxt
         | NBranch _ _ \<Rightarrow> NExtension [nibble] child_h
         | NEmpty \<Rightarrow> NEmpty))
    }"

definition normalize_extension :: "(bytes \<Rightarrow> Hash) \<Rightarrow> Trie \<Rightarrow> bytes \<Rightarrow> Hash \<Rightarrow> (Hash \<times> Trie) option" where
  "normalize_extension H tr path nxt =
    do {
      node \<leftarrow> load tr nxt;
      Some (store H tr
        (case node of
           NEmpty \<Rightarrow> NEmpty
         | NLeaf lp v \<Rightarrow> NLeaf (path @ lp) v
         | NExtension ep nn \<Rightarrow> NExtension (path @ ep) nn
         | NBranch _ _ \<Rightarrow> NExtension path nxt))
    }"

definition some_hash :: "Hash \<times> Trie \<Rightarrow> Hash option \<times> Trie" where
  "some_hash ht = (Some (fst ht), snd ht)"

text \<open>Rebuilding the children from the list of those present gives the same array.\<close>

definition collapse_branch ::
  "(bytes \<Rightarrow> Hash) \<Rightarrow> Trie \<Rightarrow> Hash option list \<Rightarrow> bytes option \<Rightarrow> (Hash option \<times> Trie) option" where
  "collapse_branch H tr children v =
    (case (present children, v) of
       ([], None) \<Rightarrow> Some (None, tr)
     | ([], Some w) \<Rightarrow> Some (some_hash (store H tr (NLeaf [] w)))
     | ([(nibble, child_h)], None) \<Rightarrow>
         map_option some_hash (prefix_child H tr (of_nat nibble) child_h)
     | (ps, _) \<Rightarrow>
         Some (some_hash (store H tr
           (NBranch (fold (\<lambda>(i, h) ch. ch[i := Some h]) ps (replicate 16 None)) v))))"

partial_function (option) remove_at ::
  "(bytes \<Rightarrow> Hash) \<Rightarrow> Trie \<Rightarrow> Hash \<Rightarrow> bytes \<Rightarrow> (Hash option \<times> Trie) option" where
  [code]: "remove_at H tr h key =
    do {
      node \<leftarrow> load tr h;
      (case node of
         NEmpty \<Rightarrow> Some (None, tr)
       | NLeaf path v \<Rightarrow>
           if path = key then Some (None, tr) else Some (some_hash (store H tr (NLeaf path v)))
       | NExtension path nxt \<Rightarrow>
           if \<not> starts_with key path then Some (some_hash (store H tr (NExtension path nxt)))
           else do {
             (new_next, tr) \<leftarrow> remove_at H tr nxt (drop (length path) key);
             (case new_next of
                None \<Rightarrow> Some (None, tr)
              | Some h' \<Rightarrow> map_option some_hash (normalize_extension H tr path h'))
           }
       | NBranch children v \<Rightarrow>
           (case key of
              [] \<Rightarrow>
                if v = None then Some (some_hash (store H tr (NBranch children None)))
                else collapse_branch H tr children None
            | n # rest \<Rightarrow>
                do {
                  c \<leftarrow> child_at children n;
                  (case c of
                     None \<Rightarrow> Some (some_hash (store H tr (NBranch children v)))
                   | Some ch \<Rightarrow>
                       do {
                         (r, tr) \<leftarrow> remove_at H tr ch rest;
                         children' \<leftarrow> set_child children n r;
                         (case r of
                            None \<Rightarrow> collapse_branch H tr children' v
                          | Some new_c \<Rightarrow> Some (some_hash (store H tr (NBranch children' v))))
                       })
                }))
    }"

definition trie_delete :: "(bytes \<Rightarrow> Hash) \<Rightarrow> Trie \<Rightarrow> bytes \<Rightarrow> Trie option" where
  "trie_delete H tr key =
    do {
      found \<leftarrow> trie_get tr key;
      (case found of
         None \<Rightarrow> Some tr
       | Some _ \<Rightarrow>
           do {
             (r, tr) \<leftarrow> remove_at H tr (tr_root tr) (bytes_to_nibbles key);
             (case r of
                Some h \<Rightarrow> Some (tr\<lparr>tr_root := h\<rparr>)
              | None \<Rightarrow> (let (h, tr) = store H tr NEmpty in Some (tr\<lparr>tr_root := h\<rparr>)))
           })
    }"

definition node_bytes :: "Trie \<Rightarrow> Hash \<Rightarrow> bytes option" where
  "node_bytes tr h = bt_get (tr_nodes tr) h"

section \<open>Trees in the node table\<close>

fun node_of :: "(bytes \<Rightarrow> Hash) \<Rightarrow> mpt \<Rightarrow> Node" where
  "node_of H TEmpty = NEmpty"
| "node_of H (TLeaf p v) = NLeaf p v"
| "node_of H (TExt p n) = NExtension p (hash_node H (node_of H n))"
| "node_of H (TBranch cs v) = NBranch (map (map_option (\<lambda>c. hash_node H (node_of H c))) cs) v"

definition root_of :: "(bytes \<Rightarrow> Hash) \<Rightarrow> mpt \<Rightarrow> Hash" where
  "root_of H t = hash_node H (node_of H t)"

definition payload :: "(bytes \<Rightarrow> Hash) \<Rightarrow> mpt \<Rightarrow> bytes" where
  "payload H t = serialize_node (node_of H t)"

fun subtrees :: "mpt \<Rightarrow> mpt list" where
  "subtrees (TExt p n) = TExt p n # subtrees n"
| "subtrees (TBranch cs v) =
    TBranch cs v # concat (map (\<lambda>c. case c of None \<Rightarrow> [] | Some t \<Rightarrow> subtrees t) cs)"
| "subtrees t = [t]"

lemma root_of_payload: "root_of H t = hash_encoded H (payload H t)"
  by (simp add: root_of_def payload_def hash_node_def)

lemma node_of_root [simp]:
  "node_of H (TExt p n) = NExtension p (root_of H n)"
  "node_of H (TBranch cs v) = NBranch (map (map_option (root_of H)) cs) v"
  by (simp_all add: root_of_def [abs_def])

declare node_of.simps(3,4) [simp del]

lemma subtrees_self: "t \<in> set (subtrees t)"
  by (cases t) auto

lemma set_subtrees_branch:
  "set (subtrees (TBranch cs v)) = insert (TBranch cs v) (\<Union>c\<in>{c. Some c \<in> set cs}. set (subtrees c))"
  by (force split: option.splits)

text \<open>
  A set of trees is safe when its nodes can be written and no two of their
  payloads collide. The table is related to it when it holds payloads of the set
  only, the empty node among them; it holds a tree when it has the payloads of
  all its subtrees.
\<close>

definition safe :: "(bytes \<Rightarrow> Hash) \<Rightarrow> mpt set \<Rightarrow> bool" where
  "safe H T = ((\<forall>u\<in>T. wf_node (node_of H u)) \<and> inj_on (hash_encoded H) (payload H ` T))"

definition holds :: "(bytes \<Rightarrow> Hash) \<Rightarrow> mpt set \<Rightarrow> Trie \<Rightarrow> mpt \<Rightarrow> bool" where
  "holds H T tr t =
    (\<forall>u\<in>set (subtrees t). u \<in> T \<and> bt_get (tr_nodes tr) (root_of H u) = Some (payload H u))"

definition table :: "(bytes \<Rightarrow> Hash) \<Rightarrow> mpt set \<Rightarrow> Trie \<Rightarrow> bool" where
  "table H T tr =
    (safe H T \<and> holds H T tr TEmpty \<and>
     (\<forall>h b. bt_get (tr_nodes tr) h = Some b \<longrightarrow> (\<exists>u\<in>T. h = root_of H u \<and> b = payload H u)))"

text \<open>A table grown to hold one more tree, with the same root.\<close>

definition grown :: "(bytes \<Rightarrow> Hash) \<Rightarrow> mpt set \<Rightarrow> Trie \<Rightarrow> mpt \<Rightarrow> Trie \<Rightarrow> bool" where
  "grown H T tr t tr' =
    (table H T tr' \<and> holds H T tr' t \<and> (\<forall>u. holds H T tr u \<longrightarrow> holds H T tr' u))"

lemma holds_ext [simp]: "holds H T tr (TExt p n) \<longleftrightarrow>
    TExt p n \<in> T \<and> bt_get (tr_nodes tr) (root_of H (TExt p n)) = Some (payload H (TExt p n)) \<and> holds H T tr n"
  by (auto simp: holds_def)

lemma holds_branch [simp]: "holds H T tr (TBranch cs v) \<longleftrightarrow>
    TBranch cs v \<in> T \<and> bt_get (tr_nodes tr) (root_of H (TBranch cs v)) = Some (payload H (TBranch cs v)) \<and>
    (\<forall>c. Some c \<in> set cs \<longrightarrow> holds H T tr c)"
  unfolding holds_def set_subtrees_branch by auto

lemma holds_self: "holds H T tr t \<Longrightarrow> t \<in> T \<and> bt_get (tr_nodes tr) (root_of H t) = Some (payload H t)"
  using subtrees_self by (auto simp: holds_def)

lemma load_tree:
  assumes "table H T tr" "holds H T tr t"
  shows "load tr (root_of H t) = Some (node_of H t)"
  using assms holds_self [OF assms(2)] deserialize_serialize
  by (simp add: load_def table_def safe_def payload_def)

text \<open>Writing the node of a tree whose children are held.\<close>

lemma store_keeps:
  assumes "table H T tr" "t \<in> T" "store H tr (node_of H t) = (h, tr')"
  shows "h = root_of H t \<and> bt_get (tr_nodes tr') h = Some (payload H t) \<and> table H T tr' \<and>
    (\<forall>u. holds H T tr u \<longrightarrow> holds H T tr' u)"
proof -
  have st: "h = root_of H t" "bt_get (tr_nodes tr') = (bt_get (tr_nodes tr))(h \<mapsto> payload H t)"
    using assms(3) by (auto simp: store_def root_of_def payload_def Let_def)
  have same: "payload H u = payload H t" if "u \<in> T" "root_of H u = h" for u
    using assms(1,2) that st(1) by (auto simp: table_def safe_def root_of_payload dest: inj_onD)
  then have holds: "holds H T tr' u" if "holds H T tr u" for u
    using that by (auto simp: holds_def st(2))
  moreover have "table H T tr'"
    using assms(1,2) holds by (auto simp: table_def st)
  ultimately show ?thesis using st by simp
qed

lemma store_tree:
  assumes "table H T tr" "t \<in> T" "\<forall>u\<in>set (subtrees t) - {t}. holds H T tr u"
  shows "\<exists>tr'. store H tr (node_of H t) = (root_of H t, tr') \<and> grown H T tr t tr'"
proof -
  obtain h tr' where st: "store H tr (node_of H t) = (h, tr')" by fastforce
  note k = store_keeps [OF assms(1,2) st]
  have "holds H T tr' t"
    unfolding holds_def using assms(2,3) k holds_self by blast
  then show ?thesis using st k by (auto simp: grown_def)
qed

lemma holds_subtree: "holds H T tr t \<Longrightarrow> u \<in> set (subtrees t) \<Longrightarrow> holds H T tr u"
proof (induction t)
  case (TBranch cs v)
  then show ?case by (auto simp del: subtrees.simps simp: set_subtrees_branch)
qed auto

lemma store_leaf:
  "table H T tr \<Longrightarrow> TLeaf p v \<in> T \<Longrightarrow>
    \<exists>tr'. store H tr (NLeaf p v) = (root_of H (TLeaf p v), tr') \<and> grown H T tr (TLeaf p v) tr'"
  using store_tree [of H T tr "TLeaf p v"] by simp

lemma store_ext:
  "table H T tr \<Longrightarrow> TExt p n \<in> T \<Longrightarrow> holds H T tr n \<Longrightarrow>
    \<exists>tr'. store H tr (NExtension p (root_of H n)) = (root_of H (TExt p n), tr') \<and> grown H T tr (TExt p n) tr'"
  using store_tree [of H T tr "TExt p n"] holds_subtree by auto

lemma store_branch:
  "table H T tr \<Longrightarrow> TBranch cs v \<in> T \<Longrightarrow> \<forall>c. Some c \<in> set cs \<longrightarrow> holds H T tr c \<Longrightarrow>
    \<exists>tr'. store H tr (NBranch (map (map_option (root_of H)) cs) v) = (root_of H (TBranch cs v), tr') \<and>
      grown H T tr (TBranch cs v) tr'"
proof -
  assume *: "table H T tr" "TBranch cs v \<in> T" "\<forall>c. Some c \<in> set cs \<longrightarrow> holds H T tr c"
  then have "\<forall>u\<in>set (subtrees (TBranch cs v)) - {TBranch cs v}. holds H T tr u"
    unfolding set_subtrees_branch using holds_subtree by fast
  then show ?thesis using store_tree [OF *(1,2)] by simp
qed

lemma store_under_tree:
  "table H T tr \<Longrightarrow> t_ext p n \<in> T \<Longrightarrow> holds H T tr n \<Longrightarrow>
    \<exists>tr'. store_under H p (root_of H n, tr) = (root_of H (t_ext p n), tr') \<and> grown H T tr (t_ext p n) tr'"
  using store_ext [of H T tr p n] by (auto simp: store_under_def t_ext_def grown_def)

lemma grownD:
  "grown H T tr t tr' \<Longrightarrow> table H T tr'" "grown H T tr t tr' \<Longrightarrow> holds H T tr' t"
  "grown H T tr t tr' \<Longrightarrow> holds H T tr u \<Longrightarrow> holds H T tr' u"
  by (auto simp: grown_def)

lemma grown_trans: "grown H T tr t tr' \<Longrightarrow> grown H T tr' u tr'' \<Longrightarrow> grown H T tr u tr''"
  by (auto simp: grown_def)

section \<open>Lookup\<close>

lemma child_at_hashes:
  "unat n < length cs \<Longrightarrow> child_at (map (map_option f) cs) n = Some (map_option f (cs ! unat n))"
  by (simp add: child_at_def)

lemma get_at_tree:
  "table H T tr \<Longrightarrow> wf_mpt t \<Longrightarrow> nibs k \<Longrightarrow> holds H T tr t \<Longrightarrow> get_at tr (root_of H t) k = Some (t_get t k)"
proof (induction t k rule: t_get.induct)
  case (5 cs v n r)
  have n: "unat n < 16" "length cs = 16" using 5 by (simp_all add: nibble_less)
  have "holds H T tr c" if "cs ! unat n = Some c" for c
    using 5(5) that n by simp (metis nth_mem)
  then show ?case
    using 5 n load_tree [OF 5(2,5)] wf_mpt_child [OF 5(3) n(1)]
    by (subst get_at.simps) (auto simp: child_at_hashes split: option.split)
qed (subst get_at.simps, simp add: load_tree)+

section \<open>Insertion\<close>

lemma set_child_hashes:
  "unat n < length cs \<Longrightarrow>
    set_child (map (map_option f) cs) n (Some (f c)) = Some (map (map_option f) (cs[unat n := Some c]))"
  by (simp add: set_child_def map_update)

lemma no_children_hashes: "map (map_option f) no_children = replicate 16 None"
  by (simp add: no_children_def)

definition all_held :: "(bytes \<Rightarrow> Hash) \<Rightarrow> mpt set \<Rightarrow> Trie \<Rightarrow> mpt option list \<Rightarrow> bool" where
  "all_held H T tr cs = (length cs = 16 \<and> (\<forall>c. Some c \<in> set cs \<longrightarrow> holds H T tr c))"

lemma all_held_simps [simp]:
  "all_held H T tr no_children"
  "all_held H T tr cs \<Longrightarrow> length cs = 16"
  by (auto simp: all_held_def no_children_def)

lemma all_held_update:
  "all_held H T tr cs \<Longrightarrow> (\<And>d. c = Some d \<Longrightarrow> holds H T tr d) \<Longrightarrow> all_held H T tr (cs[i := c])"
  using set_update_subset_insert [of cs i c] by (auto simp: all_held_def)

lemma all_held_grown: "all_held H T tr cs \<Longrightarrow> grown H T tr t tr' \<Longrightarrow> all_held H T tr' cs"
  by (auto simp: all_held_def grown_def)

lemma store_held_branch:
  "table H T tr \<Longrightarrow> TBranch cs v \<in> T \<Longrightarrow> all_held H T tr cs \<Longrightarrow>
    \<exists>tr'. store H tr (NBranch (map (map_option (root_of H)) cs) v) = (root_of H (TBranch cs v), tr') \<and>
      grown H T tr (TBranch cs v) tr'"
  by (rule store_branch) (auto simp: all_held_def)

lemma place_rest_tree:
  assumes "table H T tr" "all_held H T tr cs" "nibs r" "r \<noteq> [] \<Longrightarrow> TLeaf (tl r) v \<in> T"
    and "put_rest r v (cs, bv) = (cs', bv')"
  shows "\<exists>tr'. place_rest H tr r v (map (map_option (root_of H)) cs, bv) =
      Some ((map (map_option (root_of H)) cs', bv'), tr') \<and>
    table H T tr' \<and> all_held H T tr' cs' \<and> (\<forall>u. holds H T tr u \<longrightarrow> holds H T tr' u)"
proof (cases r)
  case Nil
  then show ?thesis using assms by auto
next
  case (Cons n r')
  obtain tr' where "store H tr (NLeaf r' v) = (root_of H (TLeaf r' v), tr')" "grown H T tr (TLeaf r' v) tr'"
    using store_leaf [OF assms(1)] assms(4) Cons by auto
  moreover have "cs' = cs[unat n := Some (TLeaf r' v)]" "bv' = bv" "unat n < 16"
    using assms(3,5) Cons by (auto simp: nibble_less)
  ultimately show ?thesis
    using Cons assms(2) grownD all_held_update [OF all_held_grown [OF assms(2)]]
    by (fastforce simp: set_child_hashes)
qed

lemma put_rest_cases:
  assumes "nibs a" "nibs b" "a = [] \<or> b = [] \<or> hd a \<noteq> hd b" "a \<noteq> b"
    and "put_rest a av (no_children, None) = (cs, w)" "put_rest b bv (cs, w) = (ds, x)"
  shows "(a \<noteq> [] \<longrightarrow> Some (TLeaf (tl a) av) \<in> set ds) \<and> (b \<noteq> [] \<longrightarrow> Some (TLeaf (tl b) bv) \<in> set ds)"
proof -
  have upd: "Some c \<in> set (es[unat n := Some c])" if "length es = 16" "(n :: u8) < 16" for es c n
    using that by (intro set_update_memI) (simp add: nibble_less)
  have keep: "Some c \<in> set (no_children[unat n := Some c, unat m := Some d])"
    if "n < 16" "(n :: u8) \<noteq> m" for c d n m
    using that nth_mem [of "unat n" "no_children[unat n := Some c, unat m := Some d]"]
    by (simp add: nibble_less unat_eq_iff8)
  show ?thesis
    using assms by (cases a; cases b) (auto intro!: upd keep)
qed

lemma split_tree:
  assumes "table H T tr" "nibs a" "nibs b" "a = [] \<or> b = [] \<or> hd a \<noteq> hd b" "a \<noteq> b"
    and "set (subtrees (t_split a av b bv)) \<subseteq> T"
  shows "\<exists>tr'. split_to_branch H tr a av b bv = Some (root_of H (t_split a av b bv), tr') \<and>
    grown H T tr (t_split a av b bv) tr'"
proof -
  obtain cs w where p: "put_rest a av (no_children, None) = (cs, w)" by fastforce
  obtain ds x where q: "put_rest b bv (cs, w) = (ds, x)" by fastforce
  have t: "t_split a av b bv = TBranch ds x" by (simp add: t_split_def p q)
  have inT: "a \<noteq> [] \<Longrightarrow> TLeaf (tl a) av \<in> T" "b \<noteq> [] \<Longrightarrow> TLeaf (tl b) bv \<in> T" "TBranch ds x \<in> T"
    using put_rest_cases [OF assms(2-5) p q] assms(6) unfolding t set_subtrees_branch
    by (auto dest!: subsetD)
  obtain tr1 where 1: "place_rest H tr a av (replicate 16 None, None) = Some ((map (map_option (root_of H)) cs, w), tr1)"
    "table H T tr1" "all_held H T tr1 cs" "\<forall>u. holds H T tr u \<longrightarrow> holds H T tr1 u"
    using place_rest_tree [OF assms(1) _ assms(2) inT(1) p] by (auto simp: no_children_hashes)
  obtain tr2 where 2: "place_rest H tr1 b bv (map (map_option (root_of H)) cs, w) = Some ((map (map_option (root_of H)) ds, x), tr2)"
    "table H T tr2" "all_held H T tr2 ds" "\<forall>u. holds H T tr1 u \<longrightarrow> holds H T tr2 u"
    using place_rest_tree [OF 1(2,3) assms(3) inT(2) q] by auto
  obtain tr3 where 3: "store H tr2 (NBranch (map (map_option (root_of H)) ds) x) = (root_of H (TBranch ds x), tr3)"
    "grown H T tr2 (TBranch ds x) tr3"
    using store_held_branch [OF 2(2) inT(3) 2(3)] by blast
  show ?thesis
    using 1 2 3 unfolding t by (auto simp: split_to_branch_def grown_def)
qed

lemma subtrees_t_ext:
  "set (subtrees (t_ext p n)) \<subseteq> T \<Longrightarrow> t_ext p n \<in> T \<and> set (subtrees n) \<subseteq> T"
  using subtrees_self by (auto simp: t_ext_def split: if_splits)

lemma subtrees_branch:
  "set (subtrees (TBranch cs v)) \<subseteq> T \<Longrightarrow> TBranch cs v \<in> T \<and> (\<forall>c. Some c \<in> set cs \<longrightarrow> set (subtrees c) \<subseteq> T)"
  unfolding set_subtrees_branch by blast

lemma branch_under:
  assumes "table H T tr" "all_held H T tr cs" "set (subtrees (t_ext p (TBranch cs v))) \<subseteq> T"
  shows "\<exists>tr'. store_under H p (store H tr (NBranch (map (map_option (root_of H)) cs) v)) =
      (root_of H (t_ext p (TBranch cs v)), tr') \<and> grown H T tr (t_ext p (TBranch cs v)) tr'"
proof -
  have T: "t_ext p (TBranch cs v) \<in> T" "TBranch cs v \<in> T"
    using subtrees_t_ext [OF assms(3)] subtrees_branch by blast+
  obtain tr1 where 1: "store H tr (NBranch (map (map_option (root_of H)) cs) v) = (root_of H (TBranch cs v), tr1)"
    "grown H T tr (TBranch cs v) tr1"
    using store_held_branch [OF assms(1) T(2) assms(2)] by blast
  show ?thesis
    using store_under_tree [OF grownD(1) [OF 1(2)] T(1) grownD(2) [OF 1(2)]] grown_trans [OF 1(2)]
    unfolding 1(1) by blast
qed

lemma set_no_child:
  "unat n < 16 \<Longrightarrow> set_child (replicate 16 None) n (Some (f c)) = Some (map (map_option f) (no_children[unat n := Some c]))"
  using set_child_hashes [of n no_children f c] by (simp add: no_children_hashes)

lemma split_ext_tree:
  assumes tr: "table H T tr" "holds H T tr n" and nibs: "nibs p" "nibs k" and "\<not> starts_with k p"
    and T: "set (subtrees (t_insert (TExt p n) k v)) \<subseteq> T"
  shows "\<exists>tr'. insert_split_ext H tr p (root_of H n) k v = Some (root_of H (t_insert (TExt p n) k v), tr') \<and>
    grown H T tr (t_insert (TExt p n) k v) tr'"
proof -
  obtain c p' k' where c: "p = c @ p'" "k = c @ k'" "common_prefix_len p' k' = 0"
    "p' = [] \<or> k' = [] \<or> hd p' \<noteq> hd k'" by (rule common_prefix_split)
  then obtain x p'' where p': "p' = x # p''" using assms(5) by (cases p') auto
  let ?e = "t_ext p'' n"
  let ?cs = "no_children[unat x := Some ?e]"
  have x: "unat x < 16" using nibs by (simp add: c p' nibble_less)
  have e: "Some ?e \<in> set ?cs" using x by (intro set_update_memI) simp
  have ext: "\<exists>tr1. store_under H p'' (root_of H n, tr) = (root_of H ?e, tr1) \<and> grown H T tr ?e tr1 \<and> all_held H T tr1 ?cs"
    if "?e \<in> T"
    using store_under_tree [OF tr(1) that tr(2)] grownD(2) by (fastforce intro!: all_held_update)
  show ?thesis
  proof (cases k')
    case Nil
    have t: "t_insert (TExt p n) k v = t_ext k (TBranch ?cs (Some v))"
      using assms(5) by (simp add: c p' Nil Let_def)
    have "?e \<in> T" using T e unfolding t by (blast dest: subtrees_t_ext subtrees_branch intro: subtrees_self)
    then obtain tr1 where 1: "store_under H p'' (root_of H n, tr) = (root_of H ?e, tr1)"
      "grown H T tr ?e tr1" "all_held H T tr1 ?cs" using ext by blast
    have "insert_split_ext H tr p (root_of H n) k v =
        Some (store_under H k (store H tr1 (NBranch (map (map_option (root_of H)) ?cs) (Some v))))"
      using 1(1) x by (simp add: insert_split_ext_def c p' Nil set_no_child)
    then show ?thesis
      using branch_under [OF grownD(1) [OF 1(2)] 1(3) T [unfolded t]] grown_trans [OF 1(2)] unfolding t
      by auto
  next
    case (Cons y k'')
    let ?ds = "?cs[unat y := Some (TLeaf k'' v)]"
    have y: "unat y < 16" "unat y \<noteq> unat x" "x \<noteq> y"
      using nibs c(4) by (auto simp: c Cons p' nibble_less unat_eq_iff8)
    have t: "t_insert (TExt p n) k v = t_ext c (TBranch ?ds None)"
      using y(3) by (simp add: c p' Cons Let_def)
    have "Some ?e \<in> set ?ds" "Some (TLeaf k'' v) \<in> set ?ds"
      using x y nth_mem [of "unat x" ?ds] by (auto intro!: set_update_memI)
    then have "?e \<in> T" "TLeaf k'' v \<in> T"
      using T unfolding t by (blast dest: subtrees_t_ext subtrees_branch intro: subtrees_self)+
    moreover from this(1) obtain tr1 where 1: "store_under H p'' (root_of H n, tr) = (root_of H ?e, tr1)"
      "grown H T tr ?e tr1" "all_held H T tr1 ?cs" using ext by blast
    ultimately obtain tr2 where 2: "store H tr1 (NLeaf k'' v) = (root_of H (TLeaf k'' v), tr2)"
      "grown H T tr1 (TLeaf k'' v) tr2" using store_leaf [OF grownD(1) [OF 1(2)]] by blast
    have "all_held H T tr2 ?ds"
      using all_held_grown [OF 1(3) 2(2)] grownD(2) [OF 2(2)] by (auto intro!: all_held_update)
    moreover have "set_child (map (map_option (root_of H)) ?cs) y (Some (root_of H (TLeaf k'' v))) =
        Some (map (map_option (root_of H)) ?ds)"
      using y by (subst set_child_hashes) simp_all
    moreover from this have "insert_split_ext H tr p (root_of H n) k v =
        Some (store_under H c (store H tr2 (NBranch (map (map_option (root_of H)) ?ds) None)))"
      using 1(1) 2(1) x y(3) by (simp add: insert_split_ext_def c p' Cons set_no_child)
    ultimately show ?thesis
      using branch_under [OF grownD(1) [OF 2(2)] _ T [unfolded t]]
        grown_trans [OF 1(2) grown_trans [OF 2(2)]] unfolding t by auto
  qed
qed

lemma insert_leaf_tree:
  assumes tr: "table H T tr" "holds H T tr (TLeaf p w)" and nibs: "nibs p" "nibs k"
    and T: "set (subtrees (t_insert (TLeaf p w) k v)) \<subseteq> T"
  shows "\<exists>tr'. insert_at H tr (root_of H (TLeaf p w)) k v = Some (root_of H (t_insert (TLeaf p w) k v), tr') \<and>
    grown H T tr (t_insert (TLeaf p w) k v) tr'"
proof (cases "p = k")
  case True
  then show ?thesis
    using tr T store_leaf [of H T tr p v] by (subst insert_at.simps) (auto simp: load_tree)
next
  case False
  obtain c p' k' where c: "p = c @ p'" "k = c @ k'" "common_prefix_len p' k' = 0"
    "p' = [] \<or> k' = [] \<or> hd p' \<noteq> hd k'" by (rule common_prefix_split)
  let ?s = "t_split p' w k' v"
  have t: "t_insert (TLeaf p w) k v = t_ext c ?s"
    using False by (simp add: c Let_def)
  note T = subtrees_t_ext [OF T [unfolded t]]
  have "nibs p'" "nibs k'" "p' \<noteq> k'" using nibs False by (simp_all add: c)
  then obtain tr1 where 1: "split_to_branch H tr p' w k' v = Some (root_of H ?s, tr1)" "grown H T tr ?s tr1"
    using split_tree [OF tr(1) _ _ c(4)] T by metis
  then obtain tr2 where 2: "store_under H c (root_of H ?s, tr1) = (root_of H (t_ext c ?s), tr2)"
    "grown H T tr (t_ext c ?s) tr2"
    using store_under_tree [of H T tr1 c] T grownD grown_trans by metis
  have "load tr (root_of H (TLeaf p w)) = Some (NLeaf p w)" using load_tree [OF tr] by simp
  then show ?thesis
    unfolding t using 1 2 False by (subst insert_at.simps) (simp add: c)
qed

lemma all_held_branch: "holds H T tr (TBranch cs v) \<Longrightarrow> wf_mpt (TBranch cs v) \<Longrightarrow> all_held H T tr cs"
  by (auto simp: all_held_def)

lemma all_held_child: "all_held H T tr cs \<Longrightarrow> i < 16 \<Longrightarrow> cs ! i = Some c \<Longrightarrow> holds H T tr c"
  unfolding all_held_def by (metis nth_mem)

lemma insert_at_tree:
  "table H T tr \<Longrightarrow> holds H T tr t \<Longrightarrow> wf_mpt t \<Longrightarrow> nibs k \<Longrightarrow> set (subtrees (t_insert t k v)) \<subseteq> T \<Longrightarrow>
    \<exists>tr'. insert_at H tr (root_of H t) k v = Some (root_of H (t_insert t k v), tr') \<and> grown H T tr (t_insert t k v) tr'"
proof (induction t k v arbitrary: tr rule: t_insert.induct)
  case (1 k v)
  then show ?case using store_leaf [of H T tr k v] by (subst insert_at.simps) (auto simp: load_tree)
next
  case (2 p w k v)
  then show ?case by (intro insert_leaf_tree) auto
next
  case (3 p n k v)
  have ld: "load tr (root_of H (TExt p n)) = Some (NExtension p (root_of H n))"
    using load_tree [OF 3(2,3)] by simp
  show ?case
  proof (cases "starts_with k p")
    case True
    let ?n = "t_insert n (drop (length p) k) v"
    obtain tr1 where 1: "insert_at H tr (root_of H n) (drop (length p) k) v = Some (root_of H ?n, tr1)" "grown H T tr ?n tr1"
      using 3(1) [OF True 3(2)] "3.prems" True by auto
    have "TExt p ?n \<in> T" using "3.prems"(5) True by simp
    then obtain tr2 where "store H tr1 (NExtension p (root_of H ?n)) = (root_of H (TExt p ?n), tr2)"
      "grown H T tr1 (TExt p ?n) tr2"
      using store_ext [OF grownD(1) [OF 1(2)] _ grownD(2) [OF 1(2)]] by blast
    then show ?thesis
      using ld True 1 grown_trans [OF 1(2)] by (subst insert_at.simps) simp
  next
    case False
    then show ?thesis
      using ld split_ext_tree [OF 3(2) _ _ 3(5) False 3(6)] "3.prems" by (subst insert_at.simps) auto
  qed
next
  case (4 cs bv v)
  then show ?case
    using load_tree [OF 4(1,2)] store_branch [of H T tr cs "Some v"] subtrees_branch [of cs "Some v" T]
    by (subst insert_at.simps) auto
next
  case (5 cs bv n r v)
  let ?c = "case cs ! unat n of Some c \<Rightarrow> c | None \<Rightarrow> TEmpty"
  let ?c' = "t_insert ?c r v"
  let ?ds = "cs[unat n := Some ?c']"
  have n: "unat n < 16" "length cs = 16" "nibs r" using "5.prems"(3,4) by (simp_all add: nibble_less)
  have held: "all_held H T tr cs" using all_held_branch "5.prems"(2,3) by blast
  have "Some ?c' \<in> set ?ds" using n by (intro set_update_memI) simp
  then have T: "TBranch ?ds bv \<in> T" "set (subtrees ?c') \<subseteq> T"
    using subtrees_branch [OF "5.prems"(5) [unfolded t_insert.simps]] by blast+
  have c: "holds H T tr ?c" "wf_mpt ?c"
    using "5.prems"(1) all_held_child [OF held n(1)] wf_mpt_child [OF "5.prems"(3) n(1)]
    by (auto simp: table_def split: option.split)
  then obtain tr1 where 1: "insert_at H tr (root_of H ?c) r v = Some (root_of H ?c', tr1)" "grown H T tr ?c' tr1"
    using "5.IH" [OF "5.prems"(1) c n(3) T(2)] by blast
  have "all_held H T tr1 ?ds"
    using all_held_grown [OF held 1(2)] grownD(2) [OF 1(2)] by (auto intro!: all_held_update)
  then obtain tr2 where 2: "store H tr1 (NBranch (map (map_option (root_of H)) ?ds) bv) = (root_of H (TBranch ?ds bv), tr2)"
    "grown H T tr1 (TBranch ?ds bv) tr2"
    using store_held_branch [OF grownD(1) [OF 1(2)] T(1)] by blast
  have arg: "(case map_option (root_of H) (cs ! unat n) of Some h' \<Rightarrow> h' | None \<Rightarrow> hash_node H NEmpty) = root_of H ?c"
    by (simp add: root_of_def split: option.split)
  have sc: "set_child (map (map_option (root_of H)) cs) n (Some (root_of H ?c')) = Some (map (map_option (root_of H)) ?ds)"
    using n by (simp add: set_child_hashes)
  have at: "child_at (map (map_option (root_of H)) cs) n = Some (map_option (root_of H) (cs ! unat n))"
    using n by (simp add: child_at_hashes)
  have "insert_at H tr (root_of H (TBranch cs bv)) (n # r) v = Some (root_of H (TBranch ?ds bv), tr2)"
    by (subst insert_at.simps)
      (simp only: load_tree [OF "5.prems"(1,2)] node_of_root bind.simps Node.case list.case prod.case at arg 1(1) sc 2(1))
  then show ?case using grown_trans [OF 1(2) 2(2)] by simp
qed

section \<open>Removal\<close>

fun opt_list :: "'a option \<Rightarrow> 'a list" where
  "opt_list None = []"
| "opt_list (Some x) = [x]"

text \<open>The trees whose nodes a removal writes: the result at each level of the walk.\<close>

function removed_trees :: "mpt \<Rightarrow> bytes \<Rightarrow> mpt list" where
  "removed_trees TEmpty k = []"
| "removed_trees (TLeaf p v) k = []"
| "removed_trees (TExt p n) k =
    (if starts_with k p
     then removed_trees n (drop (length p) k) @ opt_list (t_remove (TExt p n) k) else [])"
| "removed_trees (TBranch cs v) [] = opt_list (t_remove (TBranch cs v) [])"
| "removed_trees (TBranch cs v) (n # r) =
    (case cs ! unat n of
       None \<Rightarrow> []
     | Some c \<Rightarrow> removed_trees c r @ opt_list (t_remove (TBranch cs v) (n # r)))"
  by pat_completeness auto
termination
  by (relation "measures [\<lambda>(t, k). length k, \<lambda>(t, k). size t]") auto

definition grown_opt :: "(bytes \<Rightarrow> Hash) \<Rightarrow> mpt set \<Rightarrow> Trie \<Rightarrow> mpt option \<Rightarrow> Trie \<Rightarrow> bool" where
  "grown_opt H T tr t tr' =
    (table H T tr' \<and> (\<forall>u. t = Some u \<longrightarrow> holds H T tr' u) \<and> (\<forall>u. holds H T tr u \<longrightarrow> holds H T tr' u))"

lemma grown_opt_Some [simp]: "grown_opt H T tr (Some t) tr' \<longleftrightarrow> grown H T tr t tr'"
  by (auto simp: grown_opt_def grown_def)

lemma grown_opt_None: "table H T tr \<Longrightarrow> grown_opt H T tr None tr"
  by (simp add: grown_opt_def)

lemma store_again:
  assumes "table H T tr" "holds H T tr t"
  shows "\<exists>tr'. store H tr (node_of H t) = (root_of H t, tr') \<and> grown H T tr t tr'"
  using store_tree [OF assms(1)] holds_self [OF assms(2)] holds_subtree [OF assms(2)] by blast

lemma store_new_top:
  assumes "table H T tr" "t \<in> T" "holds H T tr u" "set (subtrees t) \<subseteq> insert t (set (subtrees u))"
  shows "\<exists>tr'. store H tr (node_of H t) = (root_of H t, tr') \<and> grown H T tr t tr'"
  using store_tree [OF assms(1,2)] holds_subtree [OF assms(3)] assms(4) by blast

lemma prefix_child_tree:
  assumes "table H T tr" "holds H T tr c" "t_prefix n c \<in> T"
  shows "\<exists>tr'. prefix_child H tr n (root_of H c) = Some (root_of H (t_prefix n c), tr') \<and>
    grown H T tr (t_prefix n c) tr'"
proof -
  have "set (subtrees (t_prefix n c)) \<subseteq> insert (t_prefix n c) (set (subtrees c))"
    by (cases c) auto
  then show ?thesis
    using store_new_top [OF assms(1,3,2)] load_tree [OF assms(1,2)]
    by (cases c) (auto simp: prefix_child_def)
qed

lemma normalize_tree:
  assumes "table H T tr" "holds H T tr c" "t_normalize p c \<in> T"
  shows "\<exists>tr'. normalize_extension H tr p (root_of H c) = Some (root_of H (t_normalize p c), tr') \<and>
    grown H T tr (t_normalize p c) tr'"
proof -
  have "set (subtrees (t_normalize p c)) \<subseteq> insert (t_normalize p c) (set (subtrees c))"
    by (cases c) auto
  then show ?thesis
    using store_new_top [OF assms(1,3,2)] load_tree [OF assms(1,2)]
    by (cases c) (auto simp: normalize_extension_def)
qed

lemma present_map: "present (map (map_option f) cs) = map (\<lambda>(i, c). (i, f c)) (present cs)"
proof -
  have "present (map (map_option f) cs) = concat (map (\<lambda>(i, c). case c of Some h \<Rightarrow> [(i, h)] | None \<Rightarrow> [])
      (map (\<lambda>(i, c). (i, map_option f c)) (enumerate 0 cs)))"
    unfolding present_def by (simp add: enumerate_eq_zip zip_map2)
  also have "\<dots> = map (\<lambda>(i, c). (i, f c)) (present cs)"
    unfolding present_def by (induction "enumerate 0 cs") (auto simp: map_concat comp_def intro!: arg_cong [of _ _ concat] split: option.split)
  finally show ?thesis .
qed

lemma fold_update_nth:
  "distinct (map fst ps) \<Longrightarrow> j < length ch \<Longrightarrow>
    fold (\<lambda>(i, h) ch. ch[i := Some h]) ps ch ! j = (case map_of ps j of Some h \<Rightarrow> Some h | None \<Rightarrow> ch ! j)"
proof (induction ps arbitrary: ch)
  case (Cons q ps)
  then show ?case
    by (cases q) (auto simp: nth_list_update split: option.split dest: map_of_SomeD weak_map_of_SomeI intro: rev_image_eqI)
qed simp

lemma length_fold_update [simp]: "length (fold (\<lambda>(i, h) ch. ch[i := Some h]) ps ch) = length ch"
  by (induction ps arbitrary: ch) auto

lemma rebuild_children:
  assumes "length cs = 16"
  shows "fold (\<lambda>(i, h) ch. ch[i := Some h]) (present cs) (replicate 16 None) = cs"
proof (rule nth_equalityI)
  show "length (fold (\<lambda>(i, h) ch. ch[i := Some h]) (present cs) (replicate 16 None)) = length cs"
    using assms by simp
  fix j
  assume "j < length (fold (\<lambda>(i, h) ch. ch[i := Some h]) (present cs) (replicate 16 None))"
  then have j: "j < 16" by simp
  have "map_of (present cs) j = cs ! j"
  proof (cases "cs ! j")
    case None
    then have "j \<notin> fst ` set (present cs)" by (auto simp: set_present)
    then show ?thesis using None by (simp add: map_of_eq_None_iff)
  next
    case (Some c)
    then have "(j, c) \<in> set (present cs)" using j assms by (simp add: set_present)
    then show ?thesis using Some map_of_is_SomeI [OF distinct_present] by simp
  qed
  then show "fold (\<lambda>(i, h) ch. ch[i := Some h]) (present cs) (replicate 16 None) ! j = cs ! j"
    using j distinct_present [of cs] by (simp add: fold_update_nth split: option.split)
qed

lemma in_opt_list [simp]: "x \<in> set (opt_list t) \<longleftrightarrow> t = Some x"
  by (cases t) auto

lemma collapse_tree:
  assumes tr: "table H T tr" "all_held H T tr cs" and T: "set (opt_list (t_collapse cs v)) \<subseteq> T"
  shows "\<exists>tr'. collapse_branch H tr (map (map_option (root_of H)) cs) v =
      Some (map_option (root_of H) (t_collapse cs v), tr') \<and> grown_opt H T tr (t_collapse cs v) tr'"
proof -
  let ?hs = "map (map_option (root_of H)) cs"
  have len: "length cs = 16" using tr(2) by simp
  consider (none) "present cs = []" "v = None" | (val) w where "present cs = []" "v = Some w"
    | (one) i c where "present cs = [(i, c)]" "v = None"
    | (many) "collapse_branch H tr ?hs v = Some (some_hash (store H tr (NBranch ?hs v)))"
        "t_collapse cs v = Some (TBranch cs v)"
    using rebuild_children [of ?hs] len
    by (cases "present cs"; cases v; cases "tl (present cs)")
      (auto simp: collapse_branch_def t_collapse_def present_map)
  then show ?thesis
  proof cases
    case none
    then show ?thesis using tr by (simp add: collapse_branch_def t_collapse_def present_map grown_opt_None)
  next
    case val
    then show ?thesis
      using store_leaf [OF tr(1), of "[]" w] T
      by (auto simp: collapse_branch_def t_collapse_def present_map some_hash_def)
  next
    case one
    then have "holds H T tr c"
      using all_held_child [OF tr(2), of i c] set_present [of i c cs] len by simp
    then show ?thesis
      using one T prefix_child_tree [OF tr(1), of c "of_nat i"]
      by (auto simp: collapse_branch_def t_collapse_def present_map some_hash_def)
  next
    case many
    then show ?thesis
      using store_held_branch [OF tr(1) _ tr(2), of v] T by (auto simp: some_hash_def)
  qed
qed

lemma grown_optD:
  "grown_opt H T tr t tr' \<Longrightarrow> table H T tr'" "grown_opt H T tr t tr' \<Longrightarrow> t = Some u \<Longrightarrow> holds H T tr' u"
  by (auto simp: grown_opt_def)

lemma grown_opt_trans:
  "grown_opt H T tr t tr' \<Longrightarrow> grown_opt H T tr' u tr'' \<Longrightarrow> grown_opt H T tr u tr''"
  by (auto simp: grown_opt_def)

lemma all_held_grown_opt: "all_held H T tr cs \<Longrightarrow> grown_opt H T tr t tr' \<Longrightarrow> all_held H T tr' cs"
  by (auto simp: all_held_def grown_opt_def)

lemma set_child_opt:
  "unat n < length cs \<Longrightarrow>
    set_child (map (map_option f) cs) n (map_option f c) = Some (map (map_option f) (cs[unat n := c]))"
  by (simp add: set_child_def map_update)

lemma remove_branch_tree:
  assumes tr: "table H T tr" "holds H T tr (TBranch cs v)" and wf: "wf_mpt (TBranch cs v)" and n: "n < 16"
    and c: "cs ! unat n = Some c"
    and sub: "remove_at H tr (root_of H c) r = Some (map_option (root_of H) (t_remove c r), tr1)"
      "grown_opt H T tr (t_remove c r) tr1"
    and T: "set (opt_list (t_remove (TBranch cs v) (n # r))) \<subseteq> T"
  shows "\<exists>tr'. remove_at H tr (root_of H (TBranch cs v)) (n # r) =
      Some (map_option (root_of H) (t_remove (TBranch cs v) (n # r)), tr') \<and>
    grown_opt H T tr (t_remove (TBranch cs v) (n # r)) tr'"
proof -
  let ?hs = "map (map_option (root_of H)) cs"
  let ?ds = "cs[unat n := t_remove c r]"
  have n': "unat n < 16" "length cs = 16" using wf n by (simp_all add: nibble_less)
  have held: "all_held H T tr1 ?ds"
    using all_held_grown_opt [OF all_held_branch [OF tr(2) wf] sub(2)] grown_optD(2) [OF sub(2)]
    by (auto intro!: all_held_update)
  have at: "child_at ?hs n = Some (Some (root_of H c))" "set_child ?hs n (map_option (root_of H) (t_remove c r)) = Some (map (map_option (root_of H)) ?ds)"
    using n' c by (simp_all add: child_at_hashes set_child_opt)
  have "\<exists>tr'. (case t_remove c r of
        None \<Rightarrow> collapse_branch H tr1 (map (map_option (root_of H)) ?ds) v
      | Some new_c \<Rightarrow> Some (some_hash (store H tr1 (NBranch (map (map_option (root_of H)) ?ds) v)))) =
      Some (map_option (root_of H) (t_remove (TBranch cs v) (n # r)), tr') \<and>
      grown_opt H T tr1 (t_remove (TBranch cs v) (n # r)) tr'"
    using collapse_tree [OF grown_optD(1) [OF sub(2)] held, of v]
      store_held_branch [OF grown_optD(1) [OF sub(2)] _ held, of v] T c
    by (cases "t_remove c r") (auto simp: some_hash_def simp del: map_update)
  moreover have "remove_at H tr (root_of H (TBranch cs v)) (n # r) = (case t_remove c r of
        None \<Rightarrow> collapse_branch H tr1 (map (map_option (root_of H)) ?ds) v
      | Some new_c \<Rightarrow> Some (some_hash (store H tr1 (NBranch (map (map_option (root_of H)) ?ds) v))))"
    by (subst remove_at.simps)
      (simp add: load_tree [OF tr] at sub(1) del: map_update split: option.split)
  ultimately show ?thesis using grown_opt_trans [OF sub(2)] by auto
qed

lemma remove_at_tree:
  "table H T tr \<Longrightarrow> holds H T tr t \<Longrightarrow> wf_mpt t \<Longrightarrow> nibs k \<Longrightarrow> set (removed_trees t k) \<subseteq> T \<Longrightarrow>
    \<exists>tr'. remove_at H tr (root_of H t) k = Some (map_option (root_of H) (t_remove t k), tr') \<and>
      grown_opt H T tr (t_remove t k) tr'"
proof (induction t k arbitrary: tr rule: t_remove.induct)
  case (1 k)
  then show ?case by (subst remove_at.simps) (simp add: load_tree grown_opt_None)
next
  case (2 p v k)
  then show ?case
    using store_again [OF 2(1,2)] by (subst remove_at.simps) (auto simp: load_tree grown_opt_None some_hash_def)
next
  case (3 p n k)
  note ld = load_tree [OF 3(2,3)]
  show ?case
  proof (cases "starts_with k p")
    case False
    then show ?thesis
      using ld store_again [OF 3(2,3)] by (subst remove_at.simps) (auto simp: some_hash_def)
  next
    case True
    let ?r = "t_remove n (drop (length p) k)"
    obtain tr1 where 1: "remove_at H tr (root_of H n) (drop (length p) k) = Some (map_option (root_of H) ?r, tr1)"
      "grown_opt H T tr ?r tr1"
      using 3(1) [OF _ 3(2)] "3.prems" True by auto
    show ?thesis
    proof (cases ?r)
      case None
      then show ?thesis using 1 ld True by (subst remove_at.simps) simp
    next
      case (Some m)
      then have "t_normalize p m \<in> T" using "3.prems"(5) True by simp
      then obtain tr2 where "normalize_extension H tr1 p (root_of H m) = Some (root_of H (t_normalize p m), tr2)"
        "grown H T tr1 (t_normalize p m) tr2"
        using normalize_tree [OF grown_optD(1) [OF 1(2)] grown_optD(2) [OF 1(2) Some]] by blast
      then show ?thesis
        using 1 ld True Some grown_trans [of H T tr m tr1 "t_normalize p m"]
        by (subst remove_at.simps) (simp add: some_hash_def)
    qed
  qed
next
  case (4 cs v)
  then show ?case
    using load_tree [OF 4(1,2)] store_again [OF 4(1,2)]
      collapse_tree [OF 4(1) all_held_branch [OF 4(2,3)], of None]
    by (subst remove_at.simps) (auto simp: some_hash_def)
next
  case (5 cs v n r)
  have n: "unat n < 16" "length cs = 16" using "5.prems"(3,4) by (simp_all add: nibble_less)
  show ?case
  proof (cases "cs ! unat n")
    case None
    then show ?thesis
      using load_tree [OF "5.prems"(1,2)] store_again [OF "5.prems"(1,2)] n
      by (subst remove_at.simps) (auto simp: child_at_hashes some_hash_def)
  next
    case (Some c)
    then obtain tr1 where "remove_at H tr (root_of H c) r = Some (map_option (root_of H) (t_remove c r), tr1)"
      "grown_opt H T tr (t_remove c r) tr1"
      using "5.IH" [OF Some "5.prems"(1)] all_held_child [OF all_held_branch [OF "5.prems"(2,3)] n(1) Some]
        wf_mpt_child [OF "5.prems"(3) n(1) Some] "5.prems"(4,5) by auto
    then show ?thesis
      using remove_branch_tree [OF "5.prems"(1-3) _ Some, of r tr1] "5.prems"(4,5) Some by simp
  qed
qed

section \<open>Nodes of canonical trees can be written\<close>

definition bounded :: "mpt \<Rightarrow> bool" where
  "bounded t = (\<forall>q v. nibs q \<longrightarrow> t_get t q = Some v \<longrightarrow> length q < 2 ^ 32 \<and> length v < 2 ^ 32)"

definition fit_tree :: "mpt \<Rightarrow> bool" where
  "fit_tree t = (canon t \<and> wf_mpt t \<and> bounded t)"

lemma length_hash_node: "\<forall>b. length (H b) = 32 \<Longrightarrow> length (hash_node H n) = 32"
  by (simp add: hash_node_def hash_encoded_def hash_to_array_def blake3_array_def)

lemma fit_node:
  assumes "\<forall>b. length (H b) = 32" "fit_tree t"
  shows "wf_node (node_of H t)"
proof (cases t)
  case (TExt p n)
  then obtain k where k: "nibs k" "t_get n k \<noteq> None"
    using assms canon_has_key [of n] by (auto simp: fit_tree_def has_key_def)
  then obtain v where "t_get n k = Some v" by blast
  then have "nibs (p @ k)" "t_get t (p @ k) = Some v"
    using assms(2) k TExt by (simp_all add: fit_tree_def)
  then have "length (p @ k) < 2 ^ 32"
    using assms(2) unfolding fit_tree_def bounded_def by blast
  then show ?thesis
    using assms TExt by (simp add: fit_tree_def root_of_def length_hash_node)
next
  case (TBranch cs v)
  have "length h = 32" if "Some h = map_option (root_of H) c" for h c
    using that by (cases c) (simp_all add: root_of_def length_hash_node [OF assms(1)])
  then show ?thesis
    using assms(2) TBranch unfolding fit_tree_def bounded_def by (auto dest: spec [of _ "[]"])
qed (use assms(2) in \<open>auto simp: fit_tree_def bounded_def dest: spec\<close>)

lemma fit_ext: "fit_tree (TExt p n) \<Longrightarrow> fit_tree n"
proof -
  assume fit: "fit_tree (TExt p n)"
  have "length q < 2 ^ 32 \<and> length v < 2 ^ 32" if q: "nibs q" "t_get n q = Some v" for q v
  proof -
    have "nibs (p @ q)" "t_get (TExt p n) (p @ q) = Some v" using q fit by (simp_all add: fit_tree_def)
    then have "length (p @ q) < 2 ^ 32 \<and> length v < 2 ^ 32"
      using fit unfolding fit_tree_def bounded_def by blast
    then show ?thesis by simp
  qed
  then show ?thesis using fit by (simp add: fit_tree_def bounded_def)
qed

lemma fit_child:
  assumes "fit_tree (TBranch cs v)" "i < 16" "cs ! i = Some c"
  shows "fit_tree c"
proof -
  have "bounded c"
    unfolding bounded_def
  proof (intro allI impI)
    fix q w
    assume q: "nibs q" "t_get c q = Some w"
    have "unat (of_nat i :: u8) = i" "(of_nat i :: u8) < 16"
      using assms(2) by (simp_all add: unat_of_nat word_less_nat_alt)
    then have "nibs (of_nat i # q)" "t_get (TBranch cs v) (of_nat i # q) = Some w"
      using q assms(3) by simp_all
    then have "length (of_nat i # q) < 2 ^ 32 \<and> length w < 2 ^ 32"
      using assms(1) unfolding fit_tree_def bounded_def by blast
    then show "length q < 2 ^ 32 \<and> length w < 2 ^ 32" by simp
  qed
  then show ?thesis
    using assms canon_child [of cs v i c] wf_mpt_child [of cs v i c] by (simp add: fit_tree_def)
qed

lemma fit_subtrees: "fit_tree t \<Longrightarrow> u \<in> set (subtrees t) \<Longrightarrow> fit_tree u"
proof (induction t)
  case (TExt p n)
  then show ?case using fit_ext by auto
next
  case (TBranch cs v)
  show ?case
  proof (cases "u = TBranch cs v")
    case False
    then obtain c where c: "Some c \<in> set cs" "u \<in> set (subtrees c)"
      using TBranch.prems(2) unfolding set_subtrees_branch by auto
    moreover have "length cs = 16" using TBranch.prems(1) by (simp add: fit_tree_def)
    ultimately have "fit_tree c" using fit_child [OF TBranch.prems(1)] by (metis in_set_conv_nth)
    then show ?thesis using TBranch.IH c by auto
  qed (use TBranch.prems in simp)
qed auto

lemma fit_remove:
  assumes "fit_tree t" "nibs k" "t_remove t k = Some u"
  shows "fit_tree u"
proof -
  have "t_get u q = (if q = k then None else t_get t q)" if "nibs q" for q
    using get_t_remove [of t k q] assms that by (simp add: fit_tree_def)
  then have "bounded u" using assms(1) by (auto simp: fit_tree_def bounded_def split: if_splits)
  then show ?thesis
    using assms canon_t_remove [of t k u] wf_t_remove [of t k u] by (simp add: fit_tree_def)
qed

lemma fit_removed: "fit_tree t \<Longrightarrow> nibs k \<Longrightarrow> u \<in> set (removed_trees t k) \<Longrightarrow> fit_tree u"
proof (induction t k rule: removed_trees.induct)
  case (3 p n k)
  then show ?case
    using fit_ext [OF 3(2)] fit_remove [OF 3(2,3)] by (cases "starts_with k p") (auto simp del: t_remove.simps)
next
  case (5 cs v n r)
  then have "unat n < 16" by (simp add: nibble_less)
  then show ?case
    using 5 fit_child [OF 5(2)] fit_remove [OF 5(2,3)] by (cases "cs ! unat n") (auto simp del: t_remove.simps)
next
  case (4 cs v)
  then show ?case using fit_remove [OF 4(1,2)] by (simp del: t_remove.simps)
qed auto

section \<open>Runs of operations\<close>

datatype TrieOp = TPut bytes bytes | TDel bytes

fun trie_op :: "(bytes \<Rightarrow> Hash) \<Rightarrow> Trie \<Rightarrow> TrieOp \<Rightarrow> Trie option" where
  "trie_op H tr (TPut k v) = trie_put H tr k v"
| "trie_op H tr (TDel k) = trie_delete H tr k"

fun trie_run :: "(bytes \<Rightarrow> Hash) \<Rightarrow> Trie \<Rightarrow> TrieOp list \<Rightarrow> Trie option" where
  "trie_run H tr [] = Some tr"
| "trie_run H tr (x # xs) = do { tr \<leftarrow> trie_op H tr x; trie_run H tr xs }"

fun map_op :: "TrieOp \<Rightarrow> (bytes \<rightharpoonup> bytes) \<Rightarrow> (bytes \<rightharpoonup> bytes)" where
  "map_op (TPut k v) m = m(k \<mapsto> v)"
| "map_op (TDel k) m = m(k := None)"

fun tree_op :: "TrieOp \<Rightarrow> mpt \<Rightarrow> mpt" where
  "tree_op (TPut k v) t = t_insert t (bytes_to_nibbles k) v"
| "tree_op (TDel k) t = t_delete t (bytes_to_nibbles k)"

fun op_trees :: "mpt \<Rightarrow> TrieOp \<Rightarrow> mpt list" where
  "op_trees t (TPut k v) = subtrees (t_insert t (bytes_to_nibbles k) v)"
| "op_trees t (TDel k) =
    (if t_get t (bytes_to_nibbles k) = None then [] else removed_trees t (bytes_to_nibbles k))"

fun written :: "mpt \<Rightarrow> TrieOp list \<Rightarrow> mpt list" where
  "written t [] = []"
| "written t (x # xs) = op_trees t x @ written (tree_op x t) xs"

fun op_fits :: "TrieOp \<Rightarrow> bool" where
  "op_fits (TPut k v) = (length k < 2 ^ 31 \<and> length v < 2 ^ 32)"
| "op_fits (TDel k) = True"

text \<open>A tree whose contents are a given map of byte keys.\<close>

definition models :: "mpt \<Rightarrow> (bytes \<rightharpoonup> bytes) \<Rightarrow> bool" where
  "models t m =
    (wf_mpt t \<and> canonical_mpt t \<and> (\<forall>k. t_get t (bytes_to_nibbles k) = m k) \<and>
     (\<forall>q. nibs q \<longrightarrow> t_get t q \<noteq> None \<longrightarrow> q \<in> range bytes_to_nibbles))"

definition small_map :: "(bytes \<rightharpoonup> bytes) \<Rightarrow> bool" where
  "small_map m = (\<forall>k v. m k = Some v \<longrightarrow> length k < 2 ^ 31 \<and> length v < 2 ^ 32)"

lemma models_empty: "models TEmpty (\<lambda>_. None)"
  by (simp add: models_def canonical_mpt_def)

lemma models_op: "models t m \<Longrightarrow> models (tree_op x t) (map_op x m)"
proof (cases x)
  case (TPut k v)
  assume "models t m"
  moreover from this have "canonical_mpt (t_insert t (bytes_to_nibbles k) v)"
    using canon_t_insert by (auto simp: models_def canonical_mpt_def)
  ultimately show ?thesis
    by (auto simp: TPut models_def wf_t_insert t_get_insert split: if_splits)
next
  case (TDel k)
  assume "models t m"
  moreover from this have "canonical_mpt (t_delete t (bytes_to_nibbles k))"
    using canonical_t_delete by (auto simp: models_def)
  ultimately show ?thesis
    by (auto simp: TDel models_def wf_t_delete t_get_delete split: if_splits)
qed

lemma models_unique: "models t m \<Longrightarrow> models u m \<Longrightarrow> t = u"
proof -
  assume *: "models t m" "models u m"
  have "t_get t q = t_get u q" if "nibs q" for q
  proof (cases "q \<in> range bytes_to_nibbles")
    case True
    then show ?thesis using * by (auto simp: models_def)
  next
    case False
    then have "t_get t q = None" "t_get u q = None" using * that by (auto simp: models_def)
    then show ?thesis by simp
  qed
  then show ?thesis using * canonical_unique by (simp add: models_def)
qed

lemma models_contents: "models t m \<Longrightarrow> m = (\<lambda>k. t_get t (bytes_to_nibbles k))"
  by (auto simp: models_def)

lemma small_map_op: "small_map m \<Longrightarrow> op_fits x \<Longrightarrow> small_map (map_op x m)"
  by (cases x) (auto simp: small_map_def)

lemma length_bytes_to_nibbles: "length (bytes_to_nibbles k) = 2 * length k"
  by (induction k) (auto simp: bytes_to_nibbles_def)

lemma models_fit:
  assumes "models t m" "small_map m"
  shows "t = TEmpty \<or> fit_tree t"
proof -
  have "length q < 2 ^ 32 \<and> length v < 2 ^ 32" if "nibs q" "t_get t q = Some v" for q v
  proof -
    have "q \<in> range bytes_to_nibbles" using assms(1) that unfolding models_def by blast
    then obtain k where k: "q = bytes_to_nibbles k" by blast
    then have "m k = Some v" using assms(1) that by (simp add: models_def)
    then show ?thesis using assms(2) by (auto simp: small_map_def k length_bytes_to_nibbles)
  qed
  then have "bounded t" by (simp add: bounded_def)
  then show ?thesis using assms by (auto simp: fit_tree_def models_def canonical_mpt_def)
qed

lemma op_trees_fit:
  assumes "models t m" "small_map m" "op_fits x" "u \<in> set (op_trees t x)"
  shows "u = TEmpty \<or> fit_tree u"
proof (cases x)
  case (TPut k v)
  have "tree_op x t = TEmpty \<or> fit_tree (tree_op x t)"
    using models_fit models_op assms(1) small_map_op [OF assms(2,3)] by blast
  then show ?thesis using assms(4) fit_subtrees by (auto simp: TPut)
next
  case (TDel k)
  then show ?thesis
    using assms(4) models_fit [OF assms(1,2)] fit_removed [of t "bytes_to_nibbles k" u]
    by (auto split: if_splits)
qed

lemma written_fit:
  "models t m \<Longrightarrow> small_map m \<Longrightarrow> list_all op_fits xs \<Longrightarrow> u \<in> set (written t xs) \<Longrightarrow> u = TEmpty \<or> fit_tree u"
proof (induction xs arbitrary: t m)
  case (Cons x xs)
  then show ?case
    using op_trees_fit [of t m x u] Cons.IH [OF models_op small_map_op, of t m x] by auto
qed simp

section \<open>The trie refines the tree\<close>

definition refines :: "(bytes \<Rightarrow> Hash) \<Rightarrow> mpt set \<Rightarrow> Trie \<Rightarrow> mpt \<Rightarrow> bool" where
  "refines H T tr t = (table H T tr \<and> holds H T tr t \<and> tr_root tr = root_of H t)"

lemma table_root [simp]: "table H T (tr\<lparr>tr_root := h\<rparr>) = table H T tr" "holds H T (tr\<lparr>tr_root := h\<rparr>) t = holds H T tr t"
  by (simp_all add: table_def holds_def)

lemma refines_new:
  assumes "safe H T" "TEmpty \<in> T"
  shows "refines H T (trie_new H) TEmpty"
  using assms
  by (auto simp: refines_def table_def holds_def trie_new_def root_of_def payload_def Let_def intro!: bexI [of _ TEmpty])

lemma refines_get:
  "refines H T tr t \<Longrightarrow> wf_mpt t \<Longrightarrow> trie_get tr k = Some (t_get t (bytes_to_nibbles k))"
  using get_at_tree [of H T tr t "bytes_to_nibbles k"] by (simp add: refines_def trie_get_def)

lemma refines_op:
  assumes r: "refines H T tr t" and wf: "wf_mpt t" and T: "set (op_trees t x) \<subseteq> T"
  shows "\<exists>tr'. trie_op H tr x = Some tr' \<and> refines H T tr' (tree_op x t)"
proof (cases x)
  case (TPut k v)
  then show ?thesis
    using insert_at_tree [of H T tr t "bytes_to_nibbles k" v] r wf T
    by (auto simp: refines_def trie_put_def grown_def)
next
  case (TDel k)
  let ?k = "bytes_to_nibbles k"
  show ?thesis
  proof (cases "t_get t ?k")
    case None
    then show ?thesis using r refines_get [OF r wf] by (simp add: TDel trie_delete_def t_delete_def)
  next
    case (Some v)
    then obtain tr1 where 1: "remove_at H tr (tr_root tr) ?k = Some (map_option (root_of H) (t_remove t ?k), tr1)"
      "grown_opt H T tr (t_remove t ?k) tr1"
      using remove_at_tree [of H T tr t ?k] r wf T by (auto simp: refines_def TDel)
    show ?thesis
    proof (cases "t_remove t ?k")
      case None
      have "table H T tr1" "holds H T tr1 TEmpty" using 1(2) by (auto simp: grown_opt_def table_def)
      then obtain tr2 where "store H tr1 NEmpty = (root_of H TEmpty, tr2)" "grown H T tr1 TEmpty tr2"
        using store_again by fastforce
      then show ?thesis
        using 1 None Some refines_get [OF r wf, of k]
        by (auto simp: TDel trie_delete_def t_delete_def refines_def grown_def)
    next
      case (Some u)
      then show ?thesis
        using 1 \<open>t_get t ?k = Some v\<close> refines_get [OF r wf, of k]
        by (auto simp: TDel trie_delete_def t_delete_def refines_def grown_def)
    qed
  qed
qed

lemma refines_run:
  "refines H T tr t \<Longrightarrow> models t m \<Longrightarrow> set (written t xs) \<subseteq> T \<Longrightarrow>
    \<exists>tr'. trie_run H tr xs = Some tr' \<and> refines H T tr' (fold tree_op xs t) \<and> models (fold tree_op xs t) (fold map_op xs m)"
proof (induction xs arbitrary: tr t m)
  case (Cons x xs)
  have "wf_mpt t" using Cons.prems(2) by (simp add: models_def)
  then obtain tr1 where "trie_op H tr x = Some tr1" "refines H T tr1 (tree_op x t)"
    using refines_op [OF Cons.prems(1), of x] Cons.prems(3) by auto
  then show ?case using Cons.IH [OF _ models_op [OF Cons.prems(2)]] Cons.prems(3) by auto
qed simp

text \<open>No two payloads written by any of the given runs have the same hash.\<close>

definition run_trees :: "TrieOp list list \<Rightarrow> mpt list" where
  "run_trees xss = TEmpty # concat (map (written TEmpty) xss)"

definition collision_free :: "(bytes \<Rightarrow> Hash) \<Rightarrow> TrieOp list list \<Rightarrow> bool" where
  "collision_free H xss = inj_on (hash_encoded H) (payload H ` set (run_trees xss))"

lemma written_safe:
  assumes "\<forall>b. length (H b) = 32" "\<forall>xs\<in>set xss. list_all op_fits xs" "collision_free H xss"
  shows "safe H (set (run_trees xss))"
proof -
  have "small_map (\<lambda>_. None)" by (simp add: small_map_def)
  then have "u = TEmpty \<or> fit_tree u" if "u \<in> set (run_trees xss)" for u
    using that written_fit [OF models_empty] assms(2) by (auto simp: run_trees_def)
  then have "wf_node (node_of H u)" if "u \<in> set (run_trees xss)" for u
    using that fit_node [OF assms(1), of u] by (cases "u = TEmpty") auto
  then show ?thesis using assms(3) by (auto simp: safe_def collision_free_def)
qed

lemma run_refines:
  assumes "\<forall>b. length (H b) = 32" "\<forall>xs\<in>set xss. list_all op_fits xs" "collision_free H xss" "xs \<in> set xss"
  shows "\<exists>tr. trie_run H (trie_new H) xs = Some tr \<and>
    refines H (set (run_trees xss)) tr (fold tree_op xs TEmpty) \<and>
    models (fold tree_op xs TEmpty) (fold map_op xs Map.empty)"
proof (rule refines_run)
  show "refines H (set (run_trees xss)) (trie_new H) TEmpty"
    by (rule refines_new [OF written_safe [OF assms(1-3)]]) (simp add: run_trees_def)
  show "models TEmpty Map.empty" by (rule models_empty)
  show "set (written TEmpty xs) \<subseteq> set (run_trees xss)" using assms(4) by (auto simp: run_trees_def)
qed

lemma holds_subset: "holds H T tr t \<Longrightarrow> set (subtrees t) \<subseteq> T"
  by (auto simp: holds_def)

lemma root_of_inject:
  assumes "safe H T" "set (subtrees t) \<subseteq> T" "set (subtrees u) \<subseteq> T" "root_of H t = root_of H u"
  shows "t = u"
  using assms(2-)
proof (induction t arbitrary: u)
  have node: "node_of H a = node_of H b"
    if "set (subtrees a) \<subseteq> T" "set (subtrees b) \<subseteq> T" "root_of H a = root_of H b" for a b
  proof -
    have "a \<in> T" "b \<in> T" using that subtrees_self by auto
    then have "payload H a = payload H b"
      using that(3) assms(1) by (auto simp: safe_def root_of_payload dest: inj_onD)
    then show ?thesis
      using assms(1) \<open>a \<in> T\<close> \<open>b \<in> T\<close> deserialize_serialize unfolding safe_def payload_def by (metis option.inject)
  qed
  {
    case TEmpty
    then show ?case using node [OF TEmpty] by (cases u) auto
  next
    case (TLeaf p v)
    then show ?case using node [OF TLeaf] by (cases u) auto
  next
    case (TExt p n)
    then show ?case using node [OF TExt.prems] by (cases u) auto
  next
    case (TBranch cs v)
    then obtain ds where u: "u = TBranch ds v" "map (map_option (root_of H)) cs = map (map_option (root_of H)) ds"
      using node [OF TBranch.prems] by (cases u) auto
    have "cs = ds"
    proof (rule list.inj_map_strong [OF _ u(2)])
      fix c d
      assume *: "c \<in> set cs" "d \<in> set ds" "map_option (root_of H) c = map_option (root_of H) d"
      show "c = d"
      proof (cases c)
        case (Some c')
        then obtain d' where d': "d = Some d'" "root_of H c' = root_of H d'" using *(3) by (cases d) auto
        have "set (subtrees c') \<subseteq> T" "set (subtrees d') \<subseteq> T"
          using subtrees_branch [OF TBranch.prems(1)] subtrees_branch [OF TBranch.prems(2) [unfolded u(1)]]
            *(1,2) Some d'(1) by blast+
        then have "c' = d'" using TBranch.IH [OF *(1)] d'(2) Some by simp
        then show ?thesis using Some d'(1) by simp
      qed (use *(3) in simp)
    qed
    then show ?case by (simp add: u)
  }
qed

section \<open>What the trie promises\<close>

text \<open>
  C17. The hash-addressed trie is a map. Every sequence of puts and deletes from
  the empty trie runs without a panic, and afterwards every lookup returns the
  value that a finite map gives after the same updates, as long as no two of the
  payloads written have the same hash.
\<close>

theorem trie_refines_map:
  assumes "\<forall>b. length (H b) = 32" "list_all op_fits xs" "collision_free H [xs]"
  shows "\<exists>tr. trie_run H (trie_new H) xs = Some tr \<and>
    (\<forall>k. trie_get tr k = Some (fold map_op xs Map.empty k))"
proof -
  obtain tr where "trie_run H (trie_new H) xs = Some tr"
    "refines H (set (run_trees [xs])) tr (fold tree_op xs TEmpty)"
    "models (fold tree_op xs TEmpty) (fold map_op xs Map.empty)"
    using run_refines [OF assms(1) _ assms(3)] assms(2) by auto
  then show ?thesis using refines_get by (auto simp: models_def)
qed

definition example_ops :: "TrieOp list" where
  "example_ops = [TPut [0x12] [1], TPut [0x13] [2], TDel [0x12]]"

definition example_ops' :: "TrieOp list" where
  "example_ops' = [TPut [0x13] [2]]"

lemma collision_freeI:
  assumes "distinct (map (hash_encoded H) (remdups (map (payload H) (run_trees xss))))"
  shows "collision_free H xss"
proof -
  have "inj_on (hash_encoded H) (set (remdups (map (payload H) (run_trees xss))))"
    using assms by (simp add: distinct_map)
  then show ?thesis by (simp add: collision_free_def)
qed

lemma example_collision_free:
  "collision_free poly32 [example_ops]" "collision_free poly32 [example_ops, example_ops']"
  by (rule collision_freeI, code_simp)+

theorem trie_refines_map_witness:
  "\<exists>tr. trie_run poly32 (trie_new poly32) example_ops = Some tr \<and>
    trie_get tr [0x12] = Some None \<and> trie_get tr [0x13] = Some (Some [2])"
  using trie_refines_map [of poly32 example_ops] example_collision_free(1)
  by (auto simp: example_ops_def)

text \<open>
  C18. The root commits to the contents. Two sequences of puts and deletes, in
  whatever order, lead to the same root exactly when they leave the same keys and
  values, as long as no two of the payloads written have the same hash.
\<close>

theorem root_commits_to_contents:
  assumes "\<forall>b. length (H b) = 32" "list_all op_fits xs" "list_all op_fits ys" "collision_free H [xs, ys]"
  shows "map_option tr_root (trie_run H (trie_new H) xs) = map_option tr_root (trie_run H (trie_new H) ys) \<longleftrightarrow>
    fold map_op xs Map.empty = fold map_op ys Map.empty"
proof -
  let ?T = "set (run_trees [xs, ys])" and ?t = "\<lambda>zs. fold tree_op zs TEmpty" and ?m = "\<lambda>zs. fold map_op zs Map.empty"
  have fits: "\<forall>zs\<in>set [xs, ys]. list_all op_fits zs" using assms(2,3) by simp
  have xs: "xs \<in> set [xs, ys]" and ys: "ys \<in> set [xs, ys]" by simp_all
  obtain a where a: "trie_run H (trie_new H) xs = Some a" "refines H ?T a (?t xs)" "models (?t xs) (?m xs)"
    using run_refines [OF assms(1) fits assms(4) xs] by blast
  obtain b where b: "trie_run H (trie_new H) ys = Some b" "refines H ?T b (?t ys)" "models (?t ys) (?m ys)"
    using run_refines [OF assms(1) fits assms(4) ys] by blast
  have a': "safe H ?T" "set (subtrees (?t xs)) \<subseteq> ?T" "tr_root a = root_of H (?t xs)"
    using a(2) holds_subset unfolding refines_def table_def by blast+
  have b': "set (subtrees (?t ys)) \<subseteq> ?T" "tr_root b = root_of H (?t ys)"
    using b(2) holds_subset unfolding refines_def by blast+
  have "?t xs = ?t ys" if "tr_root a = tr_root b"
    using root_of_inject [OF a'(1,2) b'(1)] a'(3) b'(2) that by simp
  moreover have "?t xs = ?t ys" if "?m xs = ?m ys"
    using models_unique [OF a(3)] b(3) unfolding that by simp
  moreover have "?m xs = ?m ys" if "?t xs = ?t ys"
    using models_contents [OF a(3)] models_contents [OF b(3)] unfolding that by simp
  ultimately have "tr_root a = tr_root b \<longleftrightarrow> ?m xs = ?m ys"
    unfolding a'(3) b'(2) by metis
  then show ?thesis by (simp add: a(1) b(1))
qed

theorem root_commits_to_contents_witness:
  "map_option tr_root (trie_run poly32 (trie_new poly32) example_ops) =
     map_option tr_root (trie_run poly32 (trie_new poly32) example_ops')"
proof -
  have "fold map_op example_ops Map.empty = fold map_op example_ops' Map.empty"
    by (auto simp: example_ops_def example_ops'_def)
  then show ?thesis
    using root_commits_to_contents [of poly32 example_ops example_ops'] example_collision_free(2)
    by (simp add: example_ops_def example_ops'_def)
qed

end
