(* ===== verification/State_Merkle.thy ===== *)
theory State_Merkle
  imports Crypto
begin

text \<open>
  The generic Merkle tree of \<open>merkle.rs\<close> in \<open>crates/state\<close> and the combined state
  root of \<open>root.rs\<close>. The lemmas show that the root is the one that \<open>types::hashing\<close>
  computes, that every proof the tree gives verifies, and that a proof that
  verifies is about one of the leaves, the one at its index when it has the length
  of a proof of the tree.
\<close>

section \<open>Definitions\<close>

definition merkle_dhash :: "(bytes \<Rightarrow> Hash) \<Rightarrow> bytes \<Rightarrow> Hash" where
  "merkle_dhash H payload = hash_to_array H (apply_domain MerkleTag payload)"

definition merkle_leaf :: "(bytes \<Rightarrow> Hash) \<Rightarrow> bytes \<Rightarrow> Hash" where
  "merkle_leaf H leaf = merkle_dhash H ([0x00] @ leaf)"

definition merkle_branch :: "(bytes \<Rightarrow> Hash) \<Rightarrow> Hash \<Rightarrow> Hash \<Rightarrow> Hash" where
  "merkle_branch H l r = merkle_dhash H ([0x01] @ l @ r)"

text \<open>One pass over \<open>layer.chunks(2)\<close>; the layer has been padded to an even length.\<close>

fun merkle_pairs :: "(bytes \<Rightarrow> Hash) \<Rightarrow> Hash list \<Rightarrow> Hash list" where
  "merkle_pairs H (a # b # rest) = merkle_branch H a b # merkle_pairs H rest"
| "merkle_pairs H _ = []"

definition next_layer :: "(bytes \<Rightarrow> Hash) \<Rightarrow> Hash list \<Rightarrow> Hash list" where
  "next_layer H layer = merkle_pairs H (pad_even layer)"

lemma length_merkle_pairs: "length (merkle_pairs H xs) = length xs div 2"
  by (induction H xs rule: merkle_pairs.induct) auto

lemma length_next_layer: "length (next_layer H layer) = (length layer + 1) div 2"
  by (simp add: next_layer_def length_merkle_pairs length_pad_even)

function compute_layers :: "(bytes \<Rightarrow> Hash) \<Rightarrow> Hash list \<Rightarrow> Hash list" where
  "compute_layers H layer =
    (if length layer > 1 then compute_layers H (next_layer H layer) else layer)"
  by pat_completeness auto
termination
  by (relation "measure (\<lambda>(H, layer). length layer)") (auto simp: length_next_layer)

declare compute_layers.simps [simp del]

definition compute_root :: "(bytes \<Rightarrow> Hash) \<Rightarrow> bytes list \<Rightarrow> Hash" where
  "compute_root H leaves =
    (if leaves = [] then merkle_dhash H []
     else compute_layers H (map (merkle_leaf H) leaves) ! 0)"

record MerkleProof =
  mp_leaf_index :: nat
  mp_siblings :: "Hash list"

function prove_siblings :: "(bytes \<Rightarrow> Hash) \<Rightarrow> Hash list \<Rightarrow> nat \<Rightarrow> Hash list" where
  "prove_siblings H layer idx =
    (if length layer > 1 then
       let sib = (if idx mod 2 = 0 then idx + 1 else idx - 1)
       in pad_even layer ! sib # prove_siblings H (next_layer H layer) (idx div 2)
     else [])"
  by pat_completeness auto
termination
  by (relation "measure (\<lambda>(H, layer, idx). length layer)") (auto simp: length_next_layer)

declare prove_siblings.simps [simp del]

definition merkle_prove :: "(bytes \<Rightarrow> Hash) \<Rightarrow> bytes list \<Rightarrow> nat \<Rightarrow> MerkleProof option" where
  "merkle_prove H leaves index =
    (if index \<ge> length leaves then None
     else Some \<lparr>mp_leaf_index = index,
                mp_siblings = prove_siblings H (map (merkle_leaf H) leaves) index\<rparr>)"

fun climb :: "(bytes \<Rightarrow> Hash) \<Rightarrow> Hash \<Rightarrow> nat \<Rightarrow> Hash list \<Rightarrow> Hash" where
  "climb H acc idx [] = acc"
| "climb H acc idx (sib # sibs) =
    climb H (if idx mod 2 = 0 then merkle_branch H acc sib else merkle_branch H sib acc) (idx div 2) sibs"

definition merkle_verify :: "(bytes \<Rightarrow> Hash) \<Rightarrow> bytes \<Rightarrow> MerkleProof \<Rightarrow> Hash \<Rightarrow> bool" where
  "merkle_verify H leaf proof root =
    (climb H (merkle_leaf H leaf) (mp_leaf_index proof) (mp_siblings proof) = root)"

definition commit_root :: "(bytes \<Rightarrow> Hash) \<Rightarrow> Hash \<Rightarrow> Hash \<Rightarrow> Hash" where
  "commit_root H account_root contract_root = compute_root H [account_root, contract_root]"

section \<open>The root is the one of the types crate\<close>

lemma merkle_hashes:
  "merkle_dhash H = dhash H" "merkle_leaf H = hash_leaf H" "merkle_branch H = hash_branch H"
proof -
  show d: "merkle_dhash H = dhash H"
    by (auto simp: merkle_dhash_def dhash_domain_wrap hash_to_array_def)
  show "merkle_leaf H = hash_leaf H" by (auto simp: merkle_leaf_def hash_leaf_def d)
  show "merkle_branch H = hash_branch H" by (intro ext) (simp add: merkle_branch_def hash_branch_def d)
qed

lemma merkle_pairs_eq: "merkle_pairs H xs = hash_pairs H xs"
  by (induction H xs rule: hash_pairs.induct) (auto simp: merkle_hashes)

lemma compute_layers_eq: "compute_layers H layer = merkle_layers H layer"
proof (induction H layer rule: compute_layers.induct)
  case (1 H layer)
  then show ?case
    by (subst compute_layers.simps, subst merkle_layers.simps) (simp add: next_layer_def merkle_pairs_eq)
qed

lemma compute_root_eq: "compute_root H leaves = merkle_root H leaves"
  by (simp add: compute_root_def merkle_root_def compute_layers_eq merkle_hashes)

section \<open>Proofs are complete\<close>

lemma merkle_pairs_nth: "2 * i + 1 < length xs \<Longrightarrow> merkle_pairs H xs ! i = merkle_branch H (xs ! (2 * i)) (xs ! (2 * i + 1))"
proof (induction H xs arbitrary: i rule: merkle_pairs.induct)
  case (1 H a b rest)
  then show ?case by (cases i) auto
qed auto

lemma pad_even_nth: "i < length xs \<Longrightarrow> pad_even xs ! i = xs ! i"
  by (auto simp: pad_even_def nth_append)

lemma next_layer_nth:
  assumes "i < length layer"
  shows "next_layer H layer ! (i div 2) =
    (if i mod 2 = 0 then merkle_branch H (layer ! i) (pad_even layer ! (i + 1))
     else merkle_branch H (pad_even layer ! (i - 1)) (layer ! i))"
proof -
  have "2 * (i div 2) + 1 < length (pad_even layer)"
    using assms by (simp add: length_pad_even) presburger
  then have *: "next_layer H layer ! (i div 2) =
      merkle_branch H (pad_even layer ! (2 * (i div 2))) (pad_even layer ! (2 * (i div 2) + 1))"
    by (simp add: next_layer_def merkle_pairs_nth)
  show ?thesis
  proof (cases "even i")
    case True
    then have "2 * (i div 2) = i" "i mod 2 = 0" by auto
    then show ?thesis using * pad_even_nth [OF assms] by simp
  next
    case False
    then have "2 * (i div 2) = i - 1" "2 * (i div 2) + 1 = i" "i mod 2 = 1" by presburger+
    then show ?thesis using * pad_even_nth [OF assms] by simp
  qed
qed

lemma climb_siblings:
  "idx < length layer \<Longrightarrow> climb H (layer ! idx) idx (prove_siblings H layer idx) = compute_layers H layer ! 0"
proof (induction H layer idx rule: prove_siblings.induct)
  case (1 H layer idx)
  show ?case
  proof (cases "length layer > 1")
    case True
    have "idx div 2 < length (next_layer H layer)" using 1(2) by (simp add: length_next_layer)
    then show ?thesis
      using 1 True next_layer_nth [OF 1(2), of H]
      by (subst prove_siblings.simps, subst compute_layers.simps) (auto simp: Let_def split: if_splits)
  next
    case False
    then have "idx = 0" using 1(2) by simp
    then show ?thesis using False by (subst prove_siblings.simps, subst compute_layers.simps) simp
  qed
qed

lemma merkle_complete:
  assumes "i < length leaves"
  shows "\<exists>p. merkle_prove H leaves i = Some p \<and> merkle_verify H (leaves ! i) p (compute_root H leaves)"
  using assms climb_siblings [of i "map (merkle_leaf H) leaves" H]
  by (auto simp: merkle_prove_def merkle_verify_def compute_root_def)

section \<open>Proofs are sound\<close>

text \<open>The inputs hashed for a tree and for the check of a proof.\<close>

definition leaf_input :: "bytes \<Rightarrow> bytes" where
  "leaf_input leaf = apply_domain MerkleTag ([0x00] @ leaf)"

definition branch_input :: "Hash \<Rightarrow> Hash \<Rightarrow> bytes" where
  "branch_input l r = apply_domain MerkleTag ([0x01] @ l @ r)"

fun pair_inputs :: "Hash list \<Rightarrow> bytes list" where
  "pair_inputs (a # b # rest) = branch_input a b # pair_inputs rest"
| "pair_inputs _ = []"

function layer_inputs :: "(bytes \<Rightarrow> Hash) \<Rightarrow> Hash list \<Rightarrow> bytes list" where
  "layer_inputs H layer =
    (if length layer > 1 then pair_inputs (pad_even layer) @ layer_inputs H (next_layer H layer) else [])"
  by pat_completeness auto
termination
  by (relation "measure (\<lambda>(H, layer). length layer)") (auto simp: length_next_layer)

declare layer_inputs.simps [simp del]

definition tree_inputs :: "(bytes \<Rightarrow> Hash) \<Rightarrow> bytes list \<Rightarrow> bytes list" where
  "tree_inputs H leaves = map leaf_input leaves @ layer_inputs H (map (merkle_leaf H) leaves)"

fun climb_inputs :: "(bytes \<Rightarrow> Hash) \<Rightarrow> Hash \<Rightarrow> nat \<Rightarrow> Hash list \<Rightarrow> bytes list" where
  "climb_inputs H acc idx [] = []"
| "climb_inputs H acc idx (sib # sibs) =
    (if idx mod 2 = 0 then branch_input acc sib else branch_input sib acc) #
    climb_inputs H (if idx mod 2 = 0 then merkle_branch H acc sib else merkle_branch H sib acc) (idx div 2) sibs"

definition proof_inputs :: "(bytes \<Rightarrow> Hash) \<Rightarrow> bytes \<Rightarrow> MerkleProof \<Rightarrow> bytes list" where
  "proof_inputs H leaf proof =
    leaf_input leaf # climb_inputs H (merkle_leaf H leaf) (mp_leaf_index proof) (mp_siblings proof)"

lemma inputs_eq:
  "leaf_input a = leaf_input b \<longleftrightarrow> a = b" "leaf_input a \<noteq> branch_input l r" "branch_input l r \<noteq> leaf_input a"
  "length l = 32 \<Longrightarrow> length l' = 32 \<Longrightarrow> branch_input l r = branch_input l' r' \<longleftrightarrow> l = l' \<and> r = r'"
  by (auto simp: leaf_input_def branch_input_def apply_domain_def)

lemma hash_inputs: "merkle_leaf H a = H (leaf_input a)" "merkle_branch H l r = H (branch_input l r)"
  by (simp_all add: merkle_leaf_def merkle_branch_def merkle_dhash_def hash_to_array_def leaf_input_def branch_input_def)

text \<open>The hashes of a tree: those of its leaves, and of pairs of its hashes that were hashed.\<close>

inductive_set tree_hashes :: "(bytes \<Rightarrow> Hash) \<Rightarrow> bytes list \<Rightarrow> bytes set \<Rightarrow> Hash set"
  for H :: "bytes \<Rightarrow> Hash" and leaves :: "bytes list" and S :: "bytes set" where
  leaf: "a \<in> set leaves \<Longrightarrow> leaf_input a \<in> S \<Longrightarrow> H (leaf_input a) \<in> tree_hashes H leaves S"
| branch: "l \<in> tree_hashes H leaves S \<Longrightarrow> r \<in> tree_hashes H leaves S \<Longrightarrow> branch_input l r \<in> S \<Longrightarrow>
    H (branch_input l r) \<in> tree_hashes H leaves S"

lemma set_pad_even: "set (pad_even xs) = set xs"
  by (cases "xs = []") (auto simp: pad_even_def)

lemma merkle_pairs_hashes:
  "set xs \<subseteq> tree_hashes H leaves S \<Longrightarrow> set (pair_inputs xs) \<subseteq> S \<Longrightarrow> set (merkle_pairs H xs) \<subseteq> tree_hashes H leaves S"
  by (induction H xs rule: merkle_pairs.induct) (auto simp: hash_inputs intro: tree_hashes.branch)

lemma compute_layers_hashes:
  "set layer \<subseteq> tree_hashes H leaves S \<Longrightarrow> set (layer_inputs H layer) \<subseteq> S \<Longrightarrow>
    set (compute_layers H layer) \<subseteq> tree_hashes H leaves S"
proof (induction H layer rule: compute_layers.induct)
  case (1 H layer)
  show ?case
  proof (cases "length layer > 1")
    case True
    then have in_S: "set (pair_inputs (pad_even layer)) \<subseteq> S" "set (layer_inputs H (next_layer H layer)) \<subseteq> S"
      using 1(3) layer_inputs.simps [of H layer] by auto
    then have "set (next_layer H layer) \<subseteq> tree_hashes H leaves S"
      unfolding next_layer_def using 1(2) by (intro merkle_pairs_hashes) (auto simp: set_pad_even)
    then show ?thesis using 1(1) True in_S(2) compute_layers.simps [of H layer] by simp
  next
    case False
    then show ?thesis using 1(2) by (subst compute_layers.simps) simp
  qed
qed

lemma length_compute_layers: "layer \<noteq> [] \<Longrightarrow> length (compute_layers H layer) = 1"
proof (induction H layer rule: compute_layers.induct)
  case (1 H layer)
  show ?case
  proof (cases "length layer > 1")
    case True
    then have "length (next_layer H layer) > 0" by (simp add: length_next_layer)
    then show ?thesis using 1(1) True compute_layers.simps [of H layer] by simp
  next
    case False
    then show ?thesis using 1(2) by (subst compute_layers.simps) (cases layer, auto)
  qed
qed

lemma compute_root_hashes:
  assumes "leaves \<noteq> []" "set (tree_inputs H leaves) \<subseteq> S"
  shows "compute_root H leaves \<in> tree_hashes H leaves S"
proof -
  let ?L = "map (merkle_leaf H) leaves"
  have "set ?L \<subseteq> tree_hashes H leaves S" "set (layer_inputs H ?L) \<subseteq> S"
    using assms(2) by (auto simp: tree_inputs_def hash_inputs intro: tree_hashes.leaf)
  then have "set (compute_layers H ?L) \<subseteq> tree_hashes H leaves S" by (rule compute_layers_hashes)
  moreover have "compute_layers H ?L ! 0 \<in> set (compute_layers H ?L)"
    using length_compute_layers [of ?L H] assms(1) by (intro nth_mem) simp
  ultimately show ?thesis using assms(1) by (auto simp: compute_root_def)
qed

lemma tree_hash_branch:
  assumes "inj_on H S" "\<forall>b. length (H b) = 32" "length l = 32" "branch_input l r \<in> S"
    and "H (branch_input l r) \<in> tree_hashes H leaves S"
  shows "l \<in> tree_hashes H leaves S \<and> r \<in> tree_hashes H leaves S"
  using assms(5)
proof cases
  case (leaf a)
  then show ?thesis using assms(1,4) inputs_eq by (metis inj_onD)
next
  case (branch l' r')
  have "length l' = 32" using branch(2) assms(2) by cases auto
  moreover have "branch_input l r = branch_input l' r'" using branch assms(1,4) by (metis inj_onD)
  ultimately show ?thesis using branch assms(3) inputs_eq(4) by metis
qed

lemma climb_hashes:
  assumes "inj_on H S" "\<forall>b. length (H b) = 32"
  shows "set (climb_inputs H acc idx sibs) \<subseteq> S \<Longrightarrow> length acc = 32 \<Longrightarrow> \<forall>s\<in>set sibs. length s = 32 \<Longrightarrow>
    climb H acc idx sibs \<in> tree_hashes H leaves S \<Longrightarrow> acc \<in> tree_hashes H leaves S"
proof (induction sibs arbitrary: acc idx)
  case (Cons s sibs)
  let ?acc = "if idx mod 2 = 0 then merkle_branch H acc s else merkle_branch H s acc"
  have "?acc \<in> tree_hashes H leaves S"
    using Cons.prems assms(2) by (intro Cons.IH [of ?acc "idx div 2"]) (auto simp: hash_inputs)
  then show ?case
    using Cons.prems tree_hash_branch [OF assms] by (auto simp: hash_inputs split: if_splits)
qed simp

lemma merkle_sound:
  assumes "\<forall>b. length (H b) = 32" "\<forall>s\<in>set (mp_siblings p). length s = 32" "leaves \<noteq> []"
    and "inj_on H (set (tree_inputs H leaves) \<union> set (proof_inputs H leaf p))"
    and "merkle_verify H leaf p (compute_root H leaves)"
  shows "leaf \<in> set leaves"
proof -
  let ?S = "set (tree_inputs H leaves) \<union> set (proof_inputs H leaf p)"
  have "climb H (merkle_leaf H leaf) (mp_leaf_index p) (mp_siblings p) \<in> tree_hashes H leaves ?S"
    using compute_root_hashes [OF assms(3), of H ?S] assms(5) by (simp add: merkle_verify_def)
  then have "merkle_leaf H leaf \<in> tree_hashes H leaves ?S"
    using climb_hashes [OF assms(4,1), of "merkle_leaf H leaf"] assms(1,2)
    by (auto simp: proof_inputs_def hash_inputs)
  then have "H (leaf_input leaf) \<in> tree_hashes H leaves ?S" by (simp add: hash_inputs)
  then show ?thesis
  proof cases
    case (leaf a)
    then have "leaf_input leaf = leaf_input a"
      using inj_onD [OF assms(4)] by (auto simp: proof_inputs_def)
    then show ?thesis using leaf by (simp add: inputs_eq)
  next
    case (branch l r)
    then have "leaf_input leaf = branch_input l r"
      using inj_onD [OF assms(4)] by (auto simp: proof_inputs_def)
    then show ?thesis by (simp add: inputs_eq)
  qed
qed

section \<open>Proofs of the right length are about their index\<close>

function merkle_depth :: "nat \<Rightarrow> nat" where
  "merkle_depth n = (if n > 1 then Suc (merkle_depth ((n + 1) div 2)) else 0)"
  by pat_completeness auto
termination
  by (relation "measure id") auto

declare merkle_depth.simps [simp del]

lemma length_prove_siblings: "length (prove_siblings H layer idx) = merkle_depth (length layer)"
proof (induction H layer idx rule: prove_siblings.induct)
  case (1 H layer idx)
  then show ?case
    by (subst prove_siblings.simps, subst merkle_depth.simps) (simp add: length_next_layer)
qed

lemma pair_inputs_nth: "2 * i + 1 < length xs \<Longrightarrow> branch_input (xs ! (2 * i)) (xs ! (2 * i + 1)) \<in> set (pair_inputs xs)"
proof (induction xs arbitrary: i rule: pair_inputs.induct)
  case (1 a b rest)
  then show ?case by (cases i) auto
qed auto

text \<open>The two children of the next layer at the position of \<open>i\<close>.\<close>

lemma layer_pair:
  assumes "i < length layer"
  defines "l \<equiv> pad_even layer ! (2 * (i div 2))" and "r \<equiv> pad_even layer ! (2 * (i div 2) + 1)"
  shows "next_layer H layer ! (i div 2) = H (branch_input l r)" "branch_input l r \<in> set (pair_inputs (pad_even layer))"
    "l \<in> set layer" "r \<in> set layer" "layer ! i = (if i mod 2 = 0 then l else r)"
proof -
  have lt: "2 * (i div 2) + 1 < length (pad_even layer)"
    using assms(1) by (simp add: length_pad_even) presburger
  show "next_layer H layer ! (i div 2) = H (branch_input l r)"
    using lt by (simp add: next_layer_def merkle_pairs_nth hash_inputs l_def r_def)
  show "branch_input l r \<in> set (pair_inputs (pad_even layer))" unfolding l_def r_def using lt by (rule pair_inputs_nth)
  show "l \<in> set layer" "r \<in> set layer"
    unfolding l_def r_def using lt nth_mem [of _ "pad_even layer"] by (simp_all add: set_pad_even)
  have "pad_even layer ! i = layer ! i" using assms(1) by (rule pad_even_nth)
  moreover have "i = (if i mod 2 = 0 then 2 * (i div 2) else 2 * (i div 2) + 1)" by presburger
  ultimately show "layer ! i = (if i mod 2 = 0 then l else r)" unfolding l_def r_def by (metis (full_types))
qed

lemma length_pairs_hash: "\<forall>b. length (H b) = 32 \<Longrightarrow> x \<in> set (merkle_pairs H xs) \<Longrightarrow> length x = 32"
  by (induction H xs rule: merkle_pairs.induct) (auto simp: hash_inputs)

lemma climb_index:
  assumes "inj_on H S" "\<forall>b. length (H b) = 32"
  shows "\<forall>x\<in>set layer. length x = 32 \<Longrightarrow> set (layer_inputs H layer) \<subseteq> S \<Longrightarrow> set (climb_inputs H acc idx sibs) \<subseteq> S \<Longrightarrow>
    length acc = 32 \<Longrightarrow> \<forall>x\<in>set sibs. length x = 32 \<Longrightarrow> idx < length layer \<Longrightarrow> length sibs = merkle_depth (length layer) \<Longrightarrow>
    climb H acc idx sibs = compute_layers H layer ! 0 \<Longrightarrow> acc = layer ! idx"
  using assms
proof (induction H layer arbitrary: acc idx sibs rule: compute_layers.induct)
  case (1 H layer)
  show ?case
  proof (cases "length layer > 1")
    case True
    then obtain s rest where sibs: "sibs = s # rest" "length rest = merkle_depth (length (next_layer H layer))"
      using 1(8) merkle_depth.simps [of "length layer"] by (cases sibs) (auto simp: length_next_layer)
    let ?in = "if idx mod 2 = 0 then branch_input acc s else branch_input s acc"
    let ?l = "pad_even layer ! (2 * (idx div 2))" and ?r = "pad_even layer ! (2 * (idx div 2) + 1)"
    note pair = layer_pair [OF 1(7)]
    have S: "set (pair_inputs (pad_even layer)) \<subseteq> S" "set (layer_inputs H (next_layer H layer)) \<subseteq> S" "?in \<in> S"
      "set (climb_inputs H (H ?in) (idx div 2) rest) \<subseteq> S"
      using 1(3,4) layer_inputs.simps [of H layer] True by (auto simp: sibs hash_inputs split: if_splits)
    have "length x = 32" if "x \<in> set (next_layer H layer)" for x
      using length_pairs_hash [OF 1(11)] that unfolding next_layer_def by blast
    moreover have "climb H (H ?in) (idx div 2) rest = compute_layers H (next_layer H layer) ! 0"
      using 1(9) True compute_layers.simps [of H layer] by (simp add: sibs hash_inputs split: if_splits)
    moreover have "idx div 2 < length (next_layer H layer)" using 1(7) by (simp add: length_next_layer)
    ultimately have "H ?in = next_layer H layer ! (idx div 2)"
      using 1(6,11) sibs by (intro 1(1) [OF True _ S(2,4)] 1(10,11)) simp_all
    then have "H ?in = H (branch_input ?l ?r)" using pair(1) by simp
    moreover have "branch_input ?l ?r \<in> S" using pair(2) S(1) by blast
    ultimately have "?in = branch_input ?l ?r" using S(3) inj_onD [OF 1(10)] by blast
    moreover have "length ?l = 32" "length s = 32" using pair(3) 1(2,6) sibs by auto
    ultimately have "acc = (if idx mod 2 = 0 then ?l else ?r)" using 1(5) by (auto simp: inputs_eq split: if_splits)
    then show ?thesis using pair(5) by simp
  next
    case False
    then have "idx = 0" "sibs = []" using 1(7,8) merkle_depth.simps [of "length layer"] by auto
    then show ?thesis using 1(9) False compute_layers.simps [of H layer] by simp
  qed
qed

lemma merkle_index_sound:
  assumes "\<forall>b. length (H b) = 32" "\<forall>s\<in>set (mp_siblings p). length s = 32"
    and "inj_on H (set (tree_inputs H leaves) \<union> set (proof_inputs H leaf p))"
    and "merkle_verify H leaf p (compute_root H leaves)"
    and "mp_leaf_index p < length leaves" "length (mp_siblings p) = merkle_depth (length leaves)"
  shows "leaf = leaves ! mp_leaf_index p"
proof -
  let ?L = "map (merkle_leaf H) leaves" and ?S = "set (tree_inputs H leaves) \<union> set (proof_inputs H leaf p)"
  have "merkle_leaf H leaf = ?L ! mp_leaf_index p"
  proof (rule climb_index [OF assms(3,1)])
    show "climb H (merkle_leaf H leaf) (mp_leaf_index p) (mp_siblings p) = compute_layers H ?L ! 0"
      using assms(4,5) by (auto simp: merkle_verify_def compute_root_def)
  qed (use assms(1,2,5,6) in \<open>auto simp: tree_inputs_def proof_inputs_def hash_inputs\<close>)
  then have "H (leaf_input leaf) = H (leaf_input (leaves ! mp_leaf_index p))" using assms(5) by (simp add: hash_inputs)
  moreover have "leaf_input leaf \<in> ?S" "leaf_input (leaves ! mp_leaf_index p) \<in> ?S"
    using assms(5) by (simp_all add: tree_inputs_def proof_inputs_def)
  ultimately have "leaf_input leaf = leaf_input (leaves ! mp_leaf_index p)" using inj_onD [OF assms(3)] by blast
  then show ?thesis by (simp add: inputs_eq)
qed

text \<open>
  C26. Merkle proofs are complete and sound. The proof made for a position of the
  leaf list verifies against the root, which is also the root the types crate
  computes. A proof that verifies against the root, as long as no two of the
  inputs hashed for the tree and the proof collide, is about one of the leaves,
  and when it has as many siblings as the tree has layers above the leaves and an
  index within the list, it is about the leaf at that index.
\<close>

theorem merkle_proofs_sound_complete:
  assumes "\<forall>b. length (H b) = 32" "\<forall>s\<in>set (mp_siblings p). length s = 32" "i < length leaves"
    and "inj_on H (set (tree_inputs H leaves) \<union> set (proof_inputs H leaf p))"
  shows "(\<exists>q. merkle_prove H leaves i = Some q \<and> merkle_verify H (leaves ! i) q (merkle_root H leaves) \<and>
      mp_leaf_index q = i \<and> length (mp_siblings q) = merkle_depth (length leaves)) \<and>
    (merkle_verify H leaf p (merkle_root H leaves) \<longrightarrow> leaf \<in> set leaves \<and>
      (mp_leaf_index p < length leaves \<and> length (mp_siblings p) = merkle_depth (length leaves) \<longrightarrow>
        leaf = leaves ! mp_leaf_index p))"
proof -
  have "leaves \<noteq> []" using assms(3) by auto
  then show ?thesis
    using merkle_complete [OF assms(3), of H] merkle_sound [OF assms(1,2) _ assms(4)] merkle_index_sound [OF assms(1,2,4)]
    by (auto simp: compute_root_eq merkle_prove_def length_prove_siblings)
qed

definition example_merkle_proof :: MerkleProof where
  "example_merkle_proof = \<lparr>mp_leaf_index = 0, mp_siblings = []\<rparr>"

theorem merkle_proofs_sound_complete_witness:
  "\<not> merkle_verify poly32 [9] example_merkle_proof (merkle_root poly32 [[7], [8]])"
proof -
  have "distinct (map poly32 (tree_inputs poly32 [[7], [8]] @ proof_inputs poly32 [9] example_merkle_proof))"
    by code_simp
  then have "inj_on poly32 (set (tree_inputs poly32 [[7], [8]]) \<union> set (proof_inputs poly32 [9] example_merkle_proof))"
    unfolding distinct_map set_append by blast
  then show ?thesis
    using merkle_proofs_sound_complete [of poly32 example_merkle_proof 0 "[[7], [8]]" "[9]"]
    by (simp add: example_merkle_proof_def)
qed

section \<open>Repeated leaves\<close>

text \<open>
  The transaction root does not fix the number of transactions. A list of odd
  length from three on has the root of the same list with its last element
  repeated, so two different transaction lists of a block have the same
  transaction root.
\<close>

theorem repeated_leaf_same_root:
  assumes "odd (length txs)" "length txs \<ge> 3"
  shows "tx_root H (txs @ [last txs]) = tx_root H txs \<and> txs @ [last txs] \<noteq> txs"
proof -
  let ?L = "map (hash_leaf H \<circ> tx_bytes) txs"
  have ne: "txs \<noteq> []" using assms(2) by auto
  have "length ?L mod 2 = 1" using assms(1) by (simp add: odd_iff_mod_2_eq_one)
  then have pad: "pad_even ?L = map (hash_leaf H \<circ> tx_bytes) (txs @ [last txs])"
    using ne by (simp add: pad_even_def last_map)
  have even: "length (txs @ [last txs]) mod 2 = 0" using assms(1) by simp
  then have "pad_even (map (hash_leaf H \<circ> tx_bytes) (txs @ [last txs])) = map (hash_leaf H \<circ> tx_bytes) (txs @ [last txs])"
    by (simp add: pad_even_def)
  then have "merkle_layers H (map (hash_leaf H \<circ> tx_bytes) (txs @ [last txs])) = merkle_layers H ?L"
    using pad assms(2) ne merkle_layers.simps [of H ?L]
      merkle_layers.simps [of H "map (hash_leaf H \<circ> tx_bytes) (txs @ [last txs])"] by simp
  then show ?thesis using ne by (simp add: tx_root_def merkle_root_def)
qed

theorem repeated_leaf_same_root_witness:
  "tx_root last32 [tx_transfer 1 0 21000 1 [] 1, tx_transfer 1 1 21000 1 [] 2, tx_transfer 1 2 21000 1 [] 3, tx_transfer 1 2 21000 1 [] 3] =
   tx_root last32 [tx_transfer 1 0 21000 1 [] 1, tx_transfer 1 1 21000 1 [] 2, tx_transfer 1 2 21000 1 [] 3]"
  using repeated_leaf_same_root [of "[tx_transfer 1 0 21000 1 [] 1, tx_transfer 1 1 21000 1 [] 2, tx_transfer 1 2 21000 1 [] 3]" last32]
  by simp

end
