(* ===== verification/State_Proof.thy ===== *)
theory State_Proof
  imports State_Mpt State_Merkle
begin

text \<open>
  Inclusion and exclusion proofs of the trie (\<open>mpt/proof.rs\<close>). A walk that does
  not end and an index out of range give the outer \<open>None\<close>; the inner option is
  the result of the code. The lemmas show that the proof made for a key verifies
  with the value of the key, and that a proof which verifies against the root of
  a trie carries the value the trie has for the key.
\<close>

section \<open>Definitions\<close>

record MptProof =
  pf_nodes :: "bytes list"
  pf_value :: "bytes option"
  pf_chain_merkle :: MerkleProof
  pf_chain_merkle_root :: Hash

definition bind_chain :: "(bytes \<Rightarrow> Hash) \<Rightarrow> bytes list \<Rightarrow> (MerkleProof \<times> Hash) option" where
  "bind_chain H nodes =
    (let chain_merkle_root = compute_root H nodes
     in map_option (\<lambda>chain_merkle. (chain_merkle, chain_merkle_root)) (merkle_prove H nodes 0))"

partial_function (option) prove_walk ::
  "Trie \<Rightarrow> Hash \<Rightarrow> bytes \<Rightarrow> bytes list \<Rightarrow> (bytes list \<times> bytes option) option option" where
  [code]: "prove_walk tr h remaining nodes =
    (case node_bytes tr h of
       None \<Rightarrow> Some None
     | Some bs \<Rightarrow>
         (case deserialize_node bs of
            None \<Rightarrow> Some None
          | Some NEmpty \<Rightarrow> Some (Some (nodes @ [bs], None))
          | Some (NLeaf path v) \<Rightarrow> Some (Some (nodes @ [bs], if path = remaining then Some v else None))
          | Some (NExtension path nxt) \<Rightarrow>
              if \<not> starts_with remaining path then Some (Some (nodes @ [bs], None))
              else prove_walk tr nxt (drop (length path) remaining) (nodes @ [bs])
          | Some (NBranch children v) \<Rightarrow>
              (case remaining of
                 [] \<Rightarrow> Some (Some (nodes @ [bs], v))
               | n # rest \<Rightarrow>
                   do {
                     c \<leftarrow> child_at children n;
                     (case c of
                        None \<Rightarrow> Some (Some (nodes @ [bs], None))
                      | Some nxt \<Rightarrow> prove_walk tr nxt rest (nodes @ [bs]))
                   })))"

definition mpt_prove :: "(bytes \<Rightarrow> Hash) \<Rightarrow> Trie \<Rightarrow> bytes \<Rightarrow> MptProof option option" where
  "mpt_prove H tr key =
    do {
      walk \<leftarrow> prove_walk tr (tr_root tr) (bytes_to_nibbles key) [];
      Some (do {
        (nodes, v) \<leftarrow> walk;
        (chain_merkle, chain_merkle_root) \<leftarrow> bind_chain H nodes;
        Some \<lparr>pf_nodes = nodes, pf_value = v, pf_chain_merkle = chain_merkle,
              pf_chain_merkle_root = chain_merkle_root\<rparr>
      })
    }"

definition prove_exclusion :: "(bytes \<Rightarrow> Hash) \<Rightarrow> Trie \<Rightarrow> bytes \<Rightarrow> MptProof option option" where
  "prove_exclusion H tr key =
    do {
      p \<leftarrow> mpt_prove H tr key;
      Some (do { p \<leftarrow> p; if pf_value p \<noteq> None then None else Some p })
    }"

text \<open>The loop over the nodes, from position \<open>pos\<close> of the key.\<close>

fun walk_nodes :: "(bytes \<Rightarrow> Hash) \<Rightarrow> bytes list \<Rightarrow> bytes \<Rightarrow> nat \<Rightarrow> bytes option \<Rightarrow> bool" where
  "walk_nodes H [] key pos expected = False"
| "walk_nodes H (raw # rest) key pos expected =
    (case deserialize_node raw of
       None \<Rightarrow> False
     | Some NEmpty \<Rightarrow> rest = [] \<and> expected = None
     | Some (NLeaf path v) \<Rightarrow>
         if rest \<noteq> [] then False
         else if path = drop pos key then expected = Some v
         else expected = None
     | Some (NExtension path nxt) \<Rightarrow>
         if pos > length key \<or> \<not> starts_with (drop pos key) path then rest = [] \<and> expected = None
         else if rest = [] then False
         else if nxt \<noteq> hash_encoded H (hd rest) then False
         else walk_nodes H rest key (pos + length path) expected
     | Some (NBranch children v) \<Rightarrow>
         if pos = length key then rest = [] \<and> expected = v
         else let c = children ! unat (key ! pos) in
         if c = None then rest = [] \<and> expected = None
         else if rest = [] then False
         else if c \<noteq> Some (hash_encoded H (hd rest)) then False
         else walk_nodes H rest key (pos + 1) expected)"

definition walk_verify :: "(bytes \<Rightarrow> Hash) \<Rightarrow> bytes list \<Rightarrow> bytes \<Rightarrow> bytes option \<Rightarrow> bool" where
  "walk_verify H nodes key expected =
    (if nodes = [] then False else walk_nodes H nodes (bytes_to_nibbles key) 0 expected)"

definition mpt_verify :: "(bytes \<Rightarrow> Hash) \<Rightarrow> bytes \<Rightarrow> MptProof \<Rightarrow> Hash \<Rightarrow> bool" where
  "mpt_verify H key proof root =
    (if pf_nodes proof = [] then False
     else if hash_encoded H (pf_nodes proof ! 0) \<noteq> root then False
     else if compute_root H (pf_nodes proof) \<noteq> pf_chain_merkle_root proof then False
     else if \<not> merkle_verify H (pf_nodes proof ! 0) (pf_chain_merkle proof) (pf_chain_merkle_root proof) then False
     else walk_verify H (pf_nodes proof) key (pf_value proof))"

section \<open>The nodes on the path of a key\<close>

function path_trees :: "mpt \<Rightarrow> bytes \<Rightarrow> mpt list" where
  "path_trees TEmpty k = [TEmpty]"
| "path_trees (TLeaf p v) k = [TLeaf p v]"
| "path_trees (TExt p n) k =
    TExt p n # (if starts_with k p then path_trees n (drop (length p) k) else [])"
| "path_trees (TBranch cs v) [] = [TBranch cs v]"
| "path_trees (TBranch cs v) (n # r) =
    TBranch cs v # (case cs ! unat n of None \<Rightarrow> [] | Some c \<Rightarrow> path_trees c r)"
  by pat_completeness auto
termination
  by (relation "measures [\<lambda>(t, k). length k, \<lambda>(t, k). size t]") auto

lemma path_trees_hd [simp]: "path_trees t k \<noteq> []" "hd (path_trees t k) = t"
  by (cases "(t, k)" rule: path_trees.cases; simp)+

lemma hd_map_path: "hd (map f (path_trees t k)) = f t"
  by (simp add: hd_map)

lemma node_bytes_tree: "holds H T tr t \<Longrightarrow> node_bytes tr (root_of H t) = Some (payload H t)"
  using holds_self by (simp add: node_bytes_def)

lemma deserialize_payload: "table H T tr \<Longrightarrow> holds H T tr t \<Longrightarrow> deserialize_node (payload H t) = Some (node_of H t)"
  using holds_self [of H T tr t] deserialize_serialize by (simp add: payload_def table_def safe_def)

lemma prove_walk_tree:
  "table H T tr \<Longrightarrow> wf_mpt t \<Longrightarrow> nibs k \<Longrightarrow> holds H T tr t \<Longrightarrow>
    prove_walk tr (root_of H t) k ns = Some (Some (ns @ map (payload H) (path_trees t k), t_get t k))"
proof (induction t k arbitrary: ns rule: path_trees.induct)
  case (5 cs v n r)
  have n: "unat n < 16" "length cs = 16" using 5 by (simp_all add: nibble_less)
  have "holds H T tr c" "wf_mpt c" if "cs ! unat n = Some c" for c
    using all_held_child [OF all_held_branch [OF 5(5,3)] n(1) that] wf_mpt_child [OF 5(3) n(1) that] by auto
  then show ?case
    using 5 n node_bytes_tree [OF 5(5)] deserialize_payload [OF 5(2,5)]
    by (subst prove_walk.simps) (auto simp: child_at_hashes split: option.split)
next
  case (3 p n k)
  then show ?case
    using node_bytes_tree [OF 3(5)] deserialize_payload [OF 3(2,5)] by (subst prove_walk.simps) simp
next
  case (4 cs v)
  then show ?case
    using node_bytes_tree [OF 4(4)] deserialize_payload [OF 4(1,4)] by (subst prove_walk.simps) simp
qed (subst prove_walk.simps, simp add: node_bytes_tree deserialize_payload)+

lemma walk_nodes_tree:
  "table H T tr \<Longrightarrow> wf_mpt t \<Longrightarrow> nibs key \<Longrightarrow> holds H T tr t \<Longrightarrow> k = drop pos key \<Longrightarrow> pos \<le> length key \<Longrightarrow>
    walk_nodes H (map (payload H) (path_trees t k)) key pos (t_get t k)"
proof (induction t k arbitrary: pos rule: path_trees.induct)
  case (3 p n k)
  have ld: "deserialize_node (payload H (TExt p n)) = Some (NExtension p (root_of H n))"
    using deserialize_payload [OF 3(2,5)] by simp
  show ?case
  proof (cases "starts_with k p")
    case True
    then have "pos + length p \<le> length key" using 3(6,7) by (auto simp: starts_with_def dest!: arg_cong [of _ _ length])
    then have "walk_nodes H (map (payload H) (path_trees n (drop (length p) k))) key (pos + length p) (t_get n (drop (length p) k))"
      using 3 True by (intro 3(1)) (auto simp: add.commute)
    then show ?thesis
      using ld True 3(6,7) by (simp add: hd_map_path root_of_payload)
  next
    case False
    then show ?thesis using ld 3(6,7) by simp
  qed
next
  case (4 cs v)
  then show ?case using deserialize_payload [OF 4(1,4)] by simp
next
  case (5 cs v n r)
  have ld: "deserialize_node (payload H (TBranch cs v)) = Some (NBranch (map (map_option (root_of H)) cs) v)"
    using deserialize_payload [OF 5(2,5)] by simp
  have k: "key ! pos = n" "drop (pos + 1) key = r" "pos < length key"
    using 5(6,7) by (metis nth_via_drop, metis drop_Suc list.sel(3) tl_drop Suc_eq_plus1,
        metis drop_all leI list.distinct(1))
  have n: "unat n < 16" "length cs = 16"
    using 5(3,4) k nth_mem [of pos key] by (auto simp: nibble_less nibs_def)
  show ?case
  proof (cases "cs ! unat n")
    case None
    then show ?thesis using ld k n by simp
  next
    case (Some c)
    have "walk_nodes H (map (payload H) (path_trees c r)) key (pos + 1) (t_get c r)"
      using 5(2,4) k wf_mpt_child [OF 5(3) n(1) Some]
        all_held_child [OF all_held_branch [OF 5(5,3)] n(1) Some] by (intro 5(1) [OF Some]) auto
    then show ?thesis using ld k n Some by (simp add: hd_map_path root_of_payload)
  qed
qed (simp add: deserialize_payload)+

section \<open>Proofs are complete\<close>

lemma mpt_prove_tree:
  assumes "refines H T tr t" "wf_mpt t"
  shows "\<exists>p. mpt_prove H tr key = Some (Some p) \<and> pf_value p = t_get t (bytes_to_nibbles key) \<and>
    mpt_verify H key p (tr_root tr)"
proof -
  let ?k = "bytes_to_nibbles key"
  let ?ns = "map (payload H) (path_trees t ?k)"
  have r: "table H T tr" "holds H T tr t" "tr_root tr = root_of H t" using assms(1) by (auto simp: refines_def)
  have walk: "prove_walk tr (tr_root tr) ?k [] = Some (Some (?ns, t_get t ?k))"
    using prove_walk_tree [OF r(1) assms(2) _ r(2)] r(3) by simp
  have ne: "?ns \<noteq> []" "?ns ! 0 = payload H t" using hd_map_path [of "payload H" t ?k] by (simp_all add: hd_conv_nth)
  then obtain cm where cm: "merkle_prove H ?ns 0 = Some cm" "merkle_verify H (?ns ! 0) cm (compute_root H ?ns)"
    using merkle_complete [of 0 ?ns H] by auto
  have "walk_nodes H ?ns ?k 0 (t_get t ?k)"
    using walk_nodes_tree [OF r(1) assms(2) _ r(2), of ?k ?k 0] by simp
  then show ?thesis
    using walk cm ne r(3)
    by (simp add: mpt_prove_def bind_chain_def mpt_verify_def walk_verify_def root_of_payload)
qed

section \<open>Proofs are sound\<close>

lemma walk_nodes_sound:
  assumes "inj_on (hash_encoded H) S" "\<forall>u\<in>set (subtrees t). payload H u \<in> S \<and> wf_node (node_of H u)"
    and "wf_mpt t" "nibs key" "pos \<le> length key" "set ns \<subseteq> S" "ns \<noteq> []" "hd ns = payload H t"
    and "walk_nodes H ns key pos expected"
  shows "expected = t_get t (drop pos key)"
  using assms(2-)
proof (induction ns arbitrary: t pos)
  case (Cons raw rest)
  have raw: "raw = payload H t" "deserialize_node raw = Some (node_of H t)"
    using Cons.prems(1,7) subtrees_self deserialize_serialize by (auto simp: payload_def)
  have link: "hd rest = payload H u"
    if "rest \<noteq> []" "u \<in> set (subtrees t)" "root_of H u = hash_encoded H (hd rest)" for u
    using that Cons.prems(1,5) inj_onD [OF assms(1), of "payload H u" "hd rest"]
    by (cases rest) (auto simp: root_of_payload)
  show ?case
  proof (cases t)
    case TEmpty
    then show ?thesis using Cons.prems(8) raw(2) by simp
  next
    case (TLeaf p v)
    then show ?thesis using Cons.prems(8) raw(2) by (auto split: if_splits)
  next
    case (TExt p n)
    show ?thesis
    proof (cases "starts_with (drop pos key) p")
      case True
      then have walk: "rest \<noteq> []" "root_of H n = hash_encoded H (hd rest)" "walk_nodes H rest key (pos + length p) expected"
        using Cons.prems(4,8) raw(2) TExt by (auto split: if_splits)
      have "pos + length p \<le> length key"
        using True Cons.prems(4) by (auto simp: starts_with_def dest!: arg_cong [of _ _ length])
      then have "expected = t_get n (drop (pos + length p) key)"
        using walk Cons.prems(1,2,3,5) TExt link [OF walk(1) _ walk(2)] subtrees_self
        by (intro Cons.IH) auto
      then show ?thesis using True TExt by (simp add: add.commute)
    next
      case False
      then show ?thesis using Cons.prems(8) raw(2) TExt by simp
    qed
  next
    case (TBranch cs v)
    show ?thesis
    proof (cases "pos = length key")
      case True
      then show ?thesis using Cons.prems(8) raw(2) TBranch by simp
    next
      case False
      let ?n = "key ! pos"
      have k: "drop pos key = ?n # drop (pos + 1) key" using False Cons.prems(4) by (simp add: Cons_nth_drop_Suc)
      have n: "unat ?n < 16" "length cs = 16"
        using Cons.prems(2,3,4) False TBranch nth_mem [of pos key] by (auto simp: nibble_less nibs_def)
      show ?thesis
      proof (cases "cs ! unat ?n")
        case None
        then show ?thesis using Cons.prems(8) raw(2) TBranch False n k by simp
      next
        case (Some c)
        then have walk: "rest \<noteq> []" "root_of H c = hash_encoded H (hd rest)" "walk_nodes H rest key (pos + 1) expected"
          using Cons.prems(8) raw(2) TBranch False n by (auto simp: Let_def split: if_splits)
        have "Some c \<in> set cs" using Some n by (metis nth_mem)
        then have sub: "set (subtrees c) \<subseteq> set (subtrees t)" unfolding TBranch set_subtrees_branch by blast
        then have "hd rest = payload H c" using link [OF walk(1) _ walk(2)] subtrees_self by blast
        then have "expected = t_get c (drop (pos + 1) key)"
          using Cons.prems(1,3,4,5) sub walk False wf_mpt_child [of cs v _ c] n Some Cons.prems(2) TBranch
          by (intro Cons.IH) auto
        then show ?thesis using k Some TBranch by simp
      qed
    qed
  qed
qed simp

lemma mpt_verify_sound:
  assumes "inj_on (hash_encoded H) (payload H ` set (subtrees t) \<union> set (pf_nodes p))"
    and "\<forall>u\<in>set (subtrees t). wf_node (node_of H u)" "wf_mpt t" "mpt_verify H key p (root_of H t)"
  shows "pf_value p = t_get t (bytes_to_nibbles key)"
proof -
  let ?S = "payload H ` set (subtrees t) \<union> set (pf_nodes p)"
  have v: "pf_nodes p \<noteq> []" "hash_encoded H (pf_nodes p ! 0) = root_of H t"
    "walk_nodes H (pf_nodes p) (bytes_to_nibbles key) 0 (pf_value p)"
    using assms(4) by (auto simp: mpt_verify_def walk_verify_def split: if_splits)
  have "pf_nodes p ! 0 \<in> ?S" "payload H t \<in> ?S"
    using v(1) nth_mem [of 0 "pf_nodes p"] subtrees_self [of t] by blast+
  then have "pf_nodes p ! 0 = payload H t"
    using v(2) inj_onD [OF assms(1)] unfolding root_of_payload by blast
  then have "hd (pf_nodes p) = payload H t" using v(1) by (simp add: hd_conv_nth)
  moreover have "\<forall>u\<in>set (subtrees t). payload H u \<in> ?S \<and> wf_node (node_of H u)" using assms(2) by blast
  ultimately have "pf_value p = t_get t (drop 0 (bytes_to_nibbles key))"
    using walk_nodes_sound [OF assms(1) _ assms(3) nibs_bytes_to_nibbles _ _ v(1) _ v(3)] by blast
  then show ?thesis by simp
qed

section \<open>Proofs for a run of updates\<close>

lemma run_prove:
  assumes "\<forall>b. length (H b) = 32" "list_all op_fits xs" "collision_free H [xs]"
    and "trie_run H (trie_new H) xs = Some tr"
  shows "\<exists>p. mpt_prove H tr key = Some (Some p) \<and> pf_value p = fold map_op xs Map.empty key \<and>
    mpt_verify H key p (tr_root tr)"
proof -
  have fits: "\<forall>ys\<in>set [xs]. list_all op_fits ys" using assms(2) by simp
  have r: "refines H (set (run_trees [xs])) tr (fold tree_op xs TEmpty)"
    "models (fold tree_op xs TEmpty) (fold map_op xs Map.empty)"
    using run_refines [OF assms(1) fits assms(3), of xs] assms(4) by auto
  then have "wf_mpt (fold tree_op xs TEmpty)"
    "t_get (fold tree_op xs TEmpty) (bytes_to_nibbles key) = fold map_op xs Map.empty key"
    by (simp_all add: models_def)
  then show ?thesis using mpt_prove_tree [OF r(1), of key] by simp
qed

lemma run_verify_sound:
  assumes "\<forall>b. length (H b) = 32" "list_all op_fits xs"
    and "inj_on (hash_encoded H) (payload H ` set (run_trees [xs]) \<union> set (pf_nodes p))"
    and "trie_run H (trie_new H) xs = Some tr" "mpt_verify H key p (tr_root tr)"
  shows "pf_value p = fold map_op xs Map.empty key"
proof -
  let ?t = "fold tree_op xs TEmpty"
  have fits: "\<forall>ys\<in>set [xs]. list_all op_fits ys" using assms(2) by simp
  have cf: "collision_free H [xs]" using assms(3) by (auto simp: collision_free_def intro: inj_on_subset)
  have r: "refines H (set (run_trees [xs])) tr ?t" "models ?t (fold map_op xs Map.empty)"
    using run_refines [OF assms(1) fits cf, of xs] assms(4) by auto
  then have sub: "set (subtrees ?t) \<subseteq> set (run_trees [xs])" and root: "tr_root tr = root_of H ?t"
    using holds_subset unfolding refines_def by blast+
  have "pf_value p = t_get ?t (bytes_to_nibbles key)"
  proof (rule mpt_verify_sound)
    show "inj_on (hash_encoded H) (payload H ` set (subtrees ?t) \<union> set (pf_nodes p))"
      using assms(3) by (rule inj_on_subset) (use sub in blast)
    show "\<forall>u\<in>set (subtrees ?t). wf_node (node_of H u)"
      using written_safe [OF assms(1) fits cf] sub unfolding safe_def by blast
    show "wf_mpt ?t" using r(2) by (simp add: models_def)
    show "mpt_verify H key p (root_of H ?t)" using assms(5) root by simp
  qed
  then show ?thesis using r(2) by (simp add: models_def)
qed

section \<open>What proofs promise\<close>

text \<open>
  C28. Every key of a trie has a proof. After any sequence of puts and deletes,
  the prover returns, the proof carries the value the map of the updates has for
  the key, absence included, and it verifies against the root of the trie.
\<close>

theorem mpt_proof_complete:
  assumes "\<forall>b. length (H b) = 32" "list_all op_fits xs" "collision_free H [xs]"
    and "trie_run H (trie_new H) xs = Some tr"
  shows "\<exists>p. mpt_prove H tr key = Some (Some p) \<and> pf_value p = fold map_op xs Map.empty key \<and>
    mpt_verify H key p (tr_root tr)"
  using assms by (rule run_prove)

theorem mpt_proof_complete_witness:
  "\<exists>tr p. trie_run poly32 (trie_new poly32) example_ops = Some tr \<and>
    mpt_prove poly32 tr [0x12] = Some (Some p) \<and> pf_value p = None \<and> mpt_verify poly32 [0x12] p (tr_root tr)"
proof -
  have fits: "\<forall>ys\<in>set [example_ops]. list_all op_fits ys" by (simp add: example_ops_def)
  obtain tr where tr: "trie_run poly32 (trie_new poly32) example_ops = Some tr"
    using run_refines [OF _ fits example_collision_free(1), of example_ops] by auto
  have "fold map_op example_ops Map.empty [0x12] = None" by (simp add: example_ops_def)
  then show ?thesis
    using tr mpt_proof_complete [OF _ _ example_collision_free(1) tr, of "[0x12]"] fits by auto
qed

text \<open>
  C27. A proof cannot lie. A proof that verifies against the root reached by a
  sequence of puts and deletes carries exactly the value of the key there: the
  last value put, or none when the key is absent. The nodes of the proof may be
  anything as long as none of them collides with a payload of the trie.
\<close>

theorem mpt_proof_sound:
  assumes "\<forall>b. length (H b) = 32" "list_all op_fits xs"
    and "inj_on (hash_encoded H) (payload H ` set (run_trees [xs]) \<union> set (pf_nodes p))"
    and "trie_run H (trie_new H) xs = Some tr" "mpt_verify H key p (tr_root tr)"
  shows "pf_value p = fold map_op xs Map.empty key"
  using assms by (rule run_verify_sound)

definition example_proof :: MptProof where
  "example_proof =
    (let ns = [payload poly32 (TLeaf (bytes_to_nibbles [0x13]) [2])]
     in \<lparr>pf_nodes = ns, pf_value = Some [2],
         pf_chain_merkle = \<lparr>mp_leaf_index = 0, mp_siblings = []\<rparr>,
         pf_chain_merkle_root = compute_root poly32 ns\<rparr>)"

theorem mpt_proof_sound_witness:
  "\<exists>tr. trie_run poly32 (trie_new poly32) example_ops' = Some tr \<and>
    mpt_verify poly32 [0x13] example_proof (tr_root tr) \<and>
    pf_value example_proof = fold map_op example_ops' Map.empty [0x13]"
proof -
  have run: "map_option (\<lambda>tr. mpt_verify poly32 [0x13] example_proof (tr_root tr))
      (trie_run poly32 (trie_new poly32) example_ops') = Some True"
    by code_simp
  then obtain tr where tr: "trie_run poly32 (trie_new poly32) example_ops' = Some tr"
    "mpt_verify poly32 [0x13] example_proof (tr_root tr)" by auto
  have fits: "list_all op_fits example_ops'" by (simp add: example_ops'_def)
  have "distinct (map (hash_encoded poly32)
      (remdups (map (payload poly32) (run_trees [example_ops']) @ pf_nodes example_proof)))" by code_simp
  then have "inj_on (hash_encoded poly32) (payload poly32 ` set (run_trees [example_ops']) \<union> set (pf_nodes example_proof))"
    unfolding distinct_map by simp
  then show ?thesis using mpt_proof_sound [OF _ fits _ tr] tr by auto
qed

end
