(* ===== verification/State_Accounts.thy ===== *)
theory State_Accounts
  imports State_Proof
begin

text \<open>
  Accounts, the two tries and expiry (\<open>account.rs\<close>, \<open>tries.rs\<close>, \<open>root.rs\<close>,
  \<open>expiry.rs\<close> of \<open>crates/state\<close>). The tries appear at two levels: as the
  hash-addressed trie, for expiry and its proofs, and as the tree that it refines,
  for the execution engine. The interface \<open>keyed_map\<close> holds what the engine relies
  on. The lemmas show that expiry and reactivation restore the state, and that
  reactivation does not tie its record to the chain.
\<close>

section \<open>Accounts\<close>

record Account =
  ac_balance :: Amount
  ac_nonce :: Nonce
  ac_code_hash :: Hash

definition account_empty :: Account where
  "account_empty = \<lparr>ac_balance = 0, ac_nonce = 0, ac_code_hash = replicate 32 0\<rparr>"

definition account_encode :: "Account \<Rightarrow> bytes" where
  "account_encode a = canonical_encode (u128_be (ac_balance a) @ u64_be (ac_nonce a) @ ac_code_hash a)"

definition account_decode :: "bytes \<Rightarrow> (Account, TypesError) result" where
  "account_decode buf =
    and_then (canonical_decode buf) (\<lambda>p.
      if length p \<noteq> 16 + 8 + 32 then Err (BadLength 56 (length p))
      else Ok \<lparr>ac_balance = u128_from_be (slice 0 16 p), ac_nonce = u64_from_be (slice 16 24 p),
               ac_code_hash = slice 24 56 p\<rparr>)"

definition account_from_genesis :: "GenesisAccount \<Rightarrow> Account" where
  "account_from_genesis g =
    \<lparr>ac_balance = ga_balance g, ac_nonce = ga_nonce g, ac_code_hash = ga_code_hash g\<rparr>"

definition account_key :: "Address \<Rightarrow> bytes" where
  "account_key addr = addr"

definition wf_account :: "Account \<Rightarrow> bool" where
  "wf_account a = (length (ac_code_hash a) = 32)"

lemma account_decode_encode: "wf_account a \<Longrightarrow> account_decode (account_encode a) = Ok a"
  by (simp add: account_decode_def account_encode_def wf_account_def canonical_decode_encode slice_def)

lemma account_decode_OkD:
  assumes "account_decode b = Ok a"
  shows "wf_account a \<and> account_encode a = b"
proof -
  obtain p where p: "canonical_decode b = Ok p" "length p = 56"
    and a: "a = \<lparr>ac_balance = u128_from_be (slice 0 16 p), ac_nonce = u64_from_be (slice 16 24 p),
      ac_code_hash = slice 24 56 p\<rparr>"
    using assms by (auto simp: account_decode_def result_simps split: if_splits)
  have len: "length (slice 0 16 p) = 16" "length (slice 16 24 p) = 8" "length (slice 24 56 p) = 32"
    using p(2) by (simp_all add: slice_def)
  have "slice 0 16 p @ slice 16 24 p @ slice 24 56 p = p"
    using p(2) slice_join(2) [of 16 24 56 p] slice_join(2) [of 0 16 56 p] by simp
  then have "account_encode a = canonical_encode p"
    unfolding a account_encode_def using len by (simp add: u_be_from_be)
  then show ?thesis using frame.enc_dec [OF p(1)] len by (simp add: a wf_account_def)
qed

interpretation account_format: canonical account_encode account_decode wf_account
  by unfold_locales (simp add: account_decode_encode, rule account_decode_OkD)

section \<open>Tries over the hash-addressed trie\<close>

definition account_put :: "(bytes \<Rightarrow> Hash) \<Rightarrow> Trie \<Rightarrow> Address \<Rightarrow> Account \<Rightarrow> Trie option" where
  "account_put H tr addr account = trie_put H tr (account_key addr) (account_encode account)"

definition decoded :: "bytes option \<Rightarrow> Account option" where
  "decoded found =
    (case found of
       None \<Rightarrow> None
     | Some b \<Rightarrow> (case account_decode b of Ok a \<Rightarrow> Some a | Err _ \<Rightarrow> None))"

definition account_get :: "Trie \<Rightarrow> Address \<Rightarrow> Account option option" where
  "account_get tr addr = map_option decoded (trie_get tr (account_key addr))"

definition account_delete :: "(bytes \<Rightarrow> Hash) \<Rightarrow> Trie \<Rightarrow> Address \<Rightarrow> Trie option" where
  "account_delete H tr addr = trie_delete H tr (account_key addr)"

definition commit_tries :: "(bytes \<Rightarrow> Hash) \<Rightarrow> Trie \<Rightarrow> Trie \<Rightarrow> Hash" where
  "commit_tries H accounts storage = commit_root H (tr_root accounts) (tr_root storage)"

section \<open>Tries over the tree\<close>

text \<open>
  The same operations on the tree that the hash-addressed trie refines. They are
  total; by the refinement they return what the operations above return.
\<close>

type_synonym AccountTrie = mpt
type_synonym ContractStorageTrie = mpt

definition accounts_put :: "AccountTrie \<Rightarrow> Address \<Rightarrow> Account \<Rightarrow> AccountTrie" where
  "accounts_put t addr account = t_insert t (bytes_to_nibbles (account_key addr)) (account_encode account)"

definition accounts_get :: "AccountTrie \<Rightarrow> Address \<Rightarrow> Account option" where
  "accounts_get t addr = decoded (t_get t (bytes_to_nibbles (account_key addr)))"

definition accounts_delete :: "AccountTrie \<Rightarrow> Address \<Rightarrow> AccountTrie" where
  "accounts_delete t addr = t_delete t (bytes_to_nibbles (account_key addr))"

definition storage_put :: "ContractStorageTrie \<Rightarrow> bytes \<Rightarrow> bytes \<Rightarrow> ContractStorageTrie" where
  "storage_put t key v = t_insert t (bytes_to_nibbles key) v"

definition storage_get :: "ContractStorageTrie \<Rightarrow> bytes \<Rightarrow> bytes option" where
  "storage_get t key = t_get t (bytes_to_nibbles key)"

definition trie_ok :: "mpt \<Rightarrow> bool" where
  "trie_ok t = (\<exists>m. models t m)"

section \<open>The map interface\<close>

locale keyed_map =
  fixes get :: "'m \<Rightarrow> 'k \<Rightarrow> 'v option"
    and put :: "'m \<Rightarrow> 'k \<Rightarrow> 'v \<Rightarrow> 'm"
    and ok :: "'m \<Rightarrow> bool"
    and valid :: "'v \<Rightarrow> bool"
  assumes ok_put: "ok m \<Longrightarrow> ok (put m k v)"
    and get_put: "ok m \<Longrightarrow> valid v \<Longrightarrow> get (put m k v) q = (if q = k then Some v else get m q)"
begin

lemma get_put_same: "ok m \<Longrightarrow> valid v \<Longrightarrow> get (put m k v) k = Some v"
  by (simp add: get_put)

lemma get_put_other: "ok m \<Longrightarrow> valid v \<Longrightarrow> q \<noteq> k \<Longrightarrow> get (put m k v) q = get m q"
  by (simp add: get_put)

text \<open>A total over some keys after one of them is rewritten.\<close>

lemma sum_put:
  fixes f :: "'v option \<Rightarrow> nat"
  assumes "ok m" "valid v" "finite A" "k \<in> A"
  shows "(\<Sum>x\<in>A. f (get (put m k v) x)) + f (get m k) = (\<Sum>x\<in>A. f (get m x)) + f (Some v)"
proof -
  have "(\<Sum>x\<in>A - {k}. f (get (put m k v) x)) = (\<Sum>x\<in>A - {k}. f (get m x))"
    using assms by (intro sum.cong) (auto simp: get_put)
  then show ?thesis using assms by (simp add: sum.remove [of A k] get_put_same)
qed

lemma sum_put_outside:
  fixes f :: "'v option \<Rightarrow> nat"
  assumes "ok m" "valid v" "k \<notin> A"
  shows "(\<Sum>x\<in>A. f (get (put m k v) x)) = (\<Sum>x\<in>A. f (get m x))"
  using assms by (intro sum.cong) (auto simp: get_put)

end

locale keyed_map_delete = keyed_map get put ok valid
  for get :: "'m \<Rightarrow> 'k \<Rightarrow> 'v option" and put :: "'m \<Rightarrow> 'k \<Rightarrow> 'v \<Rightarrow> 'm" and ok :: "'m \<Rightarrow> bool" and valid :: "'v \<Rightarrow> bool" +
  fixes del :: "'m \<Rightarrow> 'k \<Rightarrow> 'm"
  assumes ok_del: "ok m \<Longrightarrow> ok (del m k)"
    and get_del: "ok m \<Longrightarrow> get (del m k) q = (if q = k then None else get m q)"
begin

lemma put_after_del: "ok m \<Longrightarrow> valid v \<Longrightarrow> get (put (del m k) k v) q = get (put m k v) q"
  by (simp add: get_put ok_del get_del)

lemma del_then_put_back: "ok m \<Longrightarrow> valid v \<Longrightarrow> get m k = Some v \<Longrightarrow> get (put (del m k) k v) q = get m q"
  by (simp add: get_put ok_del get_del)

end

lemma trie_ok_put: "trie_ok t \<Longrightarrow> trie_ok (t_insert t (bytes_to_nibbles k) v)"
  unfolding trie_ok_def using models_op [of t _ "TPut k v"] by auto

lemma trie_ok_delete: "trie_ok t \<Longrightarrow> trie_ok (t_delete t (bytes_to_nibbles k))"
  unfolding trie_ok_def using models_op [of t _ "TDel k"] by auto

lemma trie_ok_wf: "trie_ok t \<Longrightarrow> wf_mpt t"
  by (auto simp: trie_ok_def models_def)

lemma trie_ok_empty [simp]: "trie_ok TEmpty"
  unfolding trie_ok_def using models_empty by blast

interpretation accounts: keyed_map_delete accounts_get accounts_put trie_ok wf_account accounts_delete
proof
  show "trie_ok m \<Longrightarrow> trie_ok (accounts_put m k v)" for m k v
    by (simp add: accounts_put_def trie_ok_put)
  show "trie_ok m \<Longrightarrow> wf_account v \<Longrightarrow> accounts_get (accounts_put m k v) q = (if q = k then Some v else accounts_get m q)" for m v k q
    using trie_ok_wf [of m]
    by (auto simp: accounts_put_def accounts_get_def t_get_insert account_key_def decoded_def account_decode_encode)
  show "trie_ok m \<Longrightarrow> trie_ok (accounts_delete m k)" for m k
    by (simp add: accounts_delete_def trie_ok_delete)
  show "trie_ok m \<Longrightarrow> accounts_get (accounts_delete m k) q = (if q = k then None else accounts_get m q)" for m k q
    using trie_ok_wf [of m] by (auto simp: accounts_delete_def accounts_get_def t_get_delete account_key_def decoded_def)
qed

interpretation contract_slots: keyed_map storage_get storage_put trie_ok "\<lambda>_. True"
  using trie_ok_wf by unfold_locales (auto simp: storage_put_def storage_get_def t_get_insert trie_ok_put)

text \<open>The two levels agree.\<close>

lemma account_levels:
  assumes "refines H T tr t" "wf_mpt t"
  shows "account_get tr addr = Some (accounts_get t addr)"
    and "set (subtrees (accounts_put t addr a)) \<subseteq> T \<Longrightarrow>
      \<exists>tr'. account_put H tr addr a = Some tr' \<and> refines H T tr' (accounts_put t addr a)"
  using assms refines_get [OF assms, of addr] refines_op [OF assms, of "TPut addr (account_encode a)"]
  by (auto simp: account_get_def accounts_get_def account_key_def account_put_def accounts_put_def)

section \<open>Expiry and reactivation\<close>

record ExpiryRecord =
  er_address :: Address
  er_encoded :: bytes
  er_inclusion :: MptProof
  er_root :: Hash

datatype ExpiryError = StillPaid | ProofError | StillPresent

definition expire ::
  "(bytes \<Rightarrow> Hash) \<Rightarrow> Trie \<Rightarrow> Address \<Rightarrow> u64 \<Rightarrow> u64 \<Rightarrow> ((ExpiryRecord, ExpiryError) result \<times> Trie) option" where
  "expire H tr address rent_due prepaid =
    (if rent_due \<le> prepaid then Some (Err StillPaid, tr)
     else do {
       found \<leftarrow> account_get tr address;
       (case found of
          None \<Rightarrow> Some (Err ProofError, tr)
        | Some account \<Rightarrow>
            do {
              p \<leftarrow> mpt_prove H tr (account_key address);
              (case p of
                 None \<Rightarrow> Some (Err ProofError, tr)
               | Some inclusion \<Rightarrow>
                   if \<not> mpt_verify H (account_key address) inclusion (tr_root tr) then Some (Err ProofError, tr)
                   else do {
                     tr' \<leftarrow> account_delete H tr address;
                     Some (Ok \<lparr>er_address = address, er_encoded = account_encode account,
                               er_inclusion = inclusion, er_root = tr_root tr\<rparr>, tr')
                   })
            })
     })"

definition reactivate ::
  "(bytes \<Rightarrow> Hash) \<Rightarrow> Trie \<Rightarrow> ExpiryRecord \<Rightarrow> MptProof \<Rightarrow> ((Account, ExpiryError) result \<times> Trie) option" where
  "reactivate H tr record exclusion =
    (let key = account_key (er_address record) in
     do {
       found \<leftarrow> account_get tr (er_address record);
       if found \<noteq> None then Some (Err StillPresent, tr)
       else if pf_value (er_inclusion record) \<noteq> Some (er_encoded record) then Some (Err ProofError, tr)
       else if \<not> mpt_verify H key (er_inclusion record) (er_root record) then Some (Err ProofError, tr)
       else do {
         ex \<leftarrow> prove_exclusion H tr key;
         (case ex of
            None \<Rightarrow> Some (Err ProofError, tr)
          | Some ex \<Rightarrow>
              if \<not> mpt_verify H key exclusion (tr_root tr) \<or> exclusion \<noteq> ex then Some (Err ProofError, tr)
              else (case account_decode (er_encoded record) of
                      Err _ \<Rightarrow> Some (Err ProofError, tr)
                    | Ok account \<Rightarrow>
                        do {
                          tr' \<leftarrow> account_put H tr (er_address record) account;
                          Some (Ok account, tr')
                        }))
       }
     })"

lemma mpt_prove_run:
  assumes "refines H T tr t" "models t m"
  obtains p where "mpt_prove H tr key = Some (Some p)" "pf_value p = m key" "mpt_verify H key p (tr_root tr)"
  using mpt_prove_tree [OF assms(1), of key] assms(2) by (auto simp: models_def)

lemma account_get_run:
  "refines H T tr t \<Longrightarrow> models t m \<Longrightarrow> account_get tr addr = Some (decoded (m addr))"
  using refines_get [of H T tr t addr] by (simp add: account_get_def account_key_def models_def)

lemma decoded_encode [simp]: "wf_account a \<Longrightarrow> decoded (Some (account_encode a)) = Some a" "decoded None = None"
  by (simp_all add: decoded_def account_decode_encode)

lemma expire_run:
  assumes r: "refines H T tr t" "models t m" and T: "set (op_trees t (TDel addr)) \<subseteq> T"
    and paid: "rent_due > prepaid" and a: "m addr = Some (account_encode a)" "wf_account a"
  obtains p tr' where "expire H tr addr rent_due prepaid =
      Some (Ok \<lparr>er_address = addr, er_encoded = account_encode a, er_inclusion = p, er_root = tr_root tr\<rparr>, tr')"
    "refines H T tr' (tree_op (TDel addr) t)" "pf_value p = Some (account_encode a)" "mpt_verify H addr p (tr_root tr)"
proof -
  obtain p where p: "mpt_prove H tr addr = Some (Some p)" "pf_value p = m addr" "mpt_verify H addr p (tr_root tr)"
    by (rule mpt_prove_run [OF r])
  have "wf_mpt t" using r(2) by (simp add: models_def)
  then obtain tr' where "trie_delete H tr addr = Some tr'" "refines H T tr' (tree_op (TDel addr) t)"
    using refines_op [OF r(1) _ T] by auto
  then show thesis
    using that [of p tr'] p paid a account_get_run [OF r, of addr]
    by (auto simp: expire_def account_key_def account_delete_def)
qed

lemma reactivate_run:
  assumes r: "refines H T tr t" "models t m" and T: "set (op_trees t (TPut addr (account_encode a))) \<subseteq> T"
    and a: "m addr = None" "wf_account a"
    and p: "pf_value p = Some (account_encode a)" "mpt_verify H addr p root"
  obtains ex tr' where "prove_exclusion H tr addr = Some (Some ex)"
    "reactivate H tr \<lparr>er_address = addr, er_encoded = account_encode a, er_inclusion = p, er_root = root\<rparr> ex =
      Some (Ok a, tr')"
    "refines H T tr' (tree_op (TPut addr (account_encode a)) t)"
proof -
  obtain ex where ex: "mpt_prove H tr addr = Some (Some ex)" "pf_value ex = m addr" "mpt_verify H addr ex (tr_root tr)"
    by (rule mpt_prove_run [OF r])
  have "wf_mpt t" using r(2) by (simp add: models_def)
  then obtain tr' where "trie_put H tr addr (account_encode a) = Some tr'"
    "refines H T tr' (tree_op (TPut addr (account_encode a)) t)"
    using refines_op [OF r(1) _ T] by auto
  then show thesis
    using that [of ex tr'] p a ex account_get_run [OF r, of addr]
    by (auto simp: reactivate_def account_key_def account_put_def prove_exclusion_def account_decode_encode)
qed

lemma written_append: "written t (xs @ ys) = written t xs @ written (fold tree_op xs t) ys"
  by (induction xs arbitrary: t) auto

lemma prefix_refines:
  assumes "\<forall>b. length (H b) = 32" "list_all op_fits (xs @ ys)" "collision_free H [xs @ ys]"
    and "trie_run H (trie_new H) xs = Some tr"
  shows "refines H (set (run_trees [xs @ ys])) tr (fold tree_op xs TEmpty) \<and>
    models (fold tree_op xs TEmpty) (fold map_op xs Map.empty) \<and>
    set (written (fold tree_op xs TEmpty) ys) \<subseteq> set (run_trees [xs @ ys])"
proof -
  have fits: "\<forall>zs\<in>set [xs @ ys]. list_all op_fits zs" using assms(2) by simp
  have "refines H (set (run_trees [xs @ ys])) (trie_new H) TEmpty"
    by (rule refines_new [OF written_safe [OF assms(1) fits assms(3)]]) (simp add: run_trees_def)
  moreover have "set (written TEmpty xs) \<subseteq> set (run_trees [xs @ ys])"
    "set (written (fold tree_op xs TEmpty) ys) \<subseteq> set (run_trees [xs @ ys])"
    by (auto simp: run_trees_def written_append)
  ultimately show ?thesis using refines_run [OF _ models_empty] assms(4) by fastforce
qed

lemma length_account_encode: "wf_account a \<Longrightarrow> length (account_encode a) = 61"
  by (simp add: account_encode_def length_canonical_encode wf_account_def)

text \<open>
  C39. Expiry loses nothing. An unpaid account that is expired is gone from the
  trie, and reactivation with the record it left and a fresh exclusion proof
  returns the same account and leads back to the root before the expiry.
\<close>

theorem expire_reactivate_restores:
  assumes "\<forall>b. length (H b) = 32" "list_all op_fits xs" "length addr < 2 ^ 31" "rent_due > prepaid"
    and "collision_free H [xs @ [TDel addr, TPut addr (account_encode a)]]"
    and "fold map_op xs Map.empty addr = Some (account_encode a)" "wf_account a"
    and "trie_run H (trie_new H) xs = Some tr"
  shows "\<exists>record tr' ex tr''. expire H tr addr rent_due prepaid = Some (Ok record, tr') \<and>
    account_get tr' addr = Some None \<and> prove_exclusion H tr' addr = Some (Some ex) \<and>
    reactivate H tr' record ex = Some (Ok a, tr'') \<and> tr_root tr'' = tr_root tr"
proof -
  let ?ys = "[TDel addr, TPut addr (account_encode a)]"
  let ?T = "set (run_trees [xs @ ?ys])" and ?t = "fold tree_op xs TEmpty" and ?m = "fold map_op xs Map.empty"
  let ?u = "tree_op (TDel addr) ?t"
  have "list_all op_fits (xs @ ?ys)"
    using assms(2,3) length_account_encode [OF assms(7)] by simp
  note pre = prefix_refines [OF assms(1) this assms(5,8)]
  have r: "refines H ?T tr ?t" "models ?t ?m" using pre by blast+
  have T: "set (op_trees ?t (TDel addr)) \<subseteq> ?T" "set (op_trees ?u (TPut addr (account_encode a))) \<subseteq> ?T"
    using pre by (simp_all del: op_trees.simps)
  obtain p tr' where 1: "expire H tr addr rent_due prepaid =
      Some (Ok \<lparr>er_address = addr, er_encoded = account_encode a, er_inclusion = p, er_root = tr_root tr\<rparr>, tr')"
    "refines H ?T tr' ?u" "pf_value p = Some (account_encode a)" "mpt_verify H addr p (tr_root tr)"
    by (rule expire_run [OF r T(1) assms(4,6,7)])
  have m': "models ?u (map_op (TDel addr) ?m)" by (rule models_op [OF r(2)])
  obtain ex tr'' where 2: "prove_exclusion H tr' addr = Some (Some ex)"
    "reactivate H tr' \<lparr>er_address = addr, er_encoded = account_encode a, er_inclusion = p, er_root = tr_root tr\<rparr> ex =
      Some (Ok a, tr'')" "refines H ?T tr'' (tree_op (TPut addr (account_encode a)) ?u)"
    by (rule reactivate_run [OF 1(2) m' T(2) _ assms(7) 1(3,4)]) simp_all
  have "map_op (TPut addr (account_encode a)) (map_op (TDel addr) ?m) = ?m" using assms(6) by auto
  then have "models (tree_op (TPut addr (account_encode a)) ?u) ?m"
    using models_op [OF m', of "TPut addr (account_encode a)"] by (simp only:)
  then have "tree_op (TPut addr (account_encode a)) ?u = ?t" using models_unique r(2) by blast
  then have "tr_root tr'' = tr_root tr" using 2(3) r(1) unfolding refines_def by simp
  moreover have "account_get tr' addr = Some None" using account_get_run [OF 1(2) m', of addr] by simp
  ultimately show ?thesis using 1(1) 2(1,2) by blast
qed

definition example_address :: Address where
  "example_address = replicate 32 0x41"

definition example_account :: Account where
  "example_account = \<lparr>ac_balance = 7, ac_nonce = 1, ac_code_hash = replicate 32 0\<rparr>"

lemma example_account_facts:
  "wf_account example_account" "length example_address < 2 ^ 31"
  "list_all op_fits [TPut example_address (account_encode example_account)]"
  using length_account_encode [of example_account]
  by (simp_all add: example_account_def wf_account_def example_address_def)

lemma example_expiry_collision_free:
  "collision_free poly32 [[TPut example_address (account_encode example_account)] @
    [TDel example_address, TPut example_address (account_encode example_account)]]"
  "collision_free poly32 [[TPut example_address (account_encode example_account)]]"
  by (rule collision_freeI, code_simp)+

theorem expire_reactivate_restores_witness:
  "\<exists>tr record tr' ex tr''.
    trie_run poly32 (trie_new poly32) [TPut example_address (account_encode example_account)] = Some tr \<and>
    expire poly32 tr example_address 10 3 = Some (Ok record, tr') \<and>
    reactivate poly32 tr' record ex = Some (Ok example_account, tr'') \<and> tr_root tr'' = tr_root tr"
proof -
  let ?xs = "[TPut example_address (account_encode example_account)]"
  have fits: "\<forall>zs\<in>set [?xs]. list_all op_fits zs" using example_account_facts(3) by simp
  obtain tr where tr: "trie_run poly32 (trie_new poly32) ?xs = Some tr"
    using run_refines [OF _ fits example_expiry_collision_free(2), of ?xs] by auto
  have found: "fold map_op ?xs Map.empty example_address = Some (account_encode example_account)" by simp
  show ?thesis
    using expire_reactivate_restores [OF _ example_account_facts(3,2) _ example_expiry_collision_free(1)
        found example_account_facts(1) tr, of 3 10] tr by auto
qed

text \<open>
  C40. Reactivation accepts a record of an account that never existed. For any
  account and any address the live trie does not hold, there is a record, with a
  root of its own making, with which reactivation puts that account into the
  trie: the root in the record is compared with nothing.
\<close>

theorem reactivate_accepts_forged_record:
  assumes "\<forall>b. length (H b) = 32" "list_all op_fits xs" "length addr < 2 ^ 31" "wf_account a"
    and "collision_free H [xs @ [TPut addr (account_encode a)]]" "collision_free H [[TPut addr (account_encode a)]]"
    and "trie_run H (trie_new H) xs = Some tr" "fold map_op xs Map.empty addr = None"
  shows "\<exists>record ex tr'. reactivate H tr record ex = Some (Ok a, tr') \<and> account_get tr' addr = Some (Some a)"
proof -
  let ?x = "TPut addr (account_encode a)"
  have fits: "list_all op_fits [?x]" "list_all op_fits (xs @ [?x])"
    using assms(2,3) length_account_encode [OF assms(4)] by simp_all
  obtain f where f: "refines H (set (run_trees [[?x]])) f (fold tree_op [?x] TEmpty)"
    "models (fold tree_op [?x] TEmpty) (fold map_op [?x] Map.empty)"
    using run_refines [OF assms(1) _ assms(6), of "[?x]"] fits(1) by auto
  obtain p where p: "mpt_prove H f addr = Some (Some p)" "pf_value p = fold map_op [?x] Map.empty addr"
    "mpt_verify H addr p (tr_root f)"
    by (rule mpt_prove_run [OF f])
  have v: "pf_value p = Some (account_encode a)" using p(2) by simp
  note pre = prefix_refines [OF assms(1) fits(2) assms(5,7)]
  have r: "refines H (set (run_trees [xs @ [?x]])) tr (fold tree_op xs TEmpty)"
    "models (fold tree_op xs TEmpty) (fold map_op xs Map.empty)" using pre by blast+
  have T: "set (op_trees (fold tree_op xs TEmpty) ?x) \<subseteq> set (run_trees [xs @ [?x]])" using pre by simp
  obtain ex tr' where "reactivate H tr \<lparr>er_address = addr, er_encoded = account_encode a, er_inclusion = p,
      er_root = tr_root f\<rparr> ex = Some (Ok a, tr')"
    "refines H (set (run_trees [xs @ [?x]])) tr' (tree_op ?x (fold tree_op xs TEmpty))"
    by (rule reactivate_run [OF r T assms(8,4) v p(3)])
  moreover from this have "account_get tr' addr = Some (Some a)"
    using account_get_run [OF _ models_op [OF r(2), of ?x], of H _ tr' addr] assms(4) by simp
  ultimately show ?thesis by blast
qed

theorem reactivate_accepts_forged_record_witness:
  "\<exists>record ex tr'. reactivate poly32 (trie_new poly32) record ex = Some (Ok example_account, tr') \<and>
    account_get tr' example_address = Some (Some example_account)"
  using reactivate_accepts_forged_record [of poly32 "[]" example_address example_account "trie_new poly32"]
    example_account_facts example_expiry_collision_free(2) by simp

end
