(* ===== verification/Exec_Base.thy ===== *)
theory Exec_Base
  imports State_Accounts
begin

text \<open>
  Admission checks, gas, fees, events and receipts of \<open>crates/execution\<close>
  (\<open>checks.rs\<close>, \<open>gas.rs\<close>, \<open>fees.rs\<close>, \<open>events.rs\<close>, \<open>receipt.rs\<close>). The lemmas show that
  the balance check covers exactly what a transaction spends, that the base fee
  stays near its last value and above its floor, and that the encoding of a
  receipt determines it.
\<close>

section \<open>Gas (gas.rs)\<close>

datatype GasError = LimitExceedsBlock | LimitTooLow

definition gas_meter :: "Tx \<Rightarrow> (u64, GasError) result" where
  "gas_meter tx =
    (if tx_gas_limit tx > MAX_GAS then Err LimitExceedsBlock
     else let cost = (case tx_payload tx of
                        TransferP _ \<Rightarrow> GAS_TRANSFER
                      | StakeP _ \<Rightarrow> GAS_TRANSFER
                      | DeployP _ \<Rightarrow> GAS_DEPLOY
                      | CallP _ \<Rightarrow> GAS_CALL)
          in if tx_gas_limit tx < cost then Err LimitTooLow else Ok cost)"

section \<open>Admission checks (checks.rs)\<close>

datatype CheckError = CheckWrongNonce | CheckInsufficientBalance

definition nonce_check :: "Tx \<Rightarrow> Account \<Rightarrow> (unit, CheckError) result" where
  "nonce_check tx account =
    (if ac_nonce account = tx_nonce tx then Ok () else Err CheckWrongNonce)"

definition value_balance_check :: "Tx \<Rightarrow> Amount \<Rightarrow> Account \<Rightarrow> (unit, CheckError) result" where
  "value_balance_check tx amount account =
    and_then (ok_or CheckInsufficientBalance (checked_add amount (tx_max_fee tx))) (\<lambda>need.
      if checked_sub (ac_balance account) need \<noteq> None then Ok () else Err CheckInsufficientBalance)"

definition balance_check :: "Tx \<Rightarrow> Transfer \<Rightarrow> Account \<Rightarrow> (unit, CheckError) result" where
  "balance_check tx transfer account = value_balance_check tx (tr_amount transfer) account"

section \<open>Fees (fees.rs)\<close>

definition fee_priority :: "Tx \<Rightarrow> (u128, GasError) result" where
  "fee_priority tx =
    and_then (gas_meter tx) (\<lambda>gas.
      let g = (ucast (max gas 1) :: u128)
      in Ok (saturating_mul (tx_max_fee tx) (push_bit 64 1) div g))"

definition next_base_fee :: "u128 \<Rightarrow> u64 \<Rightarrow> u64 \<Rightarrow> bool \<Rightarrow> u128 \<Rightarrow> u128" where
  "next_base_fee current_base gas_used max_gas enabled min_floor =
    (if \<not> enabled then min_floor
     else
       let cap = max max_gas 1;
           used = min gas_used cap;
           target = cap div 2;
           nxt = max current_base min_floor
       in if used > target then
            let delta = saturating_mul nxt (ucast (used - target)) div ucast (max target 1) div 8
            in saturating_add nxt (max delta 1)
          else if used < target then
            let delta = saturating_mul nxt (ucast (target - used)) div ucast (max target 1) div 8
            in max (saturating_sub nxt delta) min_floor
          else nxt)"

section \<open>Events and receipts (events.rs, receipt.rs)\<close>

datatype Event =
    TransferEvent Address Address Amount
  | StakeEvent Address Amount
  | WasmEvent Address Address

datatype RejectReason =
    RSignature | RWrongNonce | RInsufficientBalance | RGas
  | RStakeMinBond | RStakeTombstone | RStakeUnbonding | RStakeInsufficient
  | RWasmInvalid | RWasmGas | RWasmReentrancy | RWasmNoCode

record Receipt =
  rc_success :: bool
  rc_gas_used :: u64
  rc_events :: "Event list"
  rc_reason :: "RejectReason option"

fun reason_byte :: "RejectReason option \<Rightarrow> u8" where
  "reason_byte None = 0"
| "reason_byte (Some RWrongNonce) = 1"
| "reason_byte (Some RInsufficientBalance) = 2"
| "reason_byte (Some RGas) = 3"
| "reason_byte (Some RSignature) = 4"
| "reason_byte (Some RStakeMinBond) = 5"
| "reason_byte (Some RStakeTombstone) = 6"
| "reason_byte (Some RStakeUnbonding) = 7"
| "reason_byte (Some RStakeInsufficient) = 8"
| "reason_byte (Some RWasmInvalid) = 9"
| "reason_byte (Some RWasmGas) = 10"
| "reason_byte (Some RWasmReentrancy) = 11"
| "reason_byte (Some RWasmNoCode) = 12"

fun event_bytes :: "Event \<Rightarrow> bytes" where
  "event_bytes (TransferEvent from to amount) = [0] @ from @ to @ u128_be amount"
| "event_bytes (StakeEvent from amount) = [1] @ from @ u128_be amount"
| "event_bytes (WasmEvent from contract) = [2] @ from @ contract"

definition receipt_encode :: "Receipt \<Rightarrow> bytes" where
  "receipt_encode r =
    canonical_encode ([if rc_success r then 1 else 0] @ u64_be (rc_gas_used r) @ [reason_byte (rc_reason r)] @
      u32_be (of_nat (length (rc_events r))) @ concat (map event_bytes (rc_events r)))"

fun reason_of_check :: "CheckError \<Rightarrow> RejectReason" where
  "reason_of_check CheckWrongNonce = RWrongNonce"
| "reason_of_check CheckInsufficientBalance = RInsufficientBalance"

definition reason_of_gas :: "GasError \<Rightarrow> RejectReason" where
  "reason_of_gas e = RGas"

section \<open>The balance check covers what is spent\<close>

lemma gas_meter_Ok:
  "gas_meter tx = Ok g \<Longrightarrow> g \<le> tx_gas_limit tx \<and> tx_gas_limit tx \<le> MAX_GAS \<and> g > 0"
  by (auto simp: gas_meter_def Let_def GAS_TRANSFER_def GAS_DEPLOY_def GAS_CALL_def
      split: TxPayload.splits if_splits)

lemma value_balance_check_Ok:
  assumes "value_balance_check tx amount account = Ok ()"
  obtains need left where "checked_add amount (tx_max_fee tx) = Some need"
    "checked_sub (ac_balance account) need = Some left"
    "unat left + unat amount + unat (tx_max_fee tx) = unat (ac_balance account)"
proof -
  obtain need where n: "checked_add amount (tx_max_fee tx) = Some need" "checked_sub (ac_balance account) need \<noteq> None"
    using assms by (auto simp: value_balance_check_def ok_or_def result_simps split: option.splits if_splits)
  then obtain left where l: "checked_sub (ac_balance account) need = Some left" by blast
  show thesis
    using that [OF n(1) l] checked_add_SomeD [OF n(1)] checked_sub_SomeD [OF l] by simp
qed

lemma value_balance_check_iff:
  "value_balance_check tx amount account = Ok () \<longleftrightarrow>
    unat amount + unat (tx_max_fee tx) \<le> unat (ac_balance account)"
proof
  assume "value_balance_check tx amount account = Ok ()"
  then show "unat amount + unat (tx_max_fee tx) \<le> unat (ac_balance account)"
    by (rule value_balance_check_Ok) simp
next
  assume le: "unat amount + unat (tx_max_fee tx) \<le> unat (ac_balance account)"
  then have "unat amount + unat (tx_max_fee tx) < 2 ^ 128" using unat_lt_pow [of "ac_balance account"] by simp
  then obtain need where need: "checked_add amount (tx_max_fee tx) = Some need"
    using checked_add_None_iff [of amount "tx_max_fee tx"] by (cases "checked_add amount (tx_max_fee tx)") auto
  then have "checked_sub (ac_balance account) need \<noteq> None"
    using le checked_add_SomeD [OF need] by (simp add: checked_sub_None_iff)
  then show "value_balance_check tx amount account = Ok ()"
    using need by (simp add: value_balance_check_def ok_or_def)
qed

section \<open>Fees\<close>

lemma unat_ucast_64_128: "unat (ucast (x :: u64) :: u128) = unat x"
  using unat_lt_pow [of x] by (simp add: unsigned_ucast_eq take_bit_nat_eq_self)

lemma unat_two_64: "unat (push_bit 64 1 :: u128) = 2 ^ 64"
  by (simp add: push_bit_eq_mult)

lemma unat_max: "unat (max a b) = max (unat a) (unat (b :: 'a::len word))"
  by (auto simp: max_def word_le_nat_alt)

lemma unat_min: "unat (min a b) = min (unat a) (unat (b :: 'a::len word))"
  by (auto simp: min_def word_le_nat_alt)

lemma fee_priority_Ok:
  assumes "fee_priority tx = Ok p"
  obtains g where "gas_meter tx = Ok g" "unat p = min (unat (tx_max_fee tx) * 2 ^ 64) (2 ^ 128 - 1) div unat g"
proof -
  obtain g where g: "gas_meter tx = Ok g"
    "p = saturating_mul (tx_max_fee tx) (push_bit 64 1) div ucast (max g 1)"
    using assms by (auto simp: fee_priority_def result_simps Let_def)
  have "unat g > 0" using gas_meter_Ok [OF g(1)] by (simp add: word_less_nat_alt)
  then have "max g 1 = g" by (simp add: max_def word_le_nat_alt word_unat_eq_iff)
  then have "unat p = min (unat (tx_max_fee tx) * 2 ^ 64) (2 ^ 128 - 1) div unat g"
    unfolding g(2) unat_div by (simp add: unat_ucast_64_128 unat_saturating_mul unat_two_64 del: push_bit_of_1)
  then show thesis using that g(1) by blast
qed

lemma scaled_div_less_iff:
  fixes a b g k M :: nat
  assumes "0 < g" "0 < k" "g * k \<le> M"
  shows "a * M div g < b * M div k \<longleftrightarrow> a * k < b * g"
proof
  assume "a * k < b * g"
  then have "a * k + 1 \<le> b * g" by simp
  have "(a * M div g * k + k) * g = a * M div g * g * k + g * k" by (simp add: algebra_simps)
  also have "\<dots> \<le> a * M * k + M" using assms(3) by (intro add_mono mult_right_mono) simp_all
  also have "\<dots> = (a * k + 1) * M" by (simp add: algebra_simps)
  also have "\<dots> \<le> b * g * M" using \<open>a * k + 1 \<le> b * g\<close> by (rule mult_right_mono) simp
  also have "\<dots> = b * M * g" by (simp add: algebra_simps)
  finally have "a * M div g * k + k \<le> b * M" using assms(1) by (simp only: mult_le_cancel2)
  then have "(a * M div g + 1) * k \<le> b * M" by simp
  then have "a * M div g + 1 \<le> b * M div k" using assms(2) by (simp add: less_eq_div_iff_mult_less_eq)
  then show "a * M div g < b * M div k" by simp
next
  assume less: "a * M div g < b * M div k"
  show "a * k < b * g"
  proof (rule ccontr)
    assume "\<not> a * k < b * g"
    have "b * M div k * g * k = b * M div k * k * g" by (simp add: algebra_simps)
    also have "\<dots> \<le> b * M * g" by (rule mult_right_mono) simp_all
    also have "\<dots> = b * g * M" by (simp add: algebra_simps)
    also have "\<dots> \<le> a * k * M" using \<open>\<not> a * k < b * g\<close> by (intro mult_right_mono) simp_all
    also have "\<dots> = a * M * k" by (simp add: algebra_simps)
    finally have "b * M div k * g \<le> a * M" using assms(2) by (simp only: mult_le_cancel2)
    then show False using less assms(1) by (simp add: less_eq_div_iff_mult_less_eq leD)
  qed
qed

text \<open>
  What the priority of a transaction measures. For fees below \<open>2 ^ 64\<close> a
  transaction has a lower priority than another exactly when it pays less per unit
  of its intrinsic gas cost, rounding included; the gas limit plays no part in it.
  From \<open>2 ^ 64\<close> on the fee plays no part either: the priority depends on the gas
  cost alone.
\<close>

theorem fee_priority_order:
  assumes "fee_priority t = Ok p" "fee_priority u = Ok q" "gas_meter t = Ok g" "gas_meter u = Ok k"
  shows "(unat (tx_max_fee t) < 2 ^ 64 \<and> unat (tx_max_fee u) < 2 ^ 64 \<longrightarrow>
      (p < q \<longleftrightarrow> unat (tx_max_fee t) * unat k < unat (tx_max_fee u) * unat g)) \<and>
    (2 ^ 64 \<le> unat (tx_max_fee t) \<longrightarrow> unat p = (2 ^ 128 - 1) div unat g)"
proof -
  have p: "unat p = min (unat (tx_max_fee t) * 2 ^ 64) (2 ^ 128 - 1) div unat g"
    using fee_priority_Ok [OF assms(1)] assms(3) by auto
  have q: "unat q = min (unat (tx_max_fee u) * 2 ^ 64) (2 ^ 128 - 1) div unat k"
    using fee_priority_Ok [OF assms(2)] assms(4) by auto
  have gas: "0 < unat x \<and> unat x \<le> 50000" if "gas_meter tx = Ok x" for tx x
    using that by (auto simp: gas_meter_def Let_def GAS_TRANSFER_def GAS_DEPLOY_def GAS_CALL_def split: TxPayload.splits if_splits)
  have "unat g * unat k \<le> 50000 * 50000" using gas [OF assms(3)] gas [OF assms(4)] by (intro mult_mono) simp_all
  then have small: "unat g * unat k \<le> 2 ^ 64" by simp
  have cap: "min (x * 2 ^ 64) (2 ^ 128 - 1) = x * 2 ^ 64" if "x < 2 ^ 64" for x :: nat
  proof -
    have "x * 2 ^ 64 \<le> (2 ^ 64 - 1) * 2 ^ 64" using that by (intro mult_right_mono) simp_all
    then show ?thesis by simp
  qed
  have "p < q \<longleftrightarrow> unat (tx_max_fee t) * unat k < unat (tx_max_fee u) * unat g"
    if "unat (tx_max_fee t) < 2 ^ 64" "unat (tx_max_fee u) < 2 ^ 64"
    unfolding word_less_nat_alt p q cap [OF that(1)] cap [OF that(2)]
    using scaled_div_less_iff [OF _ _ small] gas [OF assms(3)] gas [OF assms(4)] by blast
  moreover have "unat p = (2 ^ 128 - 1) div unat g" if "2 ^ 64 \<le> unat (tx_max_fee t)"
  proof -
    have "(2 :: nat) ^ 64 * 2 ^ 64 \<le> unat (tx_max_fee t) * 2 ^ 64" using that by (rule mult_right_mono) simp
    then show ?thesis unfolding p by simp
  qed
  ultimately show ?thesis by blast
qed

theorem fee_priority_order_witness:
  "\<exists>p q. fee_priority (tx_transfer 1 0 30000 30000 [] 5) = Ok p \<and> fee_priority (tx_deploy 1 0 60000 60000 []) = Ok q \<and> q < p"
proof -
  let ?t = "tx_deploy 1 0 60000 60000 []" and ?u = "tx_transfer 1 0 30000 30000 [] 5"
  have g: "gas_meter ?t = Ok 50000" "gas_meter ?u = Ok 21000" by code_simp+
  have fee: "tx_max_fee ?t = 60000" "tx_max_fee ?u = 30000" by code_simp+
  obtain p q where pq: "fee_priority ?t = Ok p" "fee_priority ?u = Ok q" by (simp add: fee_priority_def Let_def g)
  have "p < q" using fee_priority_order [OF pq g] by (simp add: fee)
  then show ?thesis using pq by blast
qed

lemma next_base_fee_up:
  assumes "used > target" "used \<le> cap" "target = cap div 2" "(cap :: nat) \<ge> 1"
  shows "n * (used - target) div max target 1 div 8 \<le> n div 4"
proof -
  have "used - target \<le> 2 * max target 1" using assms by (auto simp: max_def)
  then have "n * (used - target) \<le> n * 2 * max target 1" by (simp add: mult.assoc)
  then have "n * (used - target) div max target 1 \<le> n * 2 * max target 1 div max target 1" by (rule div_le_mono)
  also have "\<dots> = n * 2" by simp
  finally have "n * (used - target) div max target 1 div 8 \<le> n * 2 div 8" by (rule div_le_mono)
  then show ?thesis by simp
qed

lemma next_base_fee_down:
  assumes "used < target"
  shows "n * (target - used) div max target 1 div 8 \<le> n div (8 :: nat)"
proof -
  have "n * (target - used) \<le> n * max target 1" by (auto simp: max_def)
  then have "n * (target - used) div max target 1 \<le> n * max target 1 div max target 1" by (rule div_le_mono)
  then show ?thesis by (intro div_le_mono) simp
qed

definition base_delta :: "u128 \<Rightarrow> u64 \<Rightarrow> u64 \<Rightarrow> u128" where
  "base_delta n diff target = saturating_mul n (ucast diff) div ucast (max target 1) div 8"

lemma unat_base_delta: "unat (base_delta n diff target) \<le> unat n * unat diff div max (unat target) 1 div 8"
proof -
  have "unat (base_delta n diff target) = min (unat n * unat diff) (2 ^ 128 - 1) div max (unat target) 1 div 8"
    unfolding base_delta_def unat_div unat_saturating_mul unat_ucast_64_128 unat_max by simp
  also have "\<dots> \<le> unat n * unat diff div max (unat target) 1 div 8" by (intro div_le_mono) simp
  finally show ?thesis .
qed

lemma next_base_fee_on:
  fixes current_base min_floor :: u128 and max_gas gas_used :: u64
  defines "cap \<equiv> max max_gas 1"
  defines "used \<equiv> min gas_used cap" and "target \<equiv> cap div 2" and "n \<equiv> max current_base min_floor"
  shows "next_base_fee current_base gas_used max_gas True min_floor =
    (if used > target then saturating_add n (max (base_delta n (used - target) target) 1)
     else if used < target then max (saturating_sub n (base_delta n (target - used) target)) min_floor
     else n)"
  by (simp add: next_base_fee_def Let_def cap_def used_def target_def n_def base_delta_def)

lemma raised_fee:
  fixes n :: u128
  assumes "used > target" "unat used \<le> unat cap" "unat target = unat cap div 2" "unat (cap :: u64) \<ge> 1"
  shows "unat n \<le> unat (saturating_add n (max (base_delta n (used - target) target) 1)) \<and>
    unat (saturating_add n (max (base_delta n (used - target) target) 1)) \<le> unat n + max (unat n div 4) 1"
proof -
  have "unat (base_delta n (used - target) target) \<le> unat n * (unat used - unat target) div max (unat target) 1 div 8"
    using unat_base_delta [of n "used - target" target] assms(1) by (simp add: unat_sub order_less_imp_le)
  also have "\<dots> \<le> unat n div 4"
    using assms by (intro next_base_fee_up [where cap = "unat cap"]) (simp_all add: word_less_nat_alt)
  finally have d: "max (unat (base_delta n (used - target) target)) 1 \<le> max (unat n div 4) 1" by simp
  have "unat n \<le> 2 ^ 128 - 1" using unat_lt_pow [of n] by simp
  then show ?thesis using d by (simp add: unat_saturating_add unat_max)
qed

lemma lowered_fee:
  fixes n :: u128
  assumes "used < target" "unat min_floor \<le> unat n"
  shows "unat n - unat n div 8 \<le> unat (max (saturating_sub n (base_delta n (target - used) target)) min_floor) \<and>
    unat min_floor \<le> unat (max (saturating_sub n (base_delta n (target - used) target)) min_floor) \<and>
    unat (max (saturating_sub n (base_delta n (target - used) target)) min_floor) \<le> unat n"
proof -
  have "unat (base_delta n (target - used) target) \<le> unat n * (unat target - unat used) div max (unat target) 1 div 8"
    using unat_base_delta [of n "target - used" target] assms(1) by (simp add: unat_sub order_less_imp_le)
  also have "\<dots> \<le> unat n div 8"
    using assms(1) by (intro next_base_fee_down) (simp add: word_less_nat_alt)
  finally show ?thesis using assms(2) by (auto simp: unat_saturating_sub unat_max)
qed

text \<open>
  The base fee moves slowly and never below its floor. Switched off it is the
  floor. Switched on it is at least the floor, and from the last fee, or the floor
  if that is higher, it rises by at most a quarter, or by one, and falls by at
  most an eighth. At half of the gas limit it stays.
\<close>

theorem next_base_fee_bounds:
  fixes current_base min_floor :: u128
  defines "base \<equiv> max (unat current_base) (unat min_floor)"
  shows "next_base_fee current_base gas_used max_gas False min_floor = min_floor \<and>
    unat min_floor \<le> unat (next_base_fee current_base gas_used max_gas True min_floor) \<and>
    unat (next_base_fee current_base gas_used max_gas True min_floor) \<le> base + max (base div 4) 1 \<and>
    base - base div 8 \<le> unat (next_base_fee current_base gas_used max_gas True min_floor) \<and>
    (min gas_used (max max_gas 1) = max max_gas 1 div 2 \<longrightarrow>
      unat (next_base_fee current_base gas_used max_gas True min_floor) = base)"
proof -
  define cap where "cap = max max_gas 1"
  define used where "used = min gas_used cap"
  define target where "target = cap div 2"
  define n where "n = max current_base min_floor"
  define r where "r = next_base_fee current_base gas_used max_gas True min_floor"
  note on = next_base_fee_on [of current_base gas_used max_gas min_floor,
      folded cap_def, folded used_def target_def n_def, folded r_def]
  have un: "unat n = base" by (simp add: n_def base_def unat_max)
  have ucap: "unat used \<le> unat cap" "unat target = unat cap div 2" "unat cap \<ge> 1"
    by (simp_all add: cap_def used_def target_def unat_max unat_min unat_div)
  have floor: "unat min_floor \<le> unat n" by (simp add: un base_def)
  have "unat min_floor \<le> unat r \<and> unat r \<le> unat n + max (unat n div 4) 1 \<and> unat n - unat n div 8 \<le> unat r \<and>
      (used = target \<longrightarrow> unat r = unat n)"
  proof (cases "used > target")
    case True
    then show ?thesis using raised_fee [OF True ucap, of n] floor on by auto
  next
    case False
    then show ?thesis using lowered_fee [of used target min_floor n] floor on by (cases "used < target") auto
  qed
  moreover have "next_base_fee current_base gas_used max_gas False min_floor = min_floor"
    by (simp add: next_base_fee_def)
  ultimately show ?thesis
    unfolding un r_def used_def target_def cap_def by blast
qed

theorem next_base_fee_bounds_witness: "unat (next_base_fee 800 15 30 True 100) = 800"
proof -
  have "min (15 :: u64) (max 30 1) = max 30 1 div 2" by code_simp
  then show ?thesis using next_base_fee_bounds [of 800 15 30 100] by simp
qed

section \<open>Receipts\<close>

fun wf_event :: "Event \<Rightarrow> bool" where
  "wf_event (TransferEvent from to amount) = (length from = 32 \<and> length to = 32)"
| "wf_event (StakeEvent from amount) = (length from = 32)"
| "wf_event (WasmEvent from contract) = (length from = 32 \<and> length contract = 32)"

definition wf_receipt :: "Receipt \<Rightarrow> bool" where
  "wf_receipt r = (list_all wf_event (rc_events r) \<and> length (receipt_encode r) < 2 ^ 32)"

lemma u128_be_inject: "u128_be a = u128_be b \<longleftrightarrow> a = b"
  by (metis u_from_be_be(3))

lemma event_bytes_prefix:
  assumes "wf_event e" "wf_event e'" "event_bytes e @ r = event_bytes e' @ r'"
  shows "e = e' \<and> r = r'"
  using assms by (cases e; cases e') (auto simp: u128_be_inject)

lemma events_bytes_inject:
  "list_all wf_event es \<Longrightarrow> list_all wf_event es' \<Longrightarrow> length es = length es' \<Longrightarrow>
    concat (map event_bytes es) = concat (map event_bytes es') \<Longrightarrow> es = es'"
proof (induction es arbitrary: es')
  case (Cons e es)
  then obtain e' es'' where es': "es' = e' # es''" by (cases es') auto
  then have "e = e' \<and> concat (map event_bytes es) = concat (map event_bytes es'')"
    using Cons.prems by (intro event_bytes_prefix) auto
  then show ?case using Cons es' by simp
qed simp

lemma length_event_bytes: "length (event_bytes e) > 0"
  by (cases e) auto

lemma length_events_bytes: "length es \<le> length (concat (map event_bytes es))"
proof (induction es)
  case (Cons e es)
  then show ?case using length_event_bytes [of e] by (simp del: length_greater_0_conv)
qed simp

lemma reason_byte_inject: "reason_byte a = reason_byte b \<longleftrightarrow> a = b"
  by (cases a rule: reason_byte.cases; cases b rule: reason_byte.cases) simp_all

definition receipt_body :: "Receipt \<Rightarrow> bytes" where
  "receipt_body r = [if rc_success r then 1 else 0] @ u64_be (rc_gas_used r) @ [reason_byte (rc_reason r)] @
      u32_be (of_nat (length (rc_events r))) @ concat (map event_bytes (rc_events r))"

lemma receipt_encode_body: "receipt_encode r = canonical_encode (receipt_body r)"
  by (simp add: receipt_encode_def receipt_body_def)

text \<open>
  The encoding of a receipt determines the receipt: two receipts with equal
  bytes agree on success, gas, reason and every event.
\<close>

theorem receipt_encode_inject:
  assumes "wf_receipt r" "wf_receipt q"
  shows "receipt_encode r = receipt_encode q \<longleftrightarrow> r = q"
proof
  assume eq: "receipt_encode r = receipt_encode q"
  have len: "length (rc_events x) < 2 ^ 32" if "wf_receipt x" for x
    using that length_events_bytes [of "rc_events x"]
    by (auto simp: wf_receipt_def receipt_encode_def length_canonical_encode)
  have "length (receipt_body r) < 2 ^ 32" "length (receipt_body q) < 2 ^ 32"
    using assms by (simp_all add: receipt_encode_body wf_receipt_def length_canonical_encode)
  then have "receipt_body r = receipt_body q"
    using eq frame.enc_inject [of "receipt_body r" "receipt_body q"] by (simp add: receipt_encode_body)
  then have parts: "rc_success r = rc_success q" "rc_gas_used r = rc_gas_used q" "rc_reason r = rc_reason q"
    "u32_be (of_nat (length (rc_events r))) = u32_be (of_nat (length (rc_events q)))"
    "concat (map event_bytes (rc_events r)) = concat (map event_bytes (rc_events q))"
    by (auto simp: receipt_body_def reason_byte_inject split: if_splits dest: arg_cong [of _ _ u64_from_be])
  have "length (rc_events r) = length (rc_events q)"
    using arg_cong [OF parts(4), of "\<lambda>b. unat (u32_from_be b)"] len [OF assms(1)] len [OF assms(2)]
    by (simp add: unat_u32_of_nat)
  then have "rc_events r = rc_events q"
    using parts(5) assms by (intro events_bytes_inject) (auto simp: wf_receipt_def)
  then show "r = q" using parts by simp
qed simp

definition example_receipt :: "u64 \<Rightarrow> Receipt" where
  "example_receipt g = \<lparr>rc_success = True, rc_gas_used = g,
    rc_events = [TransferEvent (replicate 32 1) (replicate 32 2) 5], rc_reason = None\<rparr>"

theorem receipt_encode_inject_witness: "receipt_encode (example_receipt 1) \<noteq> receipt_encode (example_receipt 2)"
proof -
  have "wf_receipt (example_receipt g)" for g
    by (simp add: wf_receipt_def receipt_encode_def example_receipt_def length_canonical_encode)
  then show ?thesis
    using receipt_encode_inject [of "example_receipt 1" "example_receipt 2"] by (simp add: example_receipt_def)
qed

end
