(* ===== verification/Exec_Staking.thy ===== *)
theory Exec_Staking
  imports Exec_Base Consensus_Wal
begin

text \<open>
  The staking ledger and slashing (\<open>staking.rs\<close>, \<open>slash.rs\<close> of \<open>crates/execution\<close>).
  The lemmas show how each operation moves the tokens the ledger holds, that
  unbonding tokens stay until their height, which validators the next set has,
  and what slashing takes.
\<close>

section \<open>The staking ledger (staking.rs)\<close>

record UnbondEntry =
  ub_owner :: Address
  ub_validator :: ValidatorId
  ub_amount :: Amount
  ub_unlock_height :: Height
  ub_unlock_epoch :: Epoch

record StakingState =
  sk_self_bond :: "(ValidatorId, Amount) btree"
  sk_operator :: "(ValidatorId, Address) btree"
  sk_delegations :: "(Address \<times> ValidatorId, Amount) btree"
  sk_pending_unbond :: "(u64, UnbondEntry) btree"
  sk_next_unbond :: u64
  sk_tombstones :: "ValidatorId set"
  sk_current_set :: "(ValidatorId, VotingPower) btree"
  sk_last_commit_height :: Height
  sk_last_commit_hash :: Hash

definition staking_default :: StakingState where
  "staking_default =
    \<lparr>sk_self_bond = [], sk_operator = [], sk_delegations = [], sk_pending_unbond = [], sk_next_unbond = 0,
     sk_tombstones = {}, sk_current_set = [], sk_last_commit_height = GENESIS_HEIGHT,
     sk_last_commit_hash = HASH_ZERO\<rparr>"

definition min_self_bond_amount :: "ParamsRegistry \<Rightarrow> Amount" where
  "min_self_bond_amount registry = ucast (unwrap_or MIN_SELF_BOND (params_get registry MinSelfBond))"

definition check_min_self_bond :: "Amount \<Rightarrow> ParamsRegistry \<Rightarrow> (unit, RejectReason) result" where
  "check_min_self_bond amount registry =
    (if amount < min_self_bond_amount registry then Err RStakeMinBond else Ok ())"

definition delegation_cap :: "ParamsRegistry \<Rightarrow> u64" where
  "delegation_cap registry = unwrap_or DELEGATION_CAP (params_get registry DelegationCap)"

definition amount_power :: "Amount \<Rightarrow> u64" where
  "amount_power a = ucast (min a (ucast (- 1 :: u64)))"

definition add_or_keep :: "Amount \<Rightarrow> Amount \<Rightarrow> Amount" where
  "add_or_keep acc a = unwrap_or acc (checked_add acc a)"

definition delegated_to :: "StakingState \<Rightarrow> ValidatorId \<Rightarrow> Amount" where
  "delegated_to book i =
    foldl (\<lambda>acc (_, a). add_or_keep acc a) 0 (filter (\<lambda>((_, v), _). v = i) (sk_delegations book))"

definition effective_power :: "StakingState \<Rightarrow> ValidatorId \<Rightarrow> ParamsRegistry \<Rightarrow> VotingPower" where
  "effective_power book i registry =
    (let self_p = amount_power (unwrap_or 0 (bt_get (sk_self_bond book) i));
         del_p = amount_power (delegated_to book i);
         capped_del = min del_p (delegation_cap registry)
     in saturating_add self_p capped_del)"

definition unbonding_unlock :: "Height \<Rightarrow> ParamsRegistry \<Rightarrow> Height \<times> Epoch" where
  "unbonding_unlock last_commit registry =
    (let period = unwrap_or UNBONDING_PERIOD (params_get registry UnbondingPeriod);
         epoch_len = unwrap_or EPOCH_LENGTH (params_get registry EpochLength);
         unlock = saturating_add last_commit period
     in (unlock, if epoch_len = 0 then 0 else unlock div epoch_len))"

definition matured_withdrawable :: "StakingState \<Rightarrow> Address \<Rightarrow> Amount" where
  "matured_withdrawable book owner =
    foldl (\<lambda>acc (_, e). add_or_keep acc (ub_amount e)) 0
      (filter (\<lambda>(_, e). ub_owner e = owner \<and> ub_unlock_height e \<le> sk_last_commit_height book) (sk_pending_unbond book))"

definition stake_bond_op ::
  "StakingState \<Rightarrow> ParamsRegistry \<Rightarrow> Address \<Rightarrow> StakePayload \<Rightarrow> (unit, RejectReason) result \<times> StakingState" where
  "stake_bond_op book registry sender s =
    (case sp_validator s of
       None \<Rightarrow> (Err RGas, book)
     | Some i \<Rightarrow>
         if i \<in> sk_tombstones book then (Err RStakeTombstone, book)
         else (case check_min_self_bond (sp_amount s) registry of
             Err e \<Rightarrow> (Err e, book)
           | Ok _ \<Rightarrow>
               let checked_op = (case bt_get (sk_operator book) i of
                      Some op \<Rightarrow> if op \<noteq> sender then Err RStakeInsufficient else Ok book
                    | None \<Rightarrow> Ok (book\<lparr>sk_operator := bt_insert i sender (sk_operator book)\<rparr>))
               in (case checked_op of
                     Err e \<Rightarrow> (Err e, book)
                   | Ok book \<Rightarrow>
                       let cur = unwrap_or 0 (bt_get (sk_self_bond book) i)
                       in (case checked_add cur (sp_amount s) of
                             None \<Rightarrow> (Err RStakeInsufficient, book)
                           | Some nxt \<Rightarrow> (Ok (), book\<lparr>sk_self_bond := bt_insert i nxt (sk_self_bond book)\<rparr>)))))"

definition stake_unbond_op ::
  "StakingState \<Rightarrow> ParamsRegistry \<Rightarrow> Address \<Rightarrow> StakePayload \<Rightarrow> (unit, RejectReason) result \<times> StakingState" where
  "stake_unbond_op book registry sender s =
    (case sp_validator s of
       None \<Rightarrow> (Err RGas, book)
     | Some i \<Rightarrow>
         if bt_get (sk_operator book) i \<noteq> Some sender then (Err RStakeInsufficient, book)
         else (case checked_sub (unwrap_or 0 (bt_get (sk_self_bond book) i)) (sp_amount s) of
             None \<Rightarrow> (Err RStakeInsufficient, book)
           | Some nxt \<Rightarrow>
               if nxt \<noteq> 0 \<and> nxt < min_self_bond_amount registry then (Err RStakeMinBond, book)
               else
                 let (unlock_height, unlock_epoch) = unbonding_unlock (sk_last_commit_height book) registry;
                     seq = sk_next_unbond book
                 in (Ok (), book\<lparr>sk_self_bond := bt_insert i nxt (sk_self_bond book),
                       sk_next_unbond := saturating_add (sk_next_unbond book) 1,
                       sk_pending_unbond := bt_insert seq
                         \<lparr>ub_owner = sender, ub_validator = i, ub_amount = sp_amount s,
                          ub_unlock_height = unlock_height, ub_unlock_epoch = unlock_epoch\<rparr>
                         (sk_pending_unbond book)\<rparr>)))"

definition stake_delegate_op ::
  "StakingState \<Rightarrow> Address \<Rightarrow> StakePayload \<Rightarrow> (unit, RejectReason) result \<times> StakingState" where
  "stake_delegate_op book sender s =
    (case sp_validator s of
       None \<Rightarrow> (Err RGas, book)
     | Some i \<Rightarrow>
         if i \<in> sk_tombstones book then (Err RStakeTombstone, book)
         else (case checked_add (unwrap_or 0 (bt_get (sk_delegations book) (sender, i))) (sp_amount s) of
             None \<Rightarrow> (Err RStakeInsufficient, book)
           | Some nxt \<Rightarrow> (Ok (), book\<lparr>sk_delegations := bt_insert (sender, i) nxt (sk_delegations book)\<rparr>)))"

definition stake_undelegate_op ::
  "StakingState \<Rightarrow> Address \<Rightarrow> StakePayload \<Rightarrow> (unit, RejectReason) result \<times> StakingState" where
  "stake_undelegate_op book sender s =
    (case sp_validator s of
       None \<Rightarrow> (Err RGas, book)
     | Some i \<Rightarrow>
         (case checked_sub (unwrap_or 0 (bt_get (sk_delegations book) (sender, i))) (sp_amount s) of
            None \<Rightarrow> (Err RStakeInsufficient, book)
          | Some nxt \<Rightarrow>
              (Ok (), book\<lparr>sk_delegations :=
                 (if nxt = 0 then bt_remove (sender, i) (sk_delegations book)
                  else bt_insert (sender, i) nxt (sk_delegations book))\<rparr>)))"

text \<open>The loop over the keys of the pending entries; the two subtractions cannot underflow.\<close>

fun withdraw_loop :: "Address \<Rightarrow> u64 list \<Rightarrow> Amount \<Rightarrow> StakingState \<Rightarrow> StakingState" where
  "withdraw_loop sender [] left book = book"
| "withdraw_loop sender (k # ks) left book =
    (if left = 0 then book
     else (case bt_get (sk_pending_unbond book) k of
         None \<Rightarrow> withdraw_loop sender ks left book
       | Some e \<Rightarrow>
           if ub_owner e \<noteq> sender \<or> ub_unlock_height e > sk_last_commit_height book
           then withdraw_loop sender ks left book
           else if ub_amount e \<le> left then
             withdraw_loop sender ks (left - ub_amount e)
               (book\<lparr>sk_pending_unbond := bt_remove k (sk_pending_unbond book)\<rparr>)
           else
             withdraw_loop sender ks 0
               (book\<lparr>sk_pending_unbond := bt_insert k (e\<lparr>ub_amount := ub_amount e - left\<rparr>) (sk_pending_unbond book)\<rparr>)))"

definition stake_withdraw_op ::
  "StakingState \<Rightarrow> Address \<Rightarrow> StakePayload \<Rightarrow> (unit, RejectReason) result \<times> StakingState" where
  "stake_withdraw_op book sender s =
    (let avail = matured_withdrawable book sender in
     if sp_amount s > avail then
       (if list_ex (\<lambda>(_, e). ub_owner e = sender) (sk_pending_unbond book) \<and> avail < sp_amount s
        then (Err RStakeUnbonding, book) else (Err RStakeInsufficient, book))
     else (Ok (), withdraw_loop sender (bt_keys (sk_pending_unbond book)) (sp_amount s) book))"

definition apply_stake_tx ::
  "StakingState \<Rightarrow> ParamsRegistry \<Rightarrow> Address \<Rightarrow> Tx \<Rightarrow> (unit, RejectReason) result \<times> StakingState" where
  "apply_stake_tx book registry sender tx =
    (case as_stake tx of
       None \<Rightarrow> (Err RGas, book)
     | Some s \<Rightarrow>
         (case sp_kind s of
            Bond \<Rightarrow> stake_bond_op book registry sender s
          | Unbond \<Rightarrow> stake_unbond_op book registry sender s
          | Delegate \<Rightarrow> stake_delegate_op book sender s
          | Undelegate \<Rightarrow> stake_undelegate_op book sender s
          | Withdraw \<Rightarrow> stake_withdraw_op book sender s))"

definition observe_commit :: "StakingState \<Rightarrow> Finalized \<Rightarrow> StakingState" where
  "observe_commit book f =
    book\<lparr>sk_last_commit_height := fz_height f, sk_last_commit_hash := fz_block_hash f\<rparr>"

fun next_set_loop ::
  "StakingState \<Rightarrow> ParamsRegistry \<Rightarrow> (ValidatorId \<times> Amount) list \<Rightarrow> (ValidatorId, VotingPower) btree
    \<Rightarrow> (ValidatorId, VotingPower) btree" where
  "next_set_loop book registry [] vals = vals"
| "next_set_loop book registry ((i, amt) # rest) vals =
    (if i \<in> sk_tombstones book then next_set_loop book registry rest vals
     else if amt < min_self_bond_amount registry then next_set_loop book registry rest vals
     else let p = effective_power book i registry
          in next_set_loop book registry rest (if p > 0 then bt_insert i p vals else vals))"

definition compute_next_set :: "StakingState \<Rightarrow> ParamsRegistry \<Rightarrow> (ValidatorId, VotingPower) btree" where
  "compute_next_set book registry = next_set_loop book registry (sk_self_bond book) []"

definition epoch_set_update ::
  "(bytes \<Rightarrow> Hash) \<Rightarrow> StakingState \<Rightarrow> ParamsRegistry \<Rightarrow> Finalized
    \<Rightarrow> (Hash \<times> (ValidatorId, VotingPower) btree) option \<times> StakingState" where
  "epoch_set_update H book registry finalized =
    (let book = observe_commit book finalized;
         epoch_len = unwrap_or EPOCH_LENGTH (params_get registry EpochLength)
     in if epoch_len = 0 then (None, book)
        else let this_ep = fz_height finalized div epoch_len;
                 next_ep = saturating_add (fz_height finalized) 1 div epoch_len
             in if this_ep = next_ep then (None, book)
                else let vals = compute_next_set book registry
                     in (Some (validators_hash H vals, vals), book\<lparr>sk_current_set := vals\<rparr>))"

section \<open>Slashing (slash.rs)\<close>

record SlashState =
  sl_applied :: "Hash set"

definition evidence_hash :: "(bytes \<Rightarrow> Hash) \<Rightarrow> Evidence \<Rightarrow> Hash" where
  "evidence_hash H ev = hash_to_array H (evidence_encode ev)"

definition slash_percent :: "ParamsRegistry \<Rightarrow> u64" where
  "slash_percent registry = unwrap_or SLASH_PERCENT (params_get registry SlashPercent)"

definition slash_apply ::
  "(bytes \<Rightarrow> Hash) \<Rightarrow> Blst \<Rightarrow> StakingState \<Rightarrow> SlashState \<Rightarrow> ParamsRegistry \<Rightarrow> Evidence
    \<Rightarrow> (Amount, VerifyError) result \<times> StakingState \<times> SlashState" where
  "slash_apply H B staking slash registry evidence =
    (case submit_evidence H B evidence of
       Err e \<Rightarrow> (Err e, staking, slash)
     | Ok _ \<Rightarrow>
         (let h = evidence_hash H evidence in
          if h \<in> sl_applied slash then (Ok 0, staking, slash)
          else let i = vt_signer (ev_a evidence);
                   pct = slash_percent registry;
                   cur = unwrap_or 0 (bt_get (sk_self_bond staking) i);
                   cut = saturating_mul cur (ucast pct) div 100;
                   nxt = unwrap_or 0 (checked_sub cur cut)
               in (Ok cut, staking\<lparr>sk_self_bond := bt_insert i nxt (sk_self_bond staking)\<rparr>,
                   slash\<lparr>sl_applied := insert h (sl_applied slash)\<rparr>)))"

definition tombstone :: "StakingState \<Rightarrow> ValidatorId \<Rightarrow> StakingState" where
  "tombstone staking i = staking\<lparr>sk_tombstones := insert i (sk_tombstones staking)\<rparr>"

section \<open>The tokens the ledger holds\<close>

definition staked :: "StakingState \<Rightarrow> nat" where
  "staked book = bt_sum unat (sk_self_bond book) + bt_sum unat (sk_delegations book) +
    bt_sum (\<lambda>e. unat (ub_amount e)) (sk_pending_unbond book)"

definition staking_ok :: "StakingState \<Rightarrow> bool" where
  "staking_ok book \<longleftrightarrow> bt_wf (sk_self_bond book) \<and> bt_wf (sk_operator book) \<and> bt_wf (sk_delegations book) \<and>
    bt_wf (sk_pending_unbond book) \<and>
    (sk_next_unbond book \<noteq> - 1 \<longrightarrow> list_all (\<lambda>k. k < sk_next_unbond book) (bt_keys (sk_pending_unbond book)))"

definition withdrawable_entry :: "Address \<Rightarrow> Height \<Rightarrow> UnbondEntry \<Rightarrow> bool" where
  "withdrawable_entry owner h e \<longleftrightarrow> ub_owner e = owner \<and> ub_unlock_height e \<le> h"

lemma saturating_add_one: "a \<noteq> - 1 \<Longrightarrow> saturating_add a 1 = a + (1 :: 'a::len word)"
  using unat_plus_one [of a] unat_lt_pow [of "a + 1"] by (cases "LENGTH('a) = 1") (auto simp: saturating_add_def)

lemma list_all_keys_insert: "list_all P (bt_keys (bt_insert k v m)) \<longleftrightarrow> P k \<and> list_all P (bt_keys m)"
  using set_bt_insert [of k v m] by (simp add: list_all_iff bt_keys_def del: set_map)

lemma unat_add_or_keep: "unat acc \<le> unat (add_or_keep acc a)" "unat (add_or_keep acc a) \<le> unat acc + unat a"
  by (cases "checked_add acc a"; auto simp: add_or_keep_def dest: checked_add_SomeD)+

lemma fold_add_or_keep_le:
  "unat (foldl (\<lambda>acc p. add_or_keep acc (f p)) z xs) \<le> unat z + sum_list (map (unat \<circ> f) xs)"
proof (induction xs arbitrary: z)
  case (Cons x xs)
  show ?case using Cons [of "add_or_keep z (f x)"] unat_add_or_keep(2) [of z "f x"] by simp
qed simp

definition entry_value :: "Address \<Rightarrow> Height \<Rightarrow> UnbondEntry option \<Rightarrow> nat" where
  "entry_value owner h oe = (case oe of Some e \<Rightarrow> if withdrawable_entry owner h e then unat (ub_amount e) else 0 | None \<Rightarrow> 0)"

lemma sum_filter_keys:
  "distinct (map fst m) \<Longrightarrow>
    sum_list (map (unat \<circ> (\<lambda>p. ub_amount (snd p))) (filter (\<lambda>p. withdrawable_entry owner h (snd p)) m)) =
    (\<Sum>k\<leftarrow>map fst m. entry_value owner h (bt_get m k))"
proof (induction m)
  case (Cons p m)
  obtain k e where p: "p = (k, e)" by (cases p)
  have "(\<Sum>x\<leftarrow>map fst m. entry_value owner h (bt_get (p # m) x)) = (\<Sum>x\<leftarrow>map fst m. entry_value owner h (bt_get m x))"
    using Cons.prems by (intro arg_cong [where f = sum_list] map_cong) (auto simp: p)
  then show ?case using Cons by (simp add: p entry_value_def)
qed simp

lemma matured_withdrawable_le:
  assumes "bt_wf (sk_pending_unbond book)"
  shows "unat (matured_withdrawable book owner) \<le>
    (\<Sum>k\<leftarrow>bt_keys (sk_pending_unbond book).
       entry_value owner (sk_last_commit_height book) (bt_get (sk_pending_unbond book) k))"
  using fold_add_or_keep_le [where f = "\<lambda>p. ub_amount (snd p)" and z = 0 and
      xs = "filter (\<lambda>p. withdrawable_entry owner (sk_last_commit_height book) (snd p)) (sk_pending_unbond book)"]
    sum_filter_keys [OF bt_wf_distinct [OF assms]]
  by (simp add: matured_withdrawable_def withdrawable_entry_def case_prod_beta' bt_keys_def)

lemma withdraw_loop_frame: "\<exists>m. withdraw_loop sender ks left book = book\<lparr>sk_pending_unbond := m\<rparr>"
proof (induction sender ks left book rule: withdraw_loop.induct)
  case (1 sender left book)
  show ?case by (rule exI [of _ "sk_pending_unbond book"]) simp
next
  case (2 sender k ks left book)
  have "\<exists>m. book = book\<lparr>sk_pending_unbond := m\<rparr>" by (rule exI [of _ "sk_pending_unbond book"]) simp
  then show ?case using 2 by (auto split: option.splits)
qed

text \<open>The loop takes exactly the amount asked for and only from entries that may be withdrawn.\<close>

lemma withdraw_loop_takes:
  assumes "bt_wf (sk_pending_unbond book)" "distinct ks"
    "unat left \<le> (\<Sum>k\<leftarrow>ks. entry_value sender (sk_last_commit_height book) (bt_get (sk_pending_unbond book) k))"
  shows "bt_wf (sk_pending_unbond (withdraw_loop sender ks left book)) \<and>
    bt_sum (\<lambda>e. unat (ub_amount e)) (sk_pending_unbond (withdraw_loop sender ks left book)) + unat left =
    bt_sum (\<lambda>e. unat (ub_amount e)) (sk_pending_unbond book)"
  using assms
proof (induction sender ks left book rule: withdraw_loop.induct)
  case (2 sender k ks left book)
  let ?h = "sk_last_commit_height book" and ?m = "sk_pending_unbond book"
  have same: "(\<Sum>x\<leftarrow>ks. entry_value sender ?h (((bt_get ?m)(k := v)) x)) = (\<Sum>x\<leftarrow>ks. entry_value sender ?h (bt_get ?m x))" for v
    using "2.prems"(2) by (intro arg_cong [where f = sum_list] map_cong) auto
  show ?case
  proof (cases "left = 0")
    case False
    show ?thesis
    proof (cases "bt_get ?m k")
      case None
      then show ?thesis using 2(1) [OF False None] "2.prems" by (simp add: entry_value_def)
    next
      case (Some e)
      consider "\<not> withdrawable_entry sender ?h e" | "withdrawable_entry sender ?h e" "ub_amount e \<le> left"
        | "withdrawable_entry sender ?h e" "\<not> ub_amount e \<le> left" by blast
      then show ?thesis
      proof cases
        case 1
        then have "ub_owner e \<noteq> sender \<or> ?h < ub_unlock_height e" by (auto simp: withdrawable_entry_def)
        then show ?thesis using 2(2) [OF False Some] "2.prems" 1 Some False by (simp add: entry_value_def)
      next
        case 2
        then have g: "\<not> (ub_owner e \<noteq> sender \<or> ?h < ub_unlock_height e)" by (auto simp: withdrawable_entry_def)
        have u: "unat (left - ub_amount e) = unat left - unat (ub_amount e)" "unat (ub_amount e) \<le> unat left"
          using 2 by (simp_all add: unat_sub word_le_nat_alt)
        have v: "entry_value sender ?h (bt_get ?m k) = unat (ub_amount e)" using 2 Some by (simp add: entry_value_def)
        have "unat (left - ub_amount e) \<le> (\<Sum>x\<leftarrow>ks. entry_value sender ?h (bt_get (bt_remove k ?m) x))"
          using "2.prems"(3) u v same [of None] by simp
        then show ?thesis
          using "2.IH"(3) [OF False Some g] "2.prems"(1,2) bt_sum_remove [of ?m "\<lambda>e. unat (ub_amount e)" k] 2 Some False g u
          by auto
      next
        case 3
        then have g: "\<not> (ub_owner e \<noteq> sender \<or> ?h < ub_unlock_height e)" by (auto simp: withdrawable_entry_def)
        have u: "unat (ub_amount e - left) + unat left = unat (ub_amount e)"
          using 3 by (simp add: unat_sub word_le_nat_alt)
        show ?thesis
          using "2.IH"(4) [OF False Some g] "2.prems" 3 Some False g u
            bt_sum_insert [of ?m "\<lambda>e. unat (ub_amount e)" k "e\<lparr>ub_amount := ub_amount e - left\<rparr>"]
          by simp
      qed
    qed
  qed (use "2.prems" in simp)
qed simp

lemma withdraw_loop_keeps:
  assumes "case bt_get (sk_pending_unbond book) k of Some e \<Rightarrow> \<not> withdrawable_entry sender (sk_last_commit_height book) e | None \<Rightarrow> True"
  shows "bt_get (sk_pending_unbond (withdraw_loop sender ks left book)) k = bt_get (sk_pending_unbond book) k"
  using assms
  by (induction sender ks left book rule: withdraw_loop.induct)
    (auto simp: withdrawable_entry_def split: option.splits)

lemma stake_withdraw_total:
  assumes "stake_withdraw_op book sender s = (Ok (), book')" "staking_ok book"
  shows "staking_ok book'" "staked book' + unat (sp_amount s) = staked book"
proof -
  let ?ks = "bt_keys (sk_pending_unbond book)"
  have wf: "bt_wf (sk_pending_unbond book)" using assms(2) by (simp add: staking_ok_def)
  have b: "book' = withdraw_loop sender ?ks (sp_amount s) book" "sp_amount s \<le> matured_withdrawable book sender"
    using assms(1) by (auto simp: stake_withdraw_op_def Let_def split: if_splits)
  have "unat (sp_amount s) \<le> (\<Sum>k\<leftarrow>?ks. entry_value sender (sk_last_commit_height book) (bt_get (sk_pending_unbond book) k))"
    using b(2) matured_withdrawable_le [OF wf, of sender] by (simp add: word_le_nat_alt)
  then have takes: "bt_wf (sk_pending_unbond book')" "bt_sum (\<lambda>e. unat (ub_amount e)) (sk_pending_unbond book') +
      unat (sp_amount s) = bt_sum (\<lambda>e. unat (ub_amount e)) (sk_pending_unbond book)"
    using withdraw_loop_takes [OF wf bt_wf_distinct [OF wf, folded bt_keys_def]] by (simp_all add: b(1))
  obtain m where m: "book' = book\<lparr>sk_pending_unbond := m\<rparr>" using withdraw_loop_frame b(1) by blast
  have "k < sk_next_unbond book" if "k \<in> set (bt_keys m)" "sk_next_unbond book \<noteq> - 1" for k
  proof (rule ccontr)
    assume "\<not> k < sk_next_unbond book"
    then have "k \<notin> set ?ks" using assms(2) that(2) by (auto simp: staking_ok_def list_all_iff)
    then have "bt_get (sk_pending_unbond book) k = None" by (simp add: map_of_eq_None_iff bt_keys_def)
    then have "bt_get m k = None" using withdraw_loop_keeps [where book = book and k = k and sender = sender and ks = ?ks and left = "sp_amount s"] by (simp add: m flip: b(1))
    then show False using that(1) by (simp add: map_of_eq_None_iff bt_keys_def)
  qed
  then show "staking_ok book'" using assms(2) takes(1) by (simp add: m staking_ok_def list_all_iff)
  show "staked book' + unat (sp_amount s) = staked book" using takes(2) by (simp add: m staked_def)
qed

lemma stake_bond_total:
  assumes "stake_bond_op book registry sender s = (r, book')" "staking_ok book"
  shows "staking_ok book'" "staked book' = staked book + (if r = Ok () then unat (sp_amount s) else 0)"
    "r \<noteq> Ok () \<Longrightarrow> \<exists>m. book' = book\<lparr>sk_operator := m\<rparr>"
proof -
  have same: "\<exists>m. book = book\<lparr>sk_operator := m\<rparr>" by (rule exI [of _ "sk_operator book"]) simp
  have sum: "bt_sum unat (bt_insert i nxt (sk_self_bond book)) = bt_sum unat (sk_self_bond book) + unat a"
    if "checked_add (unwrap_or 0 (bt_get (sk_self_bond book) i)) a = Some nxt" for i a nxt
    using checked_add_SomeD [OF that] bt_sum_insert [of "sk_self_bond book" unat i nxt] assms(2)
    by (auto simp: staking_ok_def split: option.splits)
  show "staking_ok book'" "staked book' = staked book + (if r = Ok () then unat (sp_amount s) else 0)"
    "r \<noteq> Ok () \<Longrightarrow> \<exists>m. book' = book\<lparr>sk_operator := m\<rparr>"
    using assms same
    by (auto simp: stake_bond_op_def Let_def staking_ok_def staked_def sum check_min_self_bond_def
        split: option.splits if_splits result.splits)
qed

lemma stake_unbond_total:
  assumes "stake_unbond_op book registry sender s = (r, book')" "staking_ok book" "sk_next_unbond book \<noteq> - 1"
  shows "staked book' = staked book" "r \<noteq> Ok () \<Longrightarrow> book' = book"
proof -
  have "bt_get (sk_pending_unbond book) (sk_next_unbond book) = None"
    using assms(2,3) by (auto simp: staking_ok_def map_of_eq_None_iff bt_keys_def list_all_iff)
  then have pend: "bt_sum (\<lambda>e. unat (ub_amount e)) (bt_insert (sk_next_unbond book) e (sk_pending_unbond book)) =
      bt_sum (\<lambda>e. unat (ub_amount e)) (sk_pending_unbond book) + unat (ub_amount e)" for e
    using bt_sum_insert [of "sk_pending_unbond book" "\<lambda>e. unat (ub_amount e)" "sk_next_unbond book" e] assms(2)
    by (simp add: staking_ok_def)
  have sum: "bt_sum unat (bt_insert i nxt (sk_self_bond book)) + unat a = bt_sum unat (sk_self_bond book)"
    if "checked_sub (unwrap_or 0 (bt_get (sk_self_bond book) i)) a = Some nxt" for i a nxt
    using checked_sub_SomeD [OF that] bt_sum_insert [of "sk_self_bond book" unat i nxt] assms(2)
    by (auto simp: staking_ok_def split: option.splits)
  show "staked book' = staked book" "r \<noteq> Ok () \<Longrightarrow> book' = book"
    using assms sum
    by (auto simp: stake_unbond_op_def Let_def staking_ok_def staked_def pend split: option.splits if_splits prod.splits)
qed

lemma stake_unbond_ok:
  assumes "stake_unbond_op book registry sender s = (r, book')" "staking_ok book"
  shows "staking_ok book'"
proof -
  have step: "list_all (\<lambda>k. k < n + 1) (bt_keys (bt_insert n e m))"
    if "list_all (\<lambda>k. k < n) (bt_keys m)" "n \<noteq> - 1" for n :: u64 and e and m :: "(u64, UnbondEntry) btree"
  proof -
    have "list_all (\<lambda>k. k < n + 1) (bt_keys m)" "n < n + 1"
      using that by (auto simp: list_all_iff word_less_nat_alt unat_plus_one less_Suc_eq)
    then show ?thesis by (simp add: list_all_keys_insert)
  qed
  have "list_all (\<lambda>k. k < saturating_add n 1) (bt_keys (bt_insert n e m))"
    if "n \<noteq> - 1 \<longrightarrow> list_all (\<lambda>k. k < n) (bt_keys m)" "saturating_add n 1 \<noteq> - 1" for n :: u64 and e and m :: "(u64, UnbondEntry) btree"
  proof (cases "n = - 1")
    case True
    have "saturating_add (- 1) 1 = (- 1 :: u64)" by (simp add: saturating_add_def unat_minus_one_max)
    then show ?thesis using that(2) True by blast
  next
    case False
    then show ?thesis using that step by (simp add: saturating_add_one)
  qed
  then show ?thesis
    using assms by (auto simp: stake_unbond_op_def Let_def staking_ok_def split: option.splits if_splits prod.splits)
qed

lemma stake_unbond_failed: "stake_unbond_op book registry sender s = (Err e, book') \<Longrightarrow> book' = book"
  by (auto simp: stake_unbond_op_def Let_def split: option.splits if_splits prod.splits)

lemma stake_delegate_total:
  assumes "stake_delegate_op book sender s = (r, book')" "staking_ok book"
  shows "staking_ok book'" "staked book' = staked book + (if r = Ok () then unat (sp_amount s) else 0)"
    "r \<noteq> Ok () \<Longrightarrow> book' = book"
proof -
  have sum: "bt_sum unat (bt_insert i nxt (sk_delegations book)) = bt_sum unat (sk_delegations book) + unat a"
    if "checked_add (unwrap_or 0 (bt_get (sk_delegations book) i)) a = Some nxt" for i a nxt
    using checked_add_SomeD [OF that] bt_sum_insert [of "sk_delegations book" unat i nxt] assms(2)
    by (auto simp: staking_ok_def split: option.splits)
  show "staking_ok book'" "staked book' = staked book + (if r = Ok () then unat (sp_amount s) else 0)"
    "r \<noteq> Ok () \<Longrightarrow> book' = book"
    using assms by (auto simp: stake_delegate_op_def staking_ok_def staked_def sum split: option.splits if_splits)
qed

lemma stake_undelegate_total:
  assumes "stake_undelegate_op book sender s = (r, book')" "staking_ok book"
  shows "staking_ok book'" "staked book' + (if r = Ok () then unat (sp_amount s) else 0) = staked book"
    "r \<noteq> Ok () \<Longrightarrow> book' = book"
proof -
  let ?m = "sk_delegations book"
  have sum: "bt_sum unat (if nxt = 0 then bt_remove i ?m else bt_insert i nxt ?m) + unat a = bt_sum unat ?m"
    if "checked_sub (unwrap_or 0 (bt_get ?m i)) a = Some nxt" for i a nxt
    using checked_sub_SomeD [OF that] bt_sum_insert [of ?m unat i nxt] bt_sum_remove [of ?m unat i] assms(2)
    by (auto simp: staking_ok_def split: option.splits)
  show "staking_ok book'" "staked book' + (if r = Ok () then unat (sp_amount s) else 0) = staked book"
    "r \<noteq> Ok () \<Longrightarrow> book' = book"
    using assms sum by (auto simp: stake_undelegate_op_def staking_ok_def staked_def split: option.splits)
qed

lemma stake_withdraw_failed: "stake_withdraw_op book sender s = (Err e, book') \<Longrightarrow> book' = book"
  by (auto simp: stake_withdraw_op_def Let_def split: if_splits)

lemma apply_stake_totals:
  assumes "apply_stake_tx book registry sender tx = (r, book')" "as_stake tx = Some s"
    "staking_ok book" "sk_next_unbond book \<noteq> - 1"
  shows "staking_ok book' \<and>
    (if r \<noteq> Ok () then staked book' = staked book \<and> (\<exists>m. book' = book\<lparr>sk_operator := m\<rparr>)
     else case sp_kind s of
            Bond \<Rightarrow> staked book' = staked book + unat (sp_amount s)
          | Delegate \<Rightarrow> staked book' = staked book + unat (sp_amount s)
          | Unbond \<Rightarrow> staked book' = staked book
          | Undelegate \<Rightarrow> staked book' + unat (sp_amount s) = staked book
          | Withdraw \<Rightarrow> staked book' + unat (sp_amount s) = staked book)"
proof -
  have same: "\<exists>m. book = book\<lparr>sk_operator := m\<rparr>" by (rule exI [of _ "sk_operator book"]) simp
  show ?thesis
  proof (cases "sp_kind s")
    case Bond
    then have "stake_bond_op book registry sender s = (r, book')" using assms(1,2) by (simp add: apply_stake_tx_def)
    from stake_bond_total [OF this assms(3)] show ?thesis using Bond by simp
  next
    case Unbond
    then have "stake_unbond_op book registry sender s = (r, book')" using assms(1,2) by (simp add: apply_stake_tx_def)
    from stake_unbond_total [OF this assms(3,4)] stake_unbond_ok [OF this assms(3)] show ?thesis using Unbond same by auto
  next
    case Delegate
    then have "stake_delegate_op book sender s = (r, book')" using assms(1,2) by (simp add: apply_stake_tx_def)
    from stake_delegate_total [OF this assms(3)] show ?thesis using Delegate same by auto
  next
    case Undelegate
    then have "stake_undelegate_op book sender s = (r, book')" using assms(1,2) by (simp add: apply_stake_tx_def)
    from stake_undelegate_total [OF this assms(3)] show ?thesis using Undelegate same by auto
  next
    case Withdraw
    then have w: "stake_withdraw_op book sender s = (r, book')" using assms(1,2) by (simp add: apply_stake_tx_def)
    show ?thesis
    proof (cases r)
      case (Ok u)
      then show ?thesis using stake_withdraw_total [of book sender s book'] w assms(3) Withdraw by simp
    next
      case (Err e)
      then show ?thesis using stake_withdraw_failed [of book sender s e book'] w assms(3) same by auto
    qed
  qed
qed

lemma stake_bond_failed_same:
  assumes "stake_bond_op book registry sender s = (Err e, book')" "bt_sum unat (sk_self_bond book) + unat (sp_amount s) < 2 ^ 128"
  shows "book' = book"
proof -
  have "unat (unwrap_or 0 (bt_get (sk_self_bond book) i)) \<le> bt_sum unat (sk_self_bond book)" for i
    using bt_sum_ge [of "sk_self_bond book" i _ unat] by (cases "bt_get (sk_self_bond book) i") simp_all
  then have "unat (unwrap_or 0 (bt_get (sk_self_bond book) i)) + unat (sp_amount s) < 2 ^ 128" for i
    using assms(2) by (meson add_le_mono1 order.strict_trans1)
  then obtain x where "checked_add (unwrap_or 0 (bt_get (sk_self_bond book) (the (sp_validator s)))) (sp_amount s) = Some x"
    by (simp add: checked_add_def)
  then show ?thesis
    using assms(1) by (cases "sp_validator s") (auto simp: stake_bond_op_def Let_def split: option.splits result.splits if_splits)
qed

lemma apply_stake_failed:
  assumes "apply_stake_tx book registry sender tx = (Err e, book')" "staking_ok book"
  shows "\<exists>m. book' = book\<lparr>sk_operator := m\<rparr>"
    "as_stake tx = Some s \<Longrightarrow> sp_kind s = Bond \<longrightarrow> bt_sum unat (sk_self_bond book) + unat (sp_amount s) < 2 ^ 128 \<Longrightarrow> book' = book"
proof -
  have same: "\<exists>m. book = book\<lparr>sk_operator := m\<rparr>" by (rule exI [of _ "sk_operator book"]) simp
  have other: "book' = book" if "as_stake tx = Some t" "sp_kind t \<noteq> Bond" for t
    using assms that stake_delegate_total(3) [of book sender t "Err e" book'] stake_undelegate_total(3) [of book sender t "Err e" book']
      stake_withdraw_failed [of book sender t e book'] stake_unbond_failed [of book registry sender t e book']
    by (cases "sp_kind t") (simp_all add: apply_stake_tx_def)
  have bond: "stake_bond_op book registry sender t = (Err e, book')" if "as_stake tx = Some t" "sp_kind t = Bond" for t
    using assms(1) that by (simp add: apply_stake_tx_def)
  show "\<exists>m. book' = book\<lparr>sk_operator := m\<rparr>"
  proof (cases "as_stake tx")
    case None
    then show ?thesis using assms(1) same by (simp add: apply_stake_tx_def)
  next
    case (Some t)
    then show ?thesis
      using other [OF Some] stake_bond_total(3) [OF bond [OF Some] assms(2)] same by (cases "sp_kind t = Bond") auto
  qed
  show "book' = book" if "as_stake tx = Some s" "sp_kind s = Bond \<longrightarrow> bt_sum unat (sk_self_bond book) + unat (sp_amount s) < 2 ^ 128"
    using other [OF that(1)] stake_bond_failed_same [OF bond [OF that(1)]] that(2) by (cases "sp_kind s = Bond") auto
qed

lemma apply_stake_next:
  "sk_next_unbond (snd (apply_stake_tx book registry sender tx)) \<in> {sk_next_unbond book, saturating_add (sk_next_unbond book) 1}"
proof -
  let ?P = "\<lambda>b. sk_next_unbond b \<in> {sk_next_unbond book, saturating_add (sk_next_unbond book) 1}"
  have f: "sk_next_unbond (withdraw_loop sender ks left book) = sk_next_unbond book" for ks left
    using withdraw_loop_frame [of sender ks left book] by auto
  have P: "?P (snd (stake_bond_op book registry sender s))" "?P (snd (stake_unbond_op book registry sender s))"
    "?P (snd (stake_delegate_op book sender s))" "?P (snd (stake_undelegate_op book sender s))"
    "?P (snd (stake_withdraw_op book sender s))" for s
    by (simp_all add: stake_bond_op_def stake_unbond_op_def stake_delegate_op_def stake_undelegate_op_def
        stake_withdraw_op_def Let_def f split: option.split result.split prod.split)
  show ?thesis
  proof (cases "as_stake tx")
    case None
    then show ?thesis by (simp add: apply_stake_tx_def)
  next
    case (Some s)
    then show ?thesis using P [of s] by (cases "sp_kind s") (simp_all add: apply_stake_tx_def)
  qed
qed

lemma apply_stake_ok:
  assumes "staking_ok book"
  shows "staking_ok (snd (apply_stake_tx book registry sender tx))"
proof (cases "as_stake tx")
  case None
  then show ?thesis using assms by (simp add: apply_stake_tx_def)
next
  case (Some s)
  obtain r book' where b: "apply_stake_tx book registry sender tx = (r, book')" by fastforce
  have "staking_ok book'"
  proof (cases "sp_kind s")
    case Bond
    then show ?thesis using b Some stake_bond_total(1) [OF _ assms] by (simp add: apply_stake_tx_def)
  next
    case Unbond
    then show ?thesis using b Some stake_unbond_ok [OF _ assms] by (simp add: apply_stake_tx_def)
  next
    case Delegate
    then show ?thesis using b Some stake_delegate_total(1) [OF _ assms] by (simp add: apply_stake_tx_def)
  next
    case Undelegate
    then show ?thesis using b Some stake_undelegate_total(1) [OF _ assms] by (simp add: apply_stake_tx_def)
  next
    case Withdraw
    then have "stake_withdraw_op book sender s = (r, book')" using b Some by (simp add: apply_stake_tx_def)
    then show ?thesis
      using stake_withdraw_total(1) [of book sender s book'] stake_withdraw_failed [of book sender s _ book'] assms
      by (cases r) auto
  qed
  then show ?thesis using b by simp
qed

text \<open>
  C34. The staking ledger accounts for every token. An accepted bond or
  delegation adds exactly its amount to what the ledger holds, an unbond moves
  its amount inside it, and an undelegation or a withdrawal takes out exactly
  its amount; the tables stay well formed and a rejected payload changes no
  balance. (The hypothesis on the counter of unbonds excludes the saturated
  value, at which a new entry would replace the last one.)
\<close>

theorem staking_conserves:
  assumes "apply_stake_tx book registry sender tx = (r, book')" "as_stake tx = Some s"
    "staking_ok book" "sk_next_unbond book \<noteq> - 1"
  shows "staking_ok book' \<and>
    (if r \<noteq> Ok () then staked book' = staked book \<and> (\<exists>m. book' = book\<lparr>sk_operator := m\<rparr>)
     else case sp_kind s of
            Bond \<Rightarrow> staked book' = staked book + unat (sp_amount s)
          | Delegate \<Rightarrow> staked book' = staked book + unat (sp_amount s)
          | Unbond \<Rightarrow> staked book' = staked book
          | Undelegate \<Rightarrow> staked book' + unat (sp_amount s) = staked book
          | Withdraw \<Rightarrow> staked book' + unat (sp_amount s) = staked book)"
  using assms by (rule apply_stake_totals)

definition example_stake_tx :: "StakeKind \<Rightarrow> Amount \<Rightarrow> Tx" where
  "example_stake_tx k a =
    \<lparr>tx_chain_id = 1, tx_nonce = 0, tx_gas_limit = 1000, tx_max_fee = 1,
     tx_payload = StakeP \<lparr>sp_kind = k, sp_validator = Some (replicate 48 2), sp_amount = a\<rparr>\<rparr>"

definition example_bonded :: StakingState where
  "example_bonded = snd (apply_stake_tx staking_default params_new (replicate 32 1) (example_stake_tx Bond 200))"

theorem staking_conserves_witness: "staking_ok example_bonded \<and> staked example_bonded = 200"
proof -
  let ?r = "apply_stake_tx staking_default params_new (replicate 32 1) (example_stake_tx Bond 200)"
  have "fst ?r = Ok ()" by code_simp
  moreover have "staking_ok staking_default" "staked staking_default = 0" "sk_next_unbond staking_default \<noteq> - 1"
    by (simp_all add: staking_ok_def staked_def staking_default_def bt_keys_def)
  ultimately show ?thesis
    using staking_conserves [OF prod.collapse [of ?r, symmetric]]
    by (simp add: as_stake_def example_stake_tx_def example_bonded_def)
qed

section \<open>Unbonding tokens stay for the unbonding period\<close>

datatype StakingStep = StakeStep Address Tx | CommitStep Finalized

fun staking_step :: "(bytes \<Rightarrow> Hash) \<Rightarrow> ParamsRegistry \<Rightarrow> StakingStep \<Rightarrow> StakingState \<Rightarrow> StakingState" where
  "staking_step H registry (StakeStep sender tx) book = snd (apply_stake_tx book registry sender tx)"
| "staking_step H registry (CommitStep f) book = snd (epoch_set_update H book registry f)"

fun before_height :: "Height \<Rightarrow> StakingStep \<Rightarrow> bool" where
  "before_height h (StakeStep sender tx) = True"
| "before_height h (CommitStep f) = (fz_height f < h)"

lemma epoch_set_update_frame:
  "\<exists>c. snd (epoch_set_update H book registry f) =
    book\<lparr>sk_last_commit_height := fz_height f, sk_last_commit_hash := fz_block_hash f, sk_current_set := c\<rparr>"
  by (rule exI [of _ "sk_current_set (snd (epoch_set_update H book registry f))"])
    (simp add: epoch_set_update_def observe_commit_def Let_def)

lemma apply_stake_pending:
  assumes "staking_ok book" "bt_get (sk_pending_unbond book) k = Some e" "sk_last_commit_height book < ub_unlock_height e"
    "sk_next_unbond book \<noteq> - 1"
  shows "bt_get (sk_pending_unbond (snd (apply_stake_tx book registry sender tx))) k = Some e \<and>
    sk_last_commit_height (snd (apply_stake_tx book registry sender tx)) = sk_last_commit_height book \<and>
    sk_next_unbond (snd (apply_stake_tx book registry sender tx)) \<in>
      {sk_next_unbond book, saturating_add (sk_next_unbond book) 1}"
proof -
  have "k \<in> set (bt_keys (sk_pending_unbond book))" using assms(2) by (force simp: bt_keys_def dest: map_of_SomeD)
  then have k: "k \<noteq> sk_next_unbond book" using assms(1,4) by (auto simp: staking_ok_def list_all_iff)
  have w: "bt_get (sk_pending_unbond (withdraw_loop sender ks left book)) k = Some e" for ks left
    using withdraw_loop_keeps [where book = book and k = k and sender = sender and ks = ks and left = left] assms(2,3)
    by (simp add: withdrawable_entry_def not_le)
  have f: "sk_last_commit_height (withdraw_loop sender ks left book) = sk_last_commit_height book"
    "sk_next_unbond (withdraw_loop sender ks left book) = sk_next_unbond book" for ks left
    using withdraw_loop_frame [of sender ks left book] by auto
  let ?P = "\<lambda>b. bt_get (sk_pending_unbond b) k = Some e \<and> sk_last_commit_height b = sk_last_commit_height book \<and>
    sk_next_unbond b \<in> {sk_next_unbond book, saturating_add (sk_next_unbond book) 1}"
  have P: "?P (snd (stake_bond_op book registry sender s))" "?P (snd (stake_unbond_op book registry sender s))"
    "?P (snd (stake_delegate_op book sender s))" "?P (snd (stake_undelegate_op book sender s))"
    "?P (snd (stake_withdraw_op book sender s))" for s
    using assms(2) k w f
    by (simp_all add: stake_bond_op_def stake_unbond_op_def stake_delegate_op_def stake_undelegate_op_def
        stake_withdraw_op_def Let_def split: option.split result.split prod.split)
  show ?thesis
  proof (cases "as_stake tx")
    case None
    then show ?thesis using assms(2) by (simp add: apply_stake_tx_def)
  next
    case (Some s)
    then show ?thesis using P [of s] by (cases "sp_kind s") (simp_all add: apply_stake_tx_def)
  qed
qed

text \<open>What the steps keep while the entry is locked; \<open>n\<close> bounds the entries made.\<close>

definition locked_entry :: "u64 \<Rightarrow> UnbondEntry \<Rightarrow> nat \<Rightarrow> StakingState \<Rightarrow> bool" where
  "locked_entry k e n book \<longleftrightarrow> staking_ok book \<and> bt_get (sk_pending_unbond book) k = Some e \<and>
    sk_last_commit_height book < ub_unlock_height e \<and> unat (sk_next_unbond book) + n < 2 ^ 64 - 1"

lemma staking_step_locked:
  assumes "locked_entry k e (Suc n) book" "before_height (ub_unlock_height e) st"
  shows "locked_entry k e n (staking_step H registry st book)"
proof (cases st)
  case (CommitStep f)
  obtain c where "snd (epoch_set_update H book registry f) =
      book\<lparr>sk_last_commit_height := fz_height f, sk_last_commit_hash := fz_block_hash f, sk_current_set := c\<rparr>"
    using epoch_set_update_frame by blast
  then show ?thesis using assms by (simp add: CommitStep locked_entry_def staking_ok_def)
next
  case (StakeStep sender tx)
  have a: "staking_ok book" "bt_get (sk_pending_unbond book) k = Some e" "sk_last_commit_height book < ub_unlock_height e"
    "unat (sk_next_unbond book) + Suc n < 2 ^ 64 - 1" using assms(1) by (simp_all add: locked_entry_def)
  then have m: "sk_next_unbond book \<noteq> - 1" using unat_minus_one_max [where 'a = 64] by auto
  obtain r book' where b: "apply_stake_tx book registry sender tx = (r, book')" by fastforce
  have ok: "staking_ok book'" using apply_stake_ok [OF a(1), of registry sender tx] b by simp
  have "unat (sk_next_unbond book') + n < 2 ^ 64 - 1"
    using apply_stake_pending [OF a(1-3) m, of registry sender tx] a(4) saturating_add_one [OF m] unat_plus_one [OF m] b by auto
  then show ?thesis using apply_stake_pending [OF a(1-3) m, of registry sender tx] a(3) b ok
    by (simp add: StakeStep locked_entry_def)
qed

lemma fold_steps_locked:
  "locked_entry k e (length steps + n) book \<Longrightarrow> list_all (before_height (ub_unlock_height e)) steps \<Longrightarrow>
    locked_entry k e n (fold (staking_step H registry) steps book)"
  by (induction steps arbitrary: book) (auto intro: staking_step_locked)

text \<open>
  C35. Unbonded tokens stay locked. An accepted unbond files its amount in an
  entry whose unlock height lies the unbonding period after the last commit, and
  no staking transaction of anyone removes or reduces that entry before a block
  of that height commits, whatever transactions and epoch changes come between.
\<close>

theorem unbonding_locked:
  assumes "apply_stake_tx book registry sender tx = (Ok (), book')" "as_stake tx = Some s" "sp_kind s = Unbond"
    "staking_ok book" "unat (sk_next_unbond book) + length steps < 2 ^ 64 - 2"
    "unlock = saturating_add (sk_last_commit_height book) (unwrap_or UNBONDING_PERIOD (params_get registry UnbondingPeriod))"
    "sk_last_commit_height book < unlock" "list_all (before_height unlock) steps"
  shows "\<exists>e. bt_get (sk_pending_unbond (fold (staking_step H registry) steps book')) (sk_next_unbond book) = Some e \<and>
    ub_owner e = sender \<and> ub_amount e = sp_amount s \<and> ub_unlock_height e = unlock"
proof -
  have m: "sk_next_unbond book \<noteq> - 1" using assms(5) unat_minus_one_max [where 'a = 64] by auto
  have op: "stake_unbond_op book registry sender s = (Ok (), book')" using assms(1-3) by (simp add: apply_stake_tx_def)
  then obtain e where e: "bt_get (sk_pending_unbond book') (sk_next_unbond book) = Some e" "ub_owner e = sender"
      "ub_amount e = sp_amount s" "ub_unlock_height e = unlock" "sk_last_commit_height book' = sk_last_commit_height book"
      "sk_next_unbond book' = saturating_add (sk_next_unbond book) 1"
    by (auto simp: stake_unbond_op_def unbonding_unlock_def Let_def assms(6) split: option.splits if_splits)
  have "locked_entry (sk_next_unbond book) e (length steps + 0) book'"
    using stake_unbond_ok [OF op assms(4)] e assms(5,7) saturating_add_one [OF m] unat_plus_one [OF m]
    by (simp add: locked_entry_def)
  then have "locked_entry (sk_next_unbond book) e 0 (fold (staking_step H registry) steps book')"
    by (rule fold_steps_locked) (simp add: e(4) assms(8))
  then show ?thesis using e by (auto simp: locked_entry_def)
qed

theorem unbonding_locked_witness:
  "bt_get (sk_pending_unbond (fold (staking_step last32 params_new)
      [StakeStep (replicate 32 1) (example_stake_tx Withdraw 50),
       CommitStep \<lparr>fz_height = 5, fz_round = 0, fz_block_hash = replicate 32 0, fz_app_hash = replicate 32 0\<rparr>]
      (snd (apply_stake_tx example_bonded params_new (replicate 32 1) (example_stake_tx Unbond 200))))) 0 \<noteq> None"
proof -
  let ?r = "apply_stake_tx example_bonded params_new (replicate 32 1) (example_stake_tx Unbond 200)"
  let ?f = "\<lparr>fz_height = 5, fz_round = 0, fz_block_hash = replicate 32 0, fz_app_hash = replicate 32 0\<rparr>"
  let ?steps = "[StakeStep (replicate 32 1) (example_stake_tx Withdraw 50), CommitStep ?f]"
  let ?s = "\<lparr>sp_kind = Unbond, sp_validator = Some (replicate 48 2), sp_amount = 200\<rparr>"
  have ok: "fst ?r = Ok ()" by code_simp
  have st: "staking_ok example_bonded" by code_simp
  have nx: "sk_next_unbond example_bonded = 0" by code_simp
  have un: "saturating_add (sk_last_commit_height example_bonded)
      (unwrap_or UNBONDING_PERIOD (params_get params_new UnbondingPeriod)) = UNBONDING_PERIOD" by code_simp
  have lt: "sk_last_commit_height example_bonded < UNBONDING_PERIOD" by code_simp
  have al: "list_all (before_height UNBONDING_PERIOD) ?steps" by code_simp
  have "?r = (Ok (), snd ?r)" using ok prod.collapse [of ?r] by simp
  then show ?thesis
    using unbonding_locked [of example_bonded params_new "replicate 32 1" "example_stake_tx Unbond 200" "snd ?r" ?s ?steps
        UNBONDING_PERIOD last32] st nx un lt al
    by (auto simp: as_stake_def example_stake_tx_def)
qed

section \<open>The next validator set\<close>

lemma next_set_loop_other: "i \<notin> fst ` set xs \<Longrightarrow> bt_get (next_set_loop book registry xs vals) i = bt_get vals i"
  by (induction book registry xs vals rule: next_set_loop.induct) (auto simp: Let_def)

lemma next_set_loop_wf: "bt_wf vals \<Longrightarrow> bt_wf (next_set_loop book registry xs vals)"
  by (induction book registry xs vals rule: next_set_loop.induct) (auto simp: Let_def)

definition qualifies :: "StakingState \<Rightarrow> ParamsRegistry \<Rightarrow> ValidatorId \<Rightarrow> Amount \<Rightarrow> bool" where
  "qualifies book registry i amt \<longleftrightarrow>
    i \<notin> sk_tombstones book \<and> min_self_bond_amount registry \<le> amt \<and> effective_power book i registry > 0"

lemma next_set_loop_get:
  "distinct (map fst xs) \<Longrightarrow> (i, amt) \<in> set xs \<Longrightarrow> bt_get vals i = None \<Longrightarrow>
    bt_get (next_set_loop book registry xs vals) i =
      (if qualifies book registry i amt then Some (effective_power book i registry) else None)"
proof (induction book registry xs vals rule: next_set_loop.induct)
  case (2 book registry j a rest vals)
  show ?case
  proof (cases "i = j")
    case True
    then have "amt = a" "i \<notin> fst ` set rest" using "2.prems" by (force, force)
    then show ?thesis using True "2.prems"(3) by (auto simp: qualifies_def Let_def next_set_loop_other)
  next
    case False
    then show ?thesis using 2 by (auto simp: Let_def)
  qed
qed simp

lemma unat_amount_power: "unat (amount_power a) = min (unat a) (2 ^ 64 - 1)"
proof -
  have mx: "unat (ucast (- 1 :: u64) :: u128) = 2 ^ 64 - 1"
    by (simp add: unsigned_ucast_eq unat_minus_one_max take_bit_nat_eq_self)
  then have "unat (min a (ucast (- 1 :: u64))) = min (unat a) (2 ^ 64 - 1)"
    by (auto simp: min_def word_le_nat_alt)
  moreover have "min (unat a) (2 ^ 64 - 1) < 2 ^ 64" by (simp add: min_def)
  ultimately show ?thesis by (simp add: amount_power_def unsigned_ucast_eq take_bit_nat_eq_self)
qed

lemma unat_effective_power:
  "unat (effective_power book i registry) =
    min (min (unat (unwrap_or 0 (bt_get (sk_self_bond book) i))) (2 ^ 64 - 1) +
         min (min (unat (delegated_to book i)) (2 ^ 64 - 1)) (unat (delegation_cap registry))) (2 ^ 64 - 1)"
  by (simp add: effective_power_def Let_def unat_saturating_add unat_amount_power unat_min)

text \<open>
  C36. The next validator set is what the ledger says. A validator is in it
  exactly when it has a self-bond of at least the minimum, is not tombstoned and
  has positive power; its power is its self-bond plus the tokens delegated to
  it, of which at most the delegation cap counts.
\<close>

theorem next_set_from_ledger:
  assumes "bt_wf (sk_self_bond book)"
  shows "bt_wf (compute_next_set book registry) \<and>
    (bt_get (compute_next_set book registry) i = Some p \<longleftrightarrow>
      (\<exists>amt. bt_get (sk_self_bond book) i = Some amt \<and> i \<notin> sk_tombstones book \<and> min_self_bond_amount registry \<le> amt \<and>
        unat p = min (min (unat amt) (2 ^ 64 - 1) +
          min (min (unat (delegated_to book i)) (2 ^ 64 - 1)) (unat (delegation_cap registry))) (2 ^ 64 - 1) \<and> 0 < p))"
proof -
  have d: "distinct (map fst (sk_self_bond book))" by (rule bt_wf_distinct [OF assms])
  show ?thesis
  proof (cases "bt_get (sk_self_bond book) i")
    case None
    then have "i \<notin> fst ` set (sk_self_bond book)" by (simp add: map_of_eq_None_iff)
    then show ?thesis using None by (simp add: compute_next_set_def next_set_loop_wf next_set_loop_other)
  next
    case (Some amt)
    then have "bt_get (compute_next_set book registry) i =
        (if qualifies book registry i amt then Some (effective_power book i registry) else None)"
      using next_set_loop_get [OF d map_of_SomeD [OF Some], of "[]"] by (simp add: compute_next_set_def)
    then show ?thesis
      using Some unat_effective_power [of book i registry] word_unat_eq_iff [of p "effective_power book i registry"]
      by (auto simp: compute_next_set_def next_set_loop_wf qualifies_def)
  qed
qed

theorem next_set_from_ledger_witness:
  "bt_get (compute_next_set example_bonded params_new) (replicate 48 2) = Some 200"
proof -
  let ?i = "replicate 48 2 :: bytes"
  have wf: "bt_wf (sk_self_bond example_bonded)" by code_simp
  have "bt_get (sk_self_bond example_bonded) ?i = Some 200" "?i \<notin> sk_tombstones example_bonded"
    "min_self_bond_amount params_new \<le> 200" "delegated_to example_bonded ?i = 0" by code_simp+
  then show ?thesis using next_set_from_ledger [OF wf, of params_new ?i 200] by simp
qed

section \<open>What slashing takes\<close>

lemma slash_apply_fresh:
  assumes "submit_evidence H B ev = Ok ev" "evidence_hash H ev \<notin> sl_applied sl"
  shows "slash_apply H B book sl registry ev =
    (let cur = unwrap_or 0 (bt_get (sk_self_bond book) (vt_signer (ev_a ev)));
         cut = saturating_mul cur (ucast (slash_percent registry)) div 100
     in (Ok cut, book\<lparr>sk_self_bond := bt_insert (vt_signer (ev_a ev)) (cur - min cur cut) (sk_self_bond book)\<rparr>,
         sl\<lparr>sl_applied := insert (evidence_hash H ev) (sl_applied sl)\<rparr>))"
proof -
  have "unwrap_or 0 (checked_sub c d) = c - min c d" for c d :: Amount
    by (auto simp: checked_sub_def min_def)
  then show ?thesis using assms by (simp add: slash_apply_def Let_def)
qed

lemma unat_slash_cut:
  "unat (saturating_mul cur (ucast (pct :: u64)) div 100 :: u128) = min (unat cur * unat pct) (2 ^ 128 - 1) div 100"
proof -
  have "unat (ucast pct :: u128) = unat pct"
    using unat_lt_pow [of pct] by (simp add: unsigned_ucast_eq take_bit_nat_eq_self)
  then show ?thesis by (simp add: unat_div_distrib unat_saturating_mul)
qed

text \<open>
  C37. Slashing takes its percentage once per evidence. Evidence that verifies
  and is not yet filed takes the given percentage of the offender's self-bond,
  rounded down and never more than the bond, and touches no other bond,
  delegation or pending unbond; filing the same evidence again takes nothing.
\<close>

theorem slash_once:
  assumes "submit_evidence H B ev = Ok ev" "evidence_hash H ev \<notin> sl_applied sl"
    "bt_get (sk_self_bond book) (vt_signer (ev_a ev)) = Some bond" "unat bond * unat (slash_percent registry) < 2 ^ 128"
    "slash_apply H B book sl registry ev = (r, book', sl')"
  shows "\<exists>cut bond'. r = Ok cut \<and> unat cut = unat bond * unat (slash_percent registry) div 100 \<and>
    unat bond' = unat bond - unat cut \<and>
    bt_get (sk_self_bond book') = (bt_get (sk_self_bond book))(vt_signer (ev_a ev) \<mapsto> bond') \<and>
    (\<exists>m. book' = book\<lparr>sk_self_bond := m\<rparr>) \<and>
    slash_apply H B book' sl' registry ev = (Ok 0, book', sl')"
proof -
  let ?cut = "saturating_mul bond (ucast (slash_percent registry)) div 100"
  have r: "r = Ok ?cut" "book' = book\<lparr>sk_self_bond := bt_insert (vt_signer (ev_a ev)) (bond - min bond ?cut) (sk_self_bond book)\<rparr>"
    "sl' = sl\<lparr>sl_applied := insert (evidence_hash H ev) (sl_applied sl)\<rparr>"
    using assms(3,5) slash_apply_fresh [OF assms(1,2), of book registry] by (simp_all add: Let_def)
  have cut: "unat ?cut = unat bond * unat (slash_percent registry) div 100"
    using assms(4) by (simp add: unat_slash_cut)
  have sub: "unat (bond - min bond ?cut) = unat bond - unat ?cut"
    by (simp add: unat_sub unat_min)
  have again: "slash_apply H B book' sl' registry ev = (Ok 0, book', sl')"
    using assms(1) by (simp add: slash_apply_def r(3) Let_def)
  have "bt_get (sk_self_bond book') = (bt_get (sk_self_bond book))(vt_signer (ev_a ev) \<mapsto> bond - min bond ?cut)"
    "\<exists>m. book' = book\<lparr>sk_self_bond := m\<rparr>" by (auto simp: r(2))
  then show ?thesis using r(1) cut sub again by blast
qed

definition example_digest :: "bytes \<Rightarrow> Hash" where
  "example_digest b = replicate 31 0 @ [foldl (\<lambda>a x. a * 3 + x) 7 b]"

definition example_evidence :: "u8 \<Rightarrow> u8 \<Rightarrow> Evidence" where
  "example_evidence x y = \<lparr>ev_a = toy_double x, ev_b = toy_double y\<rparr>"

definition example_keys :: Blst where
  "example_keys = toy_blst [encode_vote_body (toy_double 1), encode_vote_body (toy_double 2)]"

definition example_offender :: StakingState where
  "example_offender = staking_default\<lparr>sk_self_bond := [(replicate 48 7, 200)]\<rparr>"

theorem slash_once_witness:
  "slash_apply example_digest example_keys (fst (snd (slash_apply example_digest example_keys example_offender \<lparr>sl_applied = {}\<rparr> params_new (example_evidence 1 2))))
     (snd (snd (slash_apply example_digest example_keys example_offender \<lparr>sl_applied = {}\<rparr> params_new (example_evidence 1 2)))) params_new
     (example_evidence 1 2) =
   (Ok 0, snd (slash_apply example_digest example_keys example_offender \<lparr>sl_applied = {}\<rparr> params_new (example_evidence 1 2)))"
proof -
  let ?ev = "example_evidence 1 2"
  let ?r = "slash_apply example_digest example_keys example_offender \<lparr>sl_applied = {}\<rparr> params_new ?ev"
  have "submit_evidence example_digest example_keys ?ev = Ok ?ev" by code_simp
  moreover have "bt_get (sk_self_bond example_offender) (vt_signer (ev_a ?ev)) = Some 200" by code_simp
  moreover have "slash_percent params_new = 5" by code_simp
  ultimately show ?thesis
    using slash_once [of example_digest example_keys ?ev "\<lparr>sl_applied = {}\<rparr>" example_offender 200 params_new "fst ?r" "fst (snd ?r)" "snd (snd ?r)"]
    by auto
qed

text \<open>
  C38. One equivocation can be slashed twice. The digest under which applied
  evidence is filed depends on the order of its two votes, while the votes of
  accepted evidence are accepted in both orders: the swapped pair takes the
  percentage a second time.
\<close>

theorem swapped_evidence_slashes_again:
  assumes "submit_evidence H B \<lparr>ev_a = v, ev_b = w\<rparr> = Ok \<lparr>ev_a = v, ev_b = w\<rparr>"
    "evidence_hash H \<lparr>ev_a = v, ev_b = w\<rparr> \<noteq> evidence_hash H \<lparr>ev_a = w, ev_b = v\<rparr>"
    "slash_apply H B book \<lparr>sl_applied = {}\<rparr> registry \<lparr>ev_a = v, ev_b = w\<rparr> = (Ok cut1, book1, sl1)"
    "slash_apply H B book1 sl1 registry \<lparr>ev_a = w, ev_b = v\<rparr> = (r, book2, sl2)"
  shows "\<exists>cut2. r = Ok cut2 \<and>
    unat cut2 = min (unat (unwrap_or 0 (bt_get (sk_self_bond book1) (vt_signer v))) * unat (slash_percent registry))
      (2 ^ 128 - 1) div 100"
proof -
  have sub: "submit_evidence H B \<lparr>ev_a = w, ev_b = v\<rparr> = Ok \<lparr>ev_a = w, ev_b = v\<rparr>" and sg: "vt_signer w = vt_signer v"
    using assms(1) by (auto simp: submit_evidence_Ok_iff vote_slot_def)
  have "sl1 = \<lparr>sl_applied = {evidence_hash H \<lparr>ev_a = v, ev_b = w\<rparr>}\<rparr>"
    using assms(3) slash_apply_fresh [OF assms(1), of "\<lparr>sl_applied = {}\<rparr>" book registry] by (simp add: Let_def)
  then have new: "evidence_hash H \<lparr>ev_a = w, ev_b = v\<rparr> \<notin> sl_applied sl1" using assms(2) by simp
  have "r = Ok (saturating_mul (unwrap_or 0 (bt_get (sk_self_bond book1) (vt_signer v))) (ucast (slash_percent registry)) div 100)"
    using assms(4) slash_apply_fresh [OF sub new, of book1 registry] by (simp add: Let_def sg)
  then show ?thesis using unat_slash_cut by blast
qed

theorem swapped_evidence_slashes_again_witness:
  "fst (slash_apply example_digest example_keys (fst (snd (slash_apply example_digest example_keys example_offender \<lparr>sl_applied = {}\<rparr> params_new (example_evidence 1 2))))
     (snd (snd (slash_apply example_digest example_keys example_offender \<lparr>sl_applied = {}\<rparr> params_new (example_evidence 1 2)))) params_new
     (example_evidence 2 1)) = Ok 9"
proof -
  let ?ev = "example_evidence 1 2" and ?we = "example_evidence 2 1"
  let ?r = "slash_apply example_digest example_keys example_offender \<lparr>sl_applied = {}\<rparr> params_new ?ev"
  let ?q = "slash_apply example_digest example_keys (fst (snd ?r)) (snd (snd ?r)) params_new ?we"
  have "submit_evidence example_digest example_keys ?ev = Ok ?ev" by code_simp
  moreover have "evidence_hash example_digest ?ev \<noteq> evidence_hash example_digest ?we" by code_simp
  moreover have "fst ?r = Ok 10" by code_simp
  then have "?r = (Ok 10, fst (snd ?r), snd (snd ?r))" by (metis prod.collapse)
  moreover have "unwrap_or 0 (bt_get (sk_self_bond (fst (snd ?r))) (vt_signer (toy_double 1))) = 190" by code_simp
  moreover have "slash_percent params_new = 5" by code_simp
  ultimately obtain c where "fst ?q = Ok c" "unat c = 9"
    using swapped_evidence_slashes_again [of example_digest example_keys "toy_double 1" "toy_double 2" example_offender params_new 10 "fst (snd ?r)"
        "snd (snd ?r)" "fst ?q" "fst (snd ?q)" "snd (snd ?q)"]
    by (auto simp: example_evidence_def)
  then show ?thesis using word_unat_eq_iff [of c 9] by simp
qed

end
