(* ===== verification/Exec_Wasm.thy ===== *)
theory Exec_Wasm
  imports Exec_Staking State_Version "HOL-Library.Monad_Syntax"
begin

text \<open>
  The world state (\<open>World\<close> of \<open>seq.rs\<close>) and contracts (\<open>wasm/deploy.rs\<close>,
  \<open>wasm/gas.rs\<close>, \<open>wasm/host.rs\<close>, \<open>wasm/call.rs\<close> of \<open>crates/execution\<close>). The wasm engine
  is a parameter: a record that says which modules are valid and gives the run of
  a module as a tree of its host calls. \<open>None\<close> is a panic. The lemmas show that
  the host calls never panic, that a contract reaches only its own storage, and
  that it cannot be entered while it runs.
\<close>

section \<open>The world (seq.rs)\<close>

record World =
  w_accounts :: AccountTrie
  w_storage :: ContractStorageTrie
  w_staking :: StakingState
  w_params :: ParamsRegistry
  w_code :: "(Address, bytes) btree"
  w_executing :: "Address set"
  w_storage_reads :: "bytes set"
  w_storage_writes :: "bytes set"
  w_versioned :: MemoryStore
  w_wasm_fuel_left :: u64

definition world_from_genesis :: "Genesis \<Rightarrow> World" where
  "world_from_genesis g =
    \<lparr>w_accounts = fold (\<lambda>(addr, ga) t. accounts_put t addr (account_from_genesis ga)) (gn_alloc g) TEmpty,
     w_storage = TEmpty, w_staking = staking_default, w_params = gp_registry (gn_params g), w_code = [],
     w_executing = {}, w_storage_reads = {}, w_storage_writes = {}, w_versioned = [], w_wasm_fuel_left = 0\<rparr>"

definition world_account :: "World \<Rightarrow> Address \<Rightarrow> Account" where
  "world_account world addr = unwrap_or account_empty (accounts_get (w_accounts world) addr)"

definition commit_state_root :: "(bytes \<Rightarrow> Hash) \<Rightarrow> World \<Rightarrow> Hash" where
  "commit_state_root H world = commit_root H (root_of H (w_accounts world)) (root_of H (w_storage world))"

section \<open>The engine\<close>

text \<open>
  A run of guest code: it ends with a result, or asks the host to load or store a
  slot or to enter the contract again. A host function that fails aborts the
  guest; the first argument of \<open>GReenter\<close> is the result the engine then reports for
  the error text. The type makes every run finite: that guest code stops is the
  documented effect of \<open>consume_fuel\<close> and \<open>set_fuel\<close> in the engine, which is not code of
  the repository, and not something proved here.
\<close>

datatype 'r Guest =
    GDone 'r
  | GLoad u32 "u64 \<Rightarrow> 'r Guest"
  | GStore u32 u64 "'r Guest"
  | GReenter "string \<Rightarrow> 'r" "'r Guest"

datatype CallOutcome = CallOk u64 | CallErr string u64

datatype InstOutcome = InstErr | InstOk "CallOutcome Guest"

text \<open>
  \<open>wt_module\<close> is \<open>Module::new(..).is_ok()\<close>. \<open>wt_instantiate\<close> is the run of
  \<open>set_fuel\<close>, the linker and \<open>instantiate\<close>, which executes the module's start
  function; its result is an error or the run of the export \<open>call\<close>, which reports the
  fuel left and, when it traps, the rendered error.
\<close>

record Wasmtime =
  wt_module :: "bytes \<Rightarrow> bool"
  wt_instantiate :: "bytes \<Rightarrow> u64 \<Rightarrow> InstOutcome Guest"

section \<open>Deployment (deploy.rs) and fuel (gas.rs)\<close>

definition create_address :: "(bytes \<Rightarrow> Hash) \<Rightarrow> Address \<Rightarrow> Nonce \<Rightarrow> Address" where
  "create_address H sender nonce = hash_to_array H (sender @ u64_be nonce)"

definition validate_wasm :: "Wasmtime \<Rightarrow> bytes \<Rightarrow> (unit, RejectReason) result" where
  "validate_wasm W code = (if wt_module W code then Ok () else Err RWasmInvalid)"

definition install :: "(bytes \<Rightarrow> Hash) \<Rightarrow> Wasmtime \<Rightarrow> World \<Rightarrow> Address \<Rightarrow> bytes \<Rightarrow> (unit, RejectReason) result \<times> World" where
  "install H W world addr code =
    (case validate_wasm W code of
       Err e \<Rightarrow> (Err e, world)
     | Ok _ \<Rightarrow>
         (let code_hash = hash_to_array H code;
              acc = (unwrap_or account_empty (accounts_get (w_accounts world) addr))\<lparr>ac_code_hash := code_hash\<rparr>
          in (Ok (), world\<lparr>w_accounts := accounts_put (w_accounts world) addr acc,
                           w_code := bt_insert addr code (w_code world)\<rparr>)))"

definition wasm_meter :: "Tx \<Rightarrow> (u64, GasError) result" where
  "wasm_meter tx = gas_meter tx"

definition fuel_budget :: "Tx \<Rightarrow> u64 \<Rightarrow> u64" where
  "fuel_budget tx intrinsic = saturating_sub (tx_gas_limit tx) intrinsic"

definition prepare :: "Wasmtime \<Rightarrow> Tx \<Rightarrow> Deploy \<Rightarrow> (unit, RejectReason) result" where
  "prepare W tx deploy =
    and_then (map_err reason_of_gas (wasm_meter tx)) (\<lambda>_. validate_wasm W (dp_code deploy))"

section \<open>Host functions (host.rs)\<close>

definition storage_key :: "Address \<Rightarrow> u32 \<Rightarrow> bytes" where
  "storage_key contract slot = contract @ replicate 28 0 @ u32_be slot"

definition i64_from_value :: "bytes option \<Rightarrow> u64" where
  "i64_from_value raw =
    (case raw of None \<Rightarrow> 0 | Some b \<Rightarrow> if length b = 8 then u64_from_be b else 0)"

text \<open>The loop that searches the latest version; \<open>None\<close> is a failed \<open>expect\<close>.\<close>

partial_function (option) find_version :: "MemoryStore \<Rightarrow> bytes \<Rightarrow> SlotVersion \<Rightarrow> SlotVersion option" where
  [code]: "find_version s key v =
    (case slot_validate memory_store s key v of
       Err _ \<Rightarrow> None
     | Ok hit \<Rightarrow>
         if hit then Some v
         else let v' = saturating_add v 1 in if v' = 0 then Some 0 else find_version s key v')"

definition sload :: "World \<Rightarrow> Address \<Rightarrow> u32 \<Rightarrow> (u64 \<times> World) option" where
  "sload world contract slot =
    (let key = storage_key contract slot;
         world = world\<lparr>w_storage_reads := insert key (w_storage_reads world)\<rparr>;
         trie_val = storage_get (w_storage world) key
     in do {
       latest \<leftarrow> (case slot_validate memory_store (w_versioned world) key 0 of
                   Err _ \<Rightarrow> None
                 | Ok fresh \<Rightarrow> if fresh then Some 0 else find_version (w_versioned world) key 1);
       (case slot_read memory_store (w_versioned world) key latest of
          Err _ \<Rightarrow> None
        | Ok _ \<Rightarrow> Some (i64_from_value trie_val, world))
     })"

definition sstore :: "World \<Rightarrow> Address \<Rightarrow> u32 \<Rightarrow> u64 \<Rightarrow> World option" where
  "sstore world contract slot v =
    do {
      (_, world) \<leftarrow> sload world contract slot;
      let key = storage_key contract slot;
      let world = world\<lparr>w_storage_writes := insert key (w_storage_writes world),
                        w_storage := storage_put (w_storage world) key (u64_be v)\<rparr>;
      (case slot_write memory_store (w_versioned world) key (u64_be v) of
         (Err _, _) \<Rightarrow> None
       | (Ok _, slots) \<Rightarrow> Some (world\<lparr>w_versioned := slots\<rparr>))
    }"

section \<open>Calls (call.rs)\<close>

definition lower_char :: "char \<Rightarrow> char" where
  "lower_char c = (let n = of_char c :: nat in if 65 \<le> n \<and> n \<le> 90 then char_of (n + 32) else c)"

definition to_ascii_lowercase :: "string \<Rightarrow> string" where
  "to_ascii_lowercase s = map lower_char s"

definition contains_text :: "string \<Rightarrow> string \<Rightarrow> bool" where
  "contains_text s p = list_ex (\<lambda>i. take (length p) (drop i s) = p) [0..<Suc (length s)]"

definition map_trap :: "string \<Rightarrow> RejectReason" where
  "map_trap err =
    (let s = to_ascii_lowercase err in
     if contains_text s ''reentrancy'' then RWasmReentrancy
     else if contains_text s ''fuel'' then RWasmGas
     else RWasmInvalid)"

text \<open>The text of the error that \<open>host_reenter\<close> returns: \<open>format!("{other:?}")\<close> unless it is the reentrancy error.\<close>

fun reenter_message :: "RejectReason \<Rightarrow> string" where
  "reenter_message RWasmReentrancy = ''reentrancy''"
| "reenter_message RSignature = ''Signature''"
| "reenter_message RWrongNonce = ''WrongNonce''"
| "reenter_message RInsufficientBalance = ''InsufficientBalance''"
| "reenter_message RGas = ''Gas''"
| "reenter_message RStakeMinBond = ''StakeMinBond''"
| "reenter_message RStakeTombstone = ''StakeTombstone''"
| "reenter_message RStakeUnbonding = ''StakeUnbonding''"
| "reenter_message RStakeInsufficient = ''StakeInsufficient''"
| "reenter_message RWasmInvalid = ''WasmInvalid''"
| "reenter_message RWasmGas = ''WasmGas''"
| "reenter_message RWasmNoCode = ''WasmNoCode''"

text \<open>The host calls of a run; \<open>enter\<close> is what \<open>host_reenter\<close> calls.\<close>

primrec run_guest ::
  "(World \<Rightarrow> ((unit, RejectReason) result \<times> World) option) \<Rightarrow> Address \<Rightarrow> 'r Guest \<Rightarrow> World \<Rightarrow> ('r \<times> World) option" where
  "run_guest enter contract (GDone r) world = Some (r, world)"
| "run_guest enter contract (GLoad slot k) world =
    do { (v, world) \<leftarrow> sload world contract slot; run_guest enter contract (k v) world }"
| "run_guest enter contract (GStore slot v k) world =
    do { world \<leftarrow> sstore world contract slot v; run_guest enter contract k world }"
| "run_guest enter contract (GReenter abort k) world =
    do { (res, world) \<leftarrow> enter world;
         (case res of
            Err e \<Rightarrow> Some (abort (reenter_message e), world)
          | Ok _ \<Rightarrow> run_guest enter contract k world) }"

definition run_engine ::
  "Wasmtime \<Rightarrow> (World \<Rightarrow> ((unit, RejectReason) result \<times> World) option) \<Rightarrow> World \<Rightarrow> Address \<Rightarrow> u64
    \<Rightarrow> ((unit, RejectReason) result \<times> World) option" where
  "run_engine W enter world contract fuel =
    (case bt_get (w_code world) contract of
       None \<Rightarrow> Some (Err RWasmNoCode, world)
     | Some code \<Rightarrow>
         if \<not> wt_module W code then Some (Err RWasmInvalid, world)
         else do {
           (inst, world) \<leftarrow> run_guest enter contract (wt_instantiate W code fuel) world;
           (case inst of
              InstErr \<Rightarrow> Some (Err RWasmInvalid, world)
            | InstOk func \<Rightarrow>
                do {
                  (out, world) \<leftarrow> run_guest enter contract func world;
                  (case out of
                     CallOk left \<Rightarrow> Some (Ok (), world\<lparr>w_wasm_fuel_left := left\<rparr>)
                   | CallErr e left \<Rightarrow> Some (Err (map_trap e), world\<lparr>w_wasm_fuel_left := left\<rparr>))
                })
         })"

text \<open>
  The recursion through \<open>host_reenter\<close> is bounded by \<open>depth\<close>: the guard stops it at
  the second entry, so depth 2 is every depth (\<open>execute_depth\<close>).
\<close>

fun execute :: "Wasmtime \<Rightarrow> nat \<Rightarrow> World \<Rightarrow> Address \<Rightarrow> u64 \<Rightarrow> ((unit, RejectReason) result \<times> World) option" where
  "execute W 0 world contract fuel = None"
| "execute W (Suc depth) world contract fuel =
    (if contract \<in> w_executing world then Some (Err RWasmReentrancy, world)
     else if bt_get (w_code world) contract = None then Some (Err RWasmNoCode, world)
     else do {
       let world = world\<lparr>w_executing := insert contract (w_executing world)\<rparr>;
       (res, world) \<leftarrow> run_engine W (\<lambda>world. execute W depth world contract 0) world contract fuel;
       Some (res, world\<lparr>w_executing := w_executing world - {contract}\<rparr>)
     })"

definition wasm_call :: "Wasmtime \<Rightarrow> World \<Rightarrow> Call \<Rightarrow> u64 \<Rightarrow> ((unit, RejectReason) result \<times> World) option" where
  "wasm_call W world c fuel =
    (case and_then (ok_or RWasmNoCode (bt_get (w_code world) (cl_to c))) (validate_wasm W) of
       Err e \<Rightarrow> Some (Err e, world)
     | Ok _ \<Rightarrow> execute W 2 world (cl_to c) fuel)"

section \<open>The version search returns\<close>

lemma find_version_finds:
  assumes "slot_latest memory_store s key = Ok n" "v \<le> n"
  shows "find_version s key v = Some n"
  using assms(2)
proof (induction "unat n - unat v" arbitrary: v)
  case 0
  then have "v = n" by (simp add: word_le_nat_alt word_unat_eq_iff)
  then show ?case using assms(1) by (subst find_version.simps) (simp add: slot_validate_def)
next
  case (Suc d)
  then have lt: "unat v < unat n" by simp
  then have max: "v \<noteq> - 1" using unat_lt_pow [of n] by (auto simp: unat_minus_one_max)
  have succ: "unat (v + 1) = Suc (unat v)" by (rule unat_plus_one [OF max])
  have "v + 1 \<le> n" using lt by (simp add: word_le_nat_alt succ)
  moreover have "d = unat n - unat (v + 1)" using Suc(2) by (simp add: succ)
  ultimately have "find_version s key (v + 1) = Some n" using Suc(1) by blast
  moreover have "v + 1 \<noteq> 0" using succ by (metis nat.distinct(1) unat_0)
  moreover have "n \<noteq> v" using lt by auto
  ultimately show ?case
    using assms(1) by (subst find_version.simps) (simp add: slot_validate_def saturating_add_one [OF max] Let_def)
qed

section \<open>Host calls\<close>

definition slots_ok :: "MemoryStore \<Rightarrow> bool" where
  "slots_ok s \<longleftrightarrow> (\<forall>c slot b. length c = 32 \<longrightarrow> bt_get s (storage_key c slot) = Some b \<longrightarrow> length b = 8)"

lemma length_storage_key [simp]: "length (storage_key c slot) = length c + 32"
  by (simp add: storage_key_def)

lemma slots_ok_latest: "slots_ok s \<Longrightarrow> length c = 32 \<Longrightarrow> \<exists>n. slot_latest memory_store s (storage_key c slot) = Ok n"
  by (auto simp: slot_latest_def mem.get_ok slots_ok_def split: option.splits)

lemma slot_write_latest:
  assumes "slot_latest memory_store s key = Ok n"
  obtains s' where "slot_write memory_store s key v = (Ok (saturating_add n 1), s')"
    "bt_get s' = (bt_get s)(key \<mapsto> u64_be (saturating_add n 1), version_key key (saturating_add n 1) \<mapsto> v)"
proof -
  let ?m = "saturating_add n 1"
  have "?m \<noteq> 0" using unat_saturating_add [of n 1] by (auto simp: min_def split: if_splits)
  moreover obtain s' where "apply_batch memory_store s [Put key (u64_be ?m), Put (version_key key ?m) v] = (Ok (), s')"
    "bt_get s' = ops_map (bt_get s) [Put key (u64_be ?m), Put (version_key key ?m) v]"
    by (rule mem.batch)
  ultimately show thesis using that assms by (simp add: slot_write_def Let_def)
qed

lemma sload_value:
  assumes "slots_ok (w_versioned w)" "length c = 32"
  shows "sload w c slot = Some (i64_from_value (storage_get (w_storage w) (storage_key c slot)),
    w\<lparr>w_storage_reads := insert (storage_key c slot) (w_storage_reads w)\<rparr>)"
proof -
  obtain n where n: "slot_latest memory_store (w_versioned w) (storage_key c slot) = Ok n"
    using slots_ok_latest [OF assms] by blast
  have "find_version (w_versioned w) (storage_key c slot) 1 = Some n" if "n \<noteq> 0"
    using that by (intro find_version_finds [OF n]) (simp add: word_le_nat_alt unat_gt_0 Suc_le_eq)
  then show ?thesis
    using n by (auto simp: sload_def slot_validate_def slot_read_def mem.get_ok Let_def)
qed

lemma sstore_value:
  assumes "slots_ok (w_versioned w)" "length c = 32"
  obtains vs where "slots_ok vs" "sstore w c slot v = Some (w\<lparr>w_storage_reads := insert (storage_key c slot) (w_storage_reads w),
    w_storage_writes := insert (storage_key c slot) (w_storage_writes w),
    w_storage := storage_put (w_storage w) (storage_key c slot) (u64_be v), w_versioned := vs\<rparr>)"
proof -
  let ?key = "storage_key c slot"
  obtain n where n: "slot_latest memory_store (w_versioned w) ?key = Ok n" using slots_ok_latest [OF assms] by blast
  obtain vs where vs: "slot_write memory_store (w_versioned w) ?key (u64_be v) = (Ok (saturating_add n 1), vs)"
    "bt_get vs = (bt_get (w_versioned w))(?key \<mapsto> u64_be (saturating_add n 1), version_key ?key (saturating_add n 1) \<mapsto> u64_be v)"
    by (rule slot_write_latest [OF n])
  have "storage_key d slot' \<noteq> version_key ?key m" if "length d = 32" for d slot' m
  proof
    assume "storage_key d slot' = version_key ?key m"
    then have "length (storage_key d slot') = length (version_key ?key m)" by simp
    then show False using that assms(2) by (simp add: version_key_def)
  qed
  then have "slots_ok vs" using assms(1) unfolding slots_ok_def vs(2) by auto
  moreover have "sstore w c slot v = Some (w\<lparr>w_storage_reads := insert ?key (w_storage_reads w),
    w_storage_writes := insert ?key (w_storage_writes w),
    w_storage := storage_put (w_storage w) ?key (u64_be v), w_versioned := vs\<rparr>)"
    using vs(1) by (simp add: sstore_def sload_value [OF assms] Let_def)
  ultimately show thesis by (rule that)
qed

section \<open>A run touches the slots of its contract only\<close>

definition guest_ready :: "Address \<Rightarrow> World \<Rightarrow> bool" where
  "guest_ready c w \<longleftrightarrow> length c = 32 \<and> slots_ok (w_versioned w) \<and> trie_ok (w_storage w)"

definition same_slots :: "Address \<Rightarrow> World \<Rightarrow> World \<Rightarrow> bool" where
  "same_slots c w u \<longleftrightarrow> w_storage_reads w = w_storage_reads u \<and> w_storage_writes w = w_storage_writes u \<and>
    (\<forall>slot. storage_get (w_storage w) (storage_key c slot) = storage_get (w_storage u) (storage_key c slot))"

definition confined :: "Address \<Rightarrow> World \<Rightarrow> World \<Rightarrow> bool" where
  "confined c w w' \<longleftrightarrow> w_accounts w' = w_accounts w \<and> w_staking w' = w_staking w \<and> w_params w' = w_params w \<and>
    w_code w' = w_code w \<and> w_executing w' = w_executing w \<and>
    w_storage_reads w \<subseteq> w_storage_reads w' \<and> w_storage_writes w \<subseteq> w_storage_writes w' \<and>
    w_storage_reads w' \<subseteq> w_storage_reads w \<union> range (storage_key c) \<and>
    w_storage_writes w' \<subseteq> w_storage_writes w \<union> range (storage_key c) \<and>
    (\<forall>k. k \<in> w_storage_writes w' \<or> storage_get (w_storage w') k = storage_get (w_storage w) k) \<and>
    (\<forall>k. storage_get (w_storage w') k = None \<longrightarrow> storage_get (w_storage w) k = None)"

lemma confined_refl: "confined c w w"
  by (simp add: confined_def)

lemma confined_trans: "confined c w v \<Longrightarrow> confined c v u \<Longrightarrow> confined c w u"
  unfolding confined_def by (intro conjI; force)

lemma confined_load: "confined c w (w\<lparr>w_storage_reads := insert (storage_key c slot) (w_storage_reads w)\<rparr>)"
  by (auto simp: confined_def)

lemma confined_store:
  "trie_ok (w_storage w) \<Longrightarrow> confined c w (w\<lparr>w_storage_reads := insert (storage_key c slot) (w_storage_reads w),
    w_storage_writes := insert (storage_key c slot) (w_storage_writes w),
    w_storage := storage_put (w_storage w) (storage_key c slot) b, w_versioned := vs\<rparr>)"
  by (auto simp: confined_def contract_slots.get_put)

lemma run_guest_local:
  assumes "\<And>w. c \<in> w_executing w \<Longrightarrow> enter w = Some (Err RWasmReentrancy, w)"
    "guest_ready c w" "guest_ready c u" "c \<in> w_executing w" "c \<in> w_executing u" "same_slots c w u"
  shows "\<exists>r w' u'. run_guest enter c g w = Some (r, w') \<and> run_guest enter c g u = Some (r, u') \<and>
    guest_ready c w' \<and> guest_ready c u' \<and> confined c w w' \<and> confined c u u' \<and> same_slots c w' u'"
  using assms(2-)
proof (induction g arbitrary: w u)
  case (GDone r)
  then show ?case using confined_refl by auto
next
  case (GLoad slot k)
  let ?k = "storage_key c slot"
  let ?w = "w\<lparr>w_storage_reads := insert ?k (w_storage_reads w)\<rparr>" and ?u = "u\<lparr>w_storage_reads := insert ?k (w_storage_reads u)\<rparr>"
  let ?v = "i64_from_value (storage_get (w_storage w) ?k)"
  have "guest_ready c ?w" "guest_ready c ?u" "same_slots c ?w ?u" "c \<in> w_executing ?w" "c \<in> w_executing ?u"
    using GLoad.prems by (simp_all add: guest_ready_def same_slots_def)
  then obtain r w' u' where 1: "run_guest enter c (k ?v) ?w = Some (r, w')" "run_guest enter c (k ?v) ?u = Some (r, u')"
      "guest_ready c w'" "guest_ready c u'" "confined c ?w w'" "confined c ?u u'" "same_slots c w' u'"
    using GLoad.IH [OF rangeI [of k ?v], of ?w ?u] by blast
  have "sload w c slot = Some (?v, ?w)" "sload u c slot = Some (?v, ?u)"
    using GLoad.prems by (simp_all add: sload_value guest_ready_def same_slots_def)
  then show ?case
    using 1 confined_trans [OF confined_load 1(5)] confined_trans [OF confined_load 1(6)] by auto
next
  case (GStore slot v k)
  let ?k = "storage_key c slot"
  let ?st = "\<lambda>w vs. w\<lparr>w_storage_reads := insert ?k (w_storage_reads w), w_storage_writes := insert ?k (w_storage_writes w),
    w_storage := storage_put (w_storage w) ?k (u64_be v), w_versioned := vs\<rparr>"
  obtain vs where vs: "slots_ok vs" "sstore w c slot v = Some (?st w vs)"
    using sstore_value [of w c slot v] GStore.prems by (auto simp: guest_ready_def)
  obtain us where us: "slots_ok us" "sstore u c slot v = Some (?st u us)"
    using sstore_value [of u c slot v] GStore.prems by (auto simp: guest_ready_def)
  have "guest_ready c (?st w vs)" "guest_ready c (?st u us)" "same_slots c (?st w vs) (?st u us)"
    "c \<in> w_executing (?st w vs)" "c \<in> w_executing (?st u us)"
    using GStore.prems vs us by (auto simp: guest_ready_def same_slots_def contract_slots.ok_put contract_slots.get_put)
  then obtain r w' u' where 1: "run_guest enter c k (?st w vs) = Some (r, w')" "run_guest enter c k (?st u us) = Some (r, u')"
      "guest_ready c w'" "guest_ready c u'" "confined c (?st w vs) w'" "confined c (?st u us) u'" "same_slots c w' u'"
    using GStore.IH [of "?st w vs" "?st u us"] by blast
  have ok: "trie_ok (w_storage w)" "trie_ok (w_storage u)" using GStore.prems by (simp_all add: guest_ready_def)
  show ?case
    using 1 vs us confined_trans [OF confined_store [OF ok(1)] 1(5)] confined_trans [OF confined_store [OF ok(2)] 1(6)] by auto
next
  case (GReenter abort k)
  then show ?case using assms(1) confined_refl by auto
qed

section \<open>No contract is entered while it runs\<close>

lemma execute_guard: "c \<in> w_executing w \<Longrightarrow> execute W (Suc d) w c fuel = Some (Err RWasmReentrancy, w)"
  by simp

lemma sload_world:
  assumes "sload w c slot = Some (v, w')"
  shows "w' = w\<lparr>w_storage_reads := insert (storage_key c slot) (w_storage_reads w)\<rparr>"
proof -
  let ?w = "w\<lparr>w_storage_reads := insert (storage_key c slot) (w_storage_reads w)\<rparr>"
  obtain n x where "(case slot_read memory_store (w_versioned w) (storage_key c slot) n of Err _ \<Rightarrow> None | Ok _ \<Rightarrow> Some (x, ?w)) = Some (v, w')"
    using assms by (auto simp: sload_def Let_def bind_eq_Some_conv)
  then show ?thesis by (cases "slot_read memory_store (w_versioned w) (storage_key c slot) n") simp_all
qed

lemma sload_executing: "sload w c slot = Some (v, w') \<Longrightarrow> w_executing w' = w_executing w"
  by (drule sload_world) simp

lemma sstore_executing:
  assumes "sstore w c slot v = Some w'"
  shows "w_executing w' = w_executing w"
proof -
  obtain x u where u: "sload w c slot = Some (x, u)" using assms by (cases "sload w c slot") (auto simp: sstore_def)
  then have "w_executing u = w_executing w" by (rule sload_executing)
  moreover have "w_executing w' = w_executing u"
    using assms by (simp add: sstore_def u Let_def split: prod.splits result.splits) auto
  ultimately show ?thesis by simp
qed

lemma run_guest_guarded:
  assumes "\<And>w. c \<in> w_executing w \<Longrightarrow> enter w = Some (Err RWasmReentrancy, w)"
    "\<And>w. c \<in> w_executing w \<Longrightarrow> enter' w = Some (Err RWasmReentrancy, w)" "c \<in> w_executing w"
  shows "run_guest enter c g w = run_guest enter' c g w \<and>
    (\<forall>r w'. run_guest enter c g w = Some (r, w') \<longrightarrow> c \<in> w_executing w')"
  using assms(3)
proof (induction g arbitrary: w)
  case (GLoad slot k)
  show ?case
  proof (cases "sload w c slot")
    case (Some p)
    obtain v w' where p: "p = (v, w')" by (cases p)
    have "c \<in> w_executing w'" using sload_executing Some GLoad.prems by (simp add: p)
    then show ?thesis using GLoad.IH [OF rangeI [of k v], of w'] Some by (simp add: p)
  qed simp
next
  case (GStore slot v k)
  show ?case
  proof (cases "sstore w c slot v")
    case (Some w')
    then have "c \<in> w_executing w'" using sstore_executing GStore.prems by simp
    then show ?thesis using GStore.IH [of w'] Some by simp
  qed simp
next
  case (GReenter abort k)
  show ?case using assms(1,2) [OF GReenter.prems] GReenter.prems by simp
qed simp

lemma run_engine_guarded:
  assumes "\<And>w. c \<in> w_executing w \<Longrightarrow> enter w = Some (Err RWasmReentrancy, w)"
    "\<And>w. c \<in> w_executing w \<Longrightarrow> enter' w = Some (Err RWasmReentrancy, w)" "c \<in> w_executing w"
  shows "run_engine W enter w c fuel = run_engine W enter' w c fuel"
proof (cases "bt_get (w_code w) c")
  case (Some code)
  note inst = run_guest_guarded [of c enter enter', OF assms, of "wt_instantiate W code fuel"]
  show ?thesis
  proof (cases "run_guest enter c (wt_instantiate W code fuel) w")
    case None
    then show ?thesis using Some inst by (simp add: run_engine_def)
  next
    case (Some p)
    obtain i v where p: "p = (i, v)" by (cases p)
    have v: "c \<in> w_executing v" using inst Some by (simp add: p)
    have "run_guest enter c func v = run_guest enter' c func v" for func :: "CallOutcome Guest"
      using run_guest_guarded [of c enter enter', OF assms(1,2) v] by blast
    then show ?thesis
      using Some inst \<open>bt_get (w_code w) c = Some code\<close> by (cases i) (simp_all add: run_engine_def p)
  qed
qed (simp add: run_engine_def)

lemma execute_depth: "execute W (Suc (Suc d)) w c fuel = execute W 2 w c fuel"
proof -
  have "run_engine W (\<lambda>w. execute W (Suc d) w c 0) v c fuel = run_engine W (\<lambda>w. execute W (Suc 0) w c 0) v c fuel"
    if "c \<in> w_executing v" for v
    using that by (intro run_engine_guarded) simp_all
  then show ?thesis by (simp add: numeral_2_eq_2)
qed

lemma run_engine_local:
  assumes "\<And>w. c \<in> w_executing w \<Longrightarrow> enter w = Some (Err RWasmReentrancy, w)"
    "guest_ready c w" "guest_ready c u" "c \<in> w_executing w" "c \<in> w_executing u" "same_slots c w u"
    "bt_get (w_code w) c = bt_get (w_code u) c"
  shows "\<exists>r w' u'. run_engine W enter w c fuel = Some (r, w') \<and> run_engine W enter u c fuel = Some (r, u') \<and>
    guest_ready c w' \<and> guest_ready c u' \<and> confined c w w' \<and> confined c u u' \<and> same_slots c w' u'"
proof (cases "\<exists>code. bt_get (w_code u) c = Some code \<and> wt_module W code")
  case False
  then show ?thesis using assms confined_refl by (cases "bt_get (w_code u) c") (auto simp: run_engine_def)
next
  case True
  then obtain code where code: "bt_get (w_code u) c = Some code" "wt_module W code" by blast
  obtain i w1 u1 where 1: "run_guest enter c (wt_instantiate W code fuel) w = Some (i, w1)"
      "run_guest enter c (wt_instantiate W code fuel) u = Some (i, u1)"
      "guest_ready c w1" "guest_ready c u1" "confined c w w1" "confined c u u1" "same_slots c w1 u1"
    using run_guest_local [of c enter, OF assms(1-6), of "wt_instantiate W code fuel"] by blast
  show ?thesis
  proof (cases i)
    case InstErr
    then show ?thesis using code 1 assms(7) by (simp add: run_engine_def)
  next
    case (InstOk func)
    have "c \<in> w_executing w1" "c \<in> w_executing u1" using 1(5,6) assms(4,5) by (simp_all add: confined_def)
    then obtain out w2 u2 where 2: "run_guest enter c func w1 = Some (out, w2)" "run_guest enter c func u1 = Some (out, u2)"
        "guest_ready c w2" "guest_ready c u2" "confined c w1 w2" "confined c u1 u2" "same_slots c w2 u2"
      using run_guest_local [of c enter, OF assms(1) 1(3,4) _ _ 1(7), of func] by blast
    have "confined c w w2" "confined c u u2" using confined_trans 1(5,6) 2(5,6) by blast+
    then show ?thesis
      using code 1(1,2) 2 assms(7) InstOk
      by (cases out) (simp_all add: run_engine_def guest_ready_def confined_def same_slots_def)
  qed
qed

lemma wasm_call_local:
  assumes "guest_ready (cl_to call) w" "guest_ready (cl_to call) u" "same_slots (cl_to call) w u"
    "cl_to call \<notin> w_executing w" "cl_to call \<notin> w_executing u"
    "bt_get (w_code w) (cl_to call) = bt_get (w_code u) (cl_to call)"
  shows "\<exists>r w' u'. wasm_call W w call fuel = Some (r, w') \<and> wasm_call W u call fuel = Some (r, u') \<and>
    guest_ready (cl_to call) w' \<and> guest_ready (cl_to call) u' \<and> confined (cl_to call) w w' \<and> confined (cl_to call) u u' \<and>
    same_slots (cl_to call) w' u'"
proof (cases "\<exists>code. bt_get (w_code u) (cl_to call) = Some code \<and> wt_module W code")
  case False
  then show ?thesis using assms confined_refl
    by (cases "bt_get (w_code u) (cl_to call)") (auto simp: wasm_call_def ok_or_def validate_wasm_def)
next
  case True
  let ?c = "cl_to call"
  let ?enter = "\<lambda>w. execute W (Suc 0) w ?c 0"
  let ?w = "w\<lparr>w_executing := insert ?c (w_executing w)\<rparr>" and ?u = "u\<lparr>w_executing := insert ?c (w_executing u)\<rparr>"
  let ?out = "\<lambda>w. w\<lparr>w_executing := w_executing w - {?c}\<rparr>"
  have "guest_ready ?c ?w" "guest_ready ?c ?u" "same_slots ?c ?w ?u" "bt_get (w_code ?w) ?c = bt_get (w_code ?u) ?c"
    using assms by (simp_all add: guest_ready_def same_slots_def)
  then obtain r w' u' where 1: "run_engine W ?enter ?w ?c fuel = Some (r, w')" "run_engine W ?enter ?u ?c fuel = Some (r, u')"
      "guest_ready ?c w'" "guest_ready ?c u'" "confined ?c ?w w'" "confined ?c ?u u'" "same_slots ?c w' u'"
    using run_engine_local [of ?c ?enter ?w ?u W fuel] by auto
  have "confined ?c w (?out w')" "confined ?c u (?out u')" "guest_ready ?c (?out w')" "guest_ready ?c (?out u')"
    "same_slots ?c (?out w') (?out u')"
    using 1(3-) assms(4,5) by (auto simp: confined_def guest_ready_def same_slots_def)
  moreover have "wasm_call W w call fuel = Some (r, ?out w')" "wasm_call W u call fuel = Some (r, ?out u')"
    using True assms(4-6) 1(1,2) by (auto simp: wasm_call_def ok_or_def validate_wasm_def numeral_2_eq_2)
  ultimately show ?thesis by blast
qed

text \<open>
  C13. A contract call returns and stays in its own storage. Whatever the code of
  the contract does, a call on a world with well-formed slots returns, without a
  panic; accounts, stakes, parameters and code are as before, every slot it read
  or wrote belongs to the contract, and all other storage is unchanged.
\<close>

theorem wasm_call_confined:
  assumes "guest_ready (cl_to call) w" "w_executing w = {}" "w_storage_writes w = {}" "w_storage_reads w = {}"
  shows "\<exists>r w'. wasm_call W w call fuel = Some (r, w') \<and>
    w_accounts w' = w_accounts w \<and> w_staking w' = w_staking w \<and> w_params w' = w_params w \<and> w_code w' = w_code w \<and>
    w_executing w' = {} \<and> w_storage_reads w' \<union> w_storage_writes w' \<subseteq> range (storage_key (cl_to call)) \<and>
    (\<forall>k. k \<notin> w_storage_writes w' \<longrightarrow> storage_get (w_storage w') k = storage_get (w_storage w) k)"
proof -
  have "same_slots (cl_to call) w w" by (simp add: same_slots_def)
  then obtain r w' where "wasm_call W w call fuel = Some (r, w')" "confined (cl_to call) w w'"
    using wasm_call_local [of call w w W fuel] assms by auto
  then show ?thesis using assms by (auto simp: confined_def)
qed

section \<open>Entering a running contract fails the call\<close>

primrec reaches_reenter :: "Address \<Rightarrow> 'r Guest \<Rightarrow> World \<Rightarrow> bool" where
  "reaches_reenter c (GDone r) w = False"
| "reaches_reenter c (GLoad slot k) w = (case sload w c slot of Some (v, w') \<Rightarrow> reaches_reenter c (k v) w' | None \<Rightarrow> False)"
| "reaches_reenter c (GStore slot v k) w = (case sstore w c slot v of Some w' \<Rightarrow> reaches_reenter c k w' | None \<Rightarrow> False)"
| "reaches_reenter c (GReenter abort k) w = True"

text \<open>What the run reports when the error of \<open>host_reenter\<close> aborts it, wherever it calls it.\<close>

primrec aborts_with :: "('r \<Rightarrow> bool) \<Rightarrow> 'r Guest \<Rightarrow> bool" where
  "aborts_with P (GDone r) = True"
| "aborts_with P (GLoad slot k) = (\<forall>v. aborts_with P (k v))"
| "aborts_with P (GStore slot v k) = aborts_with P k"
| "aborts_with P (GReenter abort k) = (P (abort ''reentrancy'') \<and> aborts_with P k)"

text \<open>The trap of an export, with the text of the host error in its rendering.\<close>

fun rendered :: "CallOutcome \<Rightarrow> bool" where
  "rendered (CallOk left) = False"
| "rendered (CallErr t left) = contains_text (to_ascii_lowercase t) ''reentrancy''"

lemma run_guest_reenters:
  assumes "\<And>w. c \<in> w_executing w \<Longrightarrow> enter w = Some (Err RWasmReentrancy, w)"
    "c \<in> w_executing w" "reaches_reenter c g w" "aborts_with P g"
  shows "\<exists>r w'. run_guest enter c g w = Some (r, w') \<and> P r"
  using assms(2-)
proof (induction g arbitrary: w)
  case (GLoad slot k)
  obtain v w' where s: "sload w c slot = Some (v, w')" "reaches_reenter c (k v) w'"
    using GLoad.prems(2) by (auto split: option.splits)
  then have "c \<in> w_executing w'" using sload_executing [OF s(1)] GLoad.prems(1) by simp
  then show ?case using GLoad.IH [OF rangeI [of k v], of w'] GLoad.prems(3) s by simp
next
  case (GStore slot v k)
  obtain w' where s: "sstore w c slot v = Some w'" "reaches_reenter c k w'"
    using GStore.prems(2) by (auto split: option.splits)
  then have "c \<in> w_executing w'" using sstore_executing [OF s(1)] GStore.prems(1) by simp
  then show ?case using GStore.IH [of w'] GStore.prems(3) s by simp
next
  case (GReenter abort k)
  show ?case using assms(1) [OF GReenter.prems(1)] GReenter.prems(3) by auto
qed simp

lemma run_engine_reenters:
  assumes "\<And>w. c \<in> w_executing w \<Longrightarrow> enter w = Some (Err RWasmReentrancy, w)"
    "c \<in> w_executing v" "bt_get (w_code v) c = Some code" "wt_module W code"
    "aborts_with (\<lambda>r. r = InstErr) (wt_instantiate W code fuel)"
    "\<And>func w'. run_guest enter c (wt_instantiate W code fuel) v = Some (InstOk func, w') \<Longrightarrow> aborts_with rendered func"
    "reaches_reenter c (wt_instantiate W code fuel) v \<or>
      (\<exists>func w'. run_guest enter c (wt_instantiate W code fuel) v = Some (InstOk func, w') \<and> reaches_reenter c func w')"
  shows "\<exists>w'. run_engine W enter v c fuel =
    Some (Err (if reaches_reenter c (wt_instantiate W code fuel) v then RWasmInvalid else RWasmReentrancy), w')"
proof (cases "reaches_reenter c (wt_instantiate W code fuel) v")
  case True
  obtain w' where "run_guest enter c (wt_instantiate W code fuel) v = Some (InstErr, w')"
    using run_guest_reenters [OF assms(1,2) True assms(5)] by auto
  then show ?thesis using True assms(3,4) by (simp add: run_engine_def)
next
  case False
  then obtain func w1 where f: "run_guest enter c (wt_instantiate W code fuel) v = Some (InstOk func, w1)" "reaches_reenter c func w1"
    using assms(7) by blast
  then have "c \<in> w_executing w1"
    using run_guest_guarded [of c enter enter v "wt_instantiate W code fuel", OF assms(1) assms(1)] assms(2) by simp
  then obtain r w' where "run_guest enter c func w1 = Some (r, w')" "rendered r"
    using run_guest_reenters [OF assms(1) _ f(2) assms(6) [OF f(1)]] by blast
  then show ?thesis using False f(1) assms(3,4) by (cases r) (simp_all add: run_engine_def map_trap_def)
qed

text \<open>
  C14. No reentrancy. When a contract asks the host to enter it again while it runs,
  the call fails and the second entry runs no code. The reason is the reentrancy
  reason when the exported function asks, provided the engine renders the text of
  a host error in its trap; when the start function of the module asks, the
  instantiation fails and the reason is that of an invalid module.
\<close>

theorem no_reentrancy:
  fixes W w call fuel code
  defines "c \<equiv> cl_to call" and "start \<equiv> wt_instantiate W code fuel"
    and "v \<equiv> w\<lparr>w_executing := insert (cl_to call) (w_executing w)\<rparr>"
  assumes "bt_get (w_code w) c = Some code" "wt_module W code" "c \<notin> w_executing w"
    and "aborts_with (\<lambda>r. r = InstErr) start"
    and "\<forall>func w1. run_guest (\<lambda>w. execute W 1 w c 0) c start v = Some (InstOk func, w1) \<longrightarrow> aborts_with rendered func"
    and "reaches_reenter c start v \<or>
      (\<exists>func w1. run_guest (\<lambda>w. execute W 1 w c 0) c start v = Some (InstOk func, w1) \<and> reaches_reenter c func w1)"
  shows "\<exists>w'. wasm_call W w call fuel =
      Some (Err (if reaches_reenter c start v then RWasmInvalid else RWasmReentrancy), w') \<and>
    execute W 1 v c 0 = Some (Err RWasmReentrancy, v)"
proof -
  let ?enter = "\<lambda>w. execute W (Suc 0) w c 0"
  have guard: "?enter u = Some (Err RWasmReentrancy, u)" if "c \<in> w_executing u" for u
    using that by (rule execute_guard)
  have v: "c \<in> w_executing v" "bt_get (w_code v) c = Some code" using assms(4) by (simp_all add: v_def c_def)
  obtain w' where "run_engine W ?enter v c fuel =
      Some (Err (if reaches_reenter c start v then RWasmInvalid else RWasmReentrancy), w')"
    using run_engine_reenters [OF guard v assms(5), of fuel] assms(7-9) unfolding start_def One_nat_def by blast
  then have "execute W 2 w c fuel =
      Some (Err (if reaches_reenter c start v then RWasmInvalid else RWasmReentrancy), w'\<lparr>w_executing := w_executing w' - {c}\<rparr>)"
    using assms(4,6) by (simp add: numeral_2_eq_2 v_def c_def)
  then show ?thesis
    using assms(4,5) guard [OF v(1)] by (simp add: wasm_call_def ok_or_def validate_wasm_def c_def)
qed

text \<open>A small engine for the examples: the first byte of a module selects its run.\<close>

definition toy_engine :: Wasmtime where
  "toy_engine =
    \<lparr>wt_module = (\<lambda>code. code \<noteq> []),
     wt_instantiate = (\<lambda>code fuel. if code = [3] then GReenter (\<lambda>_. InstErr) (GDone InstErr) else GDone (InstOk (
       if code = [1] then GLoad 0 (\<lambda>v. GStore 0 (v + 1) (GDone (CallOk (fuel - 2))))
       else if code = [2] then GStore 0 9 (GReenter (\<lambda>msg. CallErr (''error while executing: '' @ msg) fuel) (GDone (CallOk fuel)))
       else GDone (CallErr ''all fuel consumed'' 0))))\<rparr>"

definition toy_world :: "bytes \<Rightarrow> World" where
  "toy_world code =
    \<lparr>w_accounts = TEmpty, w_storage = TEmpty, w_staking = staking_default, w_params = params_new,
     w_code = [(replicate 32 5, code)], w_executing = {}, w_storage_reads = {}, w_storage_writes = {},
     w_versioned = [], w_wasm_fuel_left = 0\<rparr>"

lemma toy_world_ready: "length c = 32 \<Longrightarrow> guest_ready c (toy_world code)"
  by (simp add: guest_ready_def toy_world_def slots_ok_def)

theorem wasm_call_confined_witness:
  "\<exists>r w'. wasm_call toy_engine (toy_world [1]) \<lparr>cl_to = replicate 32 5, cl_data = []\<rparr> 10 = Some (r, w') \<and>
     w_accounts w' = TEmpty \<and> w_executing w' = {}"
  using wasm_call_confined [of "\<lparr>cl_to = replicate 32 5, cl_data = []\<rparr>" "toy_world [1]" toy_engine 10]
    toy_world_ready [of "replicate 32 5" "[1]"] by (auto simp: toy_world_def)

theorem no_reentrancy_witness:
  "(\<exists>w'. wasm_call toy_engine (toy_world [2]) \<lparr>cl_to = replicate 32 5, cl_data = []\<rparr> 10 = Some (Err RWasmReentrancy, w')) \<and>
   (\<exists>w'. wasm_call toy_engine (toy_world [3]) \<lparr>cl_to = replicate 32 5, cl_data = []\<rparr> 10 = Some (Err RWasmInvalid, w'))"
proof -
  let ?c = "replicate 32 5 :: bytes" and ?call = "\<lparr>cl_to = replicate 32 5, cl_data = []\<rparr>"
  let ?w = "(toy_world [2])\<lparr>w_executing := insert ?c (w_executing (toy_world [2]))\<rparr>"
  have ok: "slots_ok (w_versioned ?w)" by (simp add: toy_world_def slots_ok_def)
  obtain v where store: "sstore ?w ?c 0 9 = Some v"
    by (rule sstore_value [OF ok, of ?c 0 9]) (simp, blast)
  have "contains_text (to_ascii_lowercase (''error while executing: '' @ ''reentrancy'')) ''reentrancy''"
    by code_simp
  then have "\<exists>w'. wasm_call toy_engine (toy_world [2]) ?call 10 = Some (Err RWasmReentrancy, w')"
    using no_reentrancy [of "toy_world [2]" ?call "[2]" toy_engine 10] store
    by (auto simp: toy_world_def toy_engine_def)
  moreover have "\<exists>w'. wasm_call toy_engine (toy_world [3]) ?call 10 = Some (Err RWasmInvalid, w')"
    using no_reentrancy [of "toy_world [3]" ?call "[3]" toy_engine 10]
    by (auto simp: toy_world_def toy_engine_def)
  ultimately show ?thesis by blast
qed

end
