(* ===== verification/Exec_Seq.thy ===== *)
theory Exec_Seq
  imports Exec_Wasm
begin

text \<open>
  The sequential state transition (\<open>seq.rs\<close> of \<open>crates/execution\<close>). Signatures, the
  hash and the wasm engine are parameters; \<open>None\<close> is a panic. The lemmas show that a
  transaction never panics, that a rejected one changes nothing, that no
  transaction is accepted twice and that none creates tokens.
\<close>

section \<open>Applying a transaction (seq.rs)\<close>

definition app_hash :: "(bytes \<Rightarrow> Hash) \<Rightarrow> Hash \<Rightarrow> Hash \<Rightarrow> Hash \<Rightarrow> Hash" where
  "app_hash H st_root tx_r rec_root = hash_to_array H (st_root @ tx_r @ rec_root)"

definition sender_address :: "(bytes \<Rightarrow> Hash) \<Rightarrow> Ed25519 \<Rightarrow> SignedTx \<Rightarrow> (Address, RejectReason) result" where
  "sender_address H E signd =
    and_then (map_err (\<lambda>_. RSignature) (public_key_from_bytes E (st_public_key signd))) (\<lambda>pk. Ok (from_ed25519 H E pk))"

definition fail :: "RejectReason \<Rightarrow> Receipt" where
  "fail reason = \<lparr>rc_success = False, rc_gas_used = 0, rc_events = [], rc_reason = Some reason\<rparr>"

definition success :: "u64 \<Rightarrow> Event \<Rightarrow> Receipt" where
  "success gas e = \<lparr>rc_success = True, rc_gas_used = gas, rc_events = [e], rc_reason = None\<rparr>"

definition bump_nonce :: "Nonce \<Rightarrow> Nonce" where
  "bump_nonce n = unwrap_or n (checked_add n 1)"

definition stake_debit :: "StakePayload \<Rightarrow> Amount" where
  "stake_debit stake =
    (case sp_kind stake of
       Bond \<Rightarrow> sp_amount stake | Delegate \<Rightarrow> sp_amount stake
     | Unbond \<Rightarrow> 0 | Undelegate \<Rightarrow> 0 | Withdraw \<Rightarrow> 0)"

definition apply_stake :: "World \<Rightarrow> Address \<Rightarrow> Tx \<Rightarrow> Account \<Rightarrow> u64 \<Rightarrow> StakePayload \<Rightarrow> (Receipt \<times> World) option" where
  "apply_stake world addr tx sender gas stake =
    (let debit = stake_debit stake in
     case value_balance_check tx debit sender of
       Err e \<Rightarrow> Some (fail (reason_of_check e), world)
     | Ok _ \<Rightarrow>
         (case apply_stake_tx (w_staking world) (w_params world) addr tx of
            (Err r, book) \<Rightarrow> Some (fail r, world\<lparr>w_staking := book\<rparr>)
          | (Ok _, book) \<Rightarrow>
              do {
                let world = world\<lparr>w_staking := book\<rparr>;
                pay \<leftarrow> checked_add debit (tx_max_fee tx);
                rest \<leftarrow> checked_sub (ac_balance sender) pay;
                let bal = (if sp_kind stake = Withdraw then unwrap_or rest (checked_add rest (sp_amount stake)) else rest);
                let sender = sender\<lparr>ac_balance := bal, ac_nonce := bump_nonce (ac_nonce sender)\<rparr>;
                Some (success gas (StakeEvent addr (sp_amount stake)),
                      world\<lparr>w_accounts := accounts_put (w_accounts world) addr sender\<rparr>)
              }))"

definition charge_fee :: "Tx \<Rightarrow> Account \<Rightarrow> Account option" where
  "charge_fee tx sender =
    do {
      bal \<leftarrow> checked_sub (ac_balance sender) (tx_max_fee tx);
      Some (sender\<lparr>ac_balance := bal, ac_nonce := bump_nonce (ac_nonce sender)\<rparr>)
    }"

definition apply_deploy ::
  "(bytes \<Rightarrow> Hash) \<Rightarrow> Wasmtime \<Rightarrow> World \<Rightarrow> Address \<Rightarrow> Tx \<Rightarrow> Account \<Rightarrow> u64 \<Rightarrow> Deploy \<Rightarrow> (Receipt \<times> World) option" where
  "apply_deploy H W world addr tx sender gas deploy =
    (case value_balance_check tx 0 sender of
       Err e \<Rightarrow> Some (fail (reason_of_check e), world)
     | Ok _ \<Rightarrow>
         if \<not> is_ok (prepare W tx deploy) then Some (fail RWasmInvalid, world)
         else do {
           let snapshot = world;
           sender \<leftarrow> charge_fee tx sender;
           let world = world\<lparr>w_accounts := accounts_put (w_accounts world) addr sender\<rparr>;
           let created = create_address H addr (tx_nonce tx);
           (case install H W world created (dp_code deploy) of
              (Ok _, world) \<Rightarrow> Some (success gas (WasmEvent addr created), world)
            | (Err r, _) \<Rightarrow> Some (fail r, snapshot))
         })"

definition apply_call ::
  "Wasmtime \<Rightarrow> World \<Rightarrow> Address \<Rightarrow> Tx \<Rightarrow> Account \<Rightarrow> u64 \<Rightarrow> Call \<Rightarrow> (Receipt \<times> World) option" where
  "apply_call W world addr tx sender gas call =
    (case value_balance_check tx 0 sender of
       Err e \<Rightarrow> Some (fail (reason_of_check e), world)
     | Ok _ \<Rightarrow>
         if bt_get (w_code world) (cl_to call) = None then Some (fail RWasmNoCode, world)
         else do {
           let snapshot = world;
           sender \<leftarrow> charge_fee tx sender;
           let world = world\<lparr>w_accounts := accounts_put (w_accounts world) addr sender\<rparr>;
           let fuel = fuel_budget tx gas;
           (res, world) \<leftarrow> wasm_call W world call fuel;
           (case res of
              Ok _ \<Rightarrow> Some (success gas (WasmEvent addr (cl_to call)), world)
            | Err r \<Rightarrow> Some (fail r, snapshot))
         })"

definition apply_transfer :: "World \<Rightarrow> Address \<Rightarrow> Tx \<Rightarrow> Account \<Rightarrow> u64 \<Rightarrow> Transfer \<Rightarrow> (Receipt \<times> World) option" where
  "apply_transfer world addr tx sender gas transfer =
    (case balance_check tx transfer sender of
       Err e \<Rightarrow> Some (fail (reason_of_check e), world)
     | Ok _ \<Rightarrow>
         do {
           pay \<leftarrow> checked_add (tr_amount transfer) (tx_max_fee tx);
           bal \<leftarrow> checked_sub (ac_balance sender) pay;
           let sender = sender\<lparr>ac_balance := bal, ac_nonce := bump_nonce (ac_nonce sender)\<rparr>;
           let accounts = accounts_put (w_accounts world) addr sender;
           let recv = unwrap_or account_empty (accounts_get accounts (tr_to transfer));
           let recv = recv\<lparr>ac_balance := unwrap_or (ac_balance recv) (checked_add (ac_balance recv) (tr_amount transfer))\<rparr>;
           Some (success gas (TransferEvent addr (tr_to transfer) (tr_amount transfer)),
                 world\<lparr>w_accounts := accounts_put accounts (tr_to transfer) recv\<rparr>)
         })"

definition apply_payload ::
  "(bytes \<Rightarrow> Hash) \<Rightarrow> Wasmtime \<Rightarrow> World \<Rightarrow> Address \<Rightarrow> Tx \<Rightarrow> Account \<Rightarrow> u64 \<Rightarrow> (Receipt \<times> World) option" where
  "apply_payload H W world addr tx sender gas =
    (case as_stake tx of
       Some stake \<Rightarrow> apply_stake world addr tx sender gas stake
     | None \<Rightarrow>
         (case as_deploy tx of
            Some deploy \<Rightarrow> apply_deploy H W world addr tx sender gas deploy
          | None \<Rightarrow>
              (case as_call tx of
                 Some call \<Rightarrow> apply_call W world addr tx sender gas call
               | None \<Rightarrow>
                   (case as_transfer tx of
                      None \<Rightarrow> Some (fail RGas, world)
                    | Some transfer \<Rightarrow> apply_transfer world addr tx sender gas transfer))))"

definition clear_sets :: "World \<Rightarrow> World" where
  "clear_sets world = world\<lparr>w_storage_reads := {}, w_storage_writes := {}, w_executing := {}\<rparr>"

text \<open>The signature check encodes the transaction, which panics for a stake payload without its target.\<close>

definition apply_tx ::
  "(bytes \<Rightarrow> Hash) \<Rightarrow> Ed25519 \<Rightarrow> Wasmtime \<Rightarrow> World \<Rightarrow> SignedTx \<Rightarrow> (Receipt \<times> World) option" where
  "apply_tx H E W world signd =
    do {
      let world = clear_sets world;
      _ \<leftarrow> (case public_key_from_bytes E (st_public_key signd) of Err _ \<Rightarrow> Some [] | Ok _ \<Rightarrow> tx_encode (st_tx signd));
      if \<not> is_ok (verify_ed25519 E signd) then Some (fail RSignature, world)
      else case sender_address H E signd of
        Err r \<Rightarrow> Some (fail r, world)
      | Ok addr \<Rightarrow>
          (let tx = st_tx signd;
               sender = unwrap_or account_empty (accounts_get (w_accounts world) addr)
           in case nonce_check tx sender of
                Err e \<Rightarrow> Some (fail (reason_of_check e), world)
              | Ok _ \<Rightarrow>
                  (case gas_meter tx of
                     Err e \<Rightarrow> Some (fail (reason_of_gas e), world)
                   | Ok gas \<Rightarrow> apply_payload H W world addr tx sender gas))
    }"

section \<open>Applying a block\<close>

fun apply_txs ::
  "(bytes \<Rightarrow> Hash) \<Rightarrow> Ed25519 \<Rightarrow> Wasmtime \<Rightarrow> World \<Rightarrow> SignedTx list \<Rightarrow> (Receipt list \<times> World) option" where
  "apply_txs H E W world [] = Some ([], world)"
| "apply_txs H E W world (signd # rest) =
    do {
      (r, world) \<leftarrow> apply_tx H E W world signd;
      (rs, world) \<leftarrow> apply_txs H E W world rest;
      Some (r # rs, world)
    }"

definition apply_block_with_roots ::
  "(bytes \<Rightarrow> Hash) \<Rightarrow> Ed25519 \<Rightarrow> Wasmtime \<Rightarrow> World \<Rightarrow> Block
    \<Rightarrow> (World \<times> Receipt list \<times> Hash \<times> Hash \<times> Hash \<times> Hash) option" where
  "apply_block_with_roots H E W pre block =
    do {
      (receipts, world) \<leftarrow> apply_txs H E W pre (bk_txs block);
      let encoded = map receipt_encode receipts;
      let tx_r = tx_root_signed H (bk_txs block);
      let rec_r = receipts_root H encoded;
      let st = commit_state_root H world;
      let app = app_hash H st tx_r rec_r;
      Some (world, receipts, app, st, tx_r, rec_r)
    }"

definition apply_block ::
  "(bytes \<Rightarrow> Hash) \<Rightarrow> Ed25519 \<Rightarrow> Wasmtime \<Rightarrow> World \<Rightarrow> Block \<Rightarrow> (World \<times> Receipt list \<times> Hash) option" where
  "apply_block H E W pre block =
    do {
      (receipts, world) \<leftarrow> apply_txs H E W pre (bk_txs block);
      let encoded = map receipt_encode receipts;
      let tx_r = tx_root_signed H (bk_txs block);
      let rec_root = receipts_root H encoded;
      let st = commit_state_root H world;
      let app = app_hash H st tx_r rec_root;
      Some (world, receipts, app)
    }"

definition events_of :: "Receipt \<Rightarrow> Event list" where
  "events_of receipt = rc_events receipt"

section \<open>Well-formed worlds\<close>

definition accounts_ok :: "AccountTrie \<Rightarrow> bool" where
  "accounts_ok t \<longleftrightarrow> trie_ok t \<and> (\<forall>k b. t_get t (bytes_to_nibbles k) = Some b \<longrightarrow> is_ok (account_decode b))"

definition world_ok :: "World \<Rightarrow> bool" where
  "world_ok w \<longleftrightarrow> accounts_ok (w_accounts w) \<and> trie_ok (w_storage w) \<and> staking_ok (w_staking w) \<and> slots_ok (w_versioned w)"

lemma accounts_ok_put: "accounts_ok t \<Longrightarrow> wf_account a \<Longrightarrow> accounts_ok (accounts_put t addr a)"
  using trie_ok_wf [of t]
  by (auto simp: accounts_ok_def accounts.ok_put accounts_put_def t_get_insert trie_ok_put account_decode_encode split: if_splits)

lemma accounts_ok_empty [simp]: "accounts_ok TEmpty"
  by (simp add: accounts_ok_def)

lemma accounts_get_wf: "accounts_get t a = Some acc \<Longrightarrow> wf_account acc"
  by (auto simp: accounts_get_def decoded_def dest: account_decode_OkD split: option.splits result.splits)

lemma wf_account_empty [simp]: "wf_account account_empty"
  by (simp add: wf_account_def account_empty_def)

lemma wf_account_lookup [simp]: "wf_account (unwrap_or account_empty (accounts_get t a))"
  using accounts_get_wf [of t a] by (cases "accounts_get t a") simp_all

lemma wf_account_update [simp]:
  "wf_account (a\<lparr>ac_balance := b, ac_nonce := n\<rparr>) \<longleftrightarrow> wf_account a" "wf_account (a\<lparr>ac_balance := b\<rparr>) \<longleftrightarrow> wf_account a"
  "wf_account (a\<lparr>ac_code_hash := h\<rparr>) \<longleftrightarrow> length h = 32"
  by (simp_all add: wf_account_def)

lemma accounts_ok_trie: "accounts_ok t \<Longrightarrow> trie_ok t"
  by (simp add: accounts_ok_def)

lemma clear_sets_simps [simp]:
  "w_accounts (clear_sets w) = w_accounts w" "w_storage (clear_sets w) = w_storage w" "w_staking (clear_sets w) = w_staking w"
  "w_params (clear_sets w) = w_params w" "w_code (clear_sets w) = w_code w" "w_versioned (clear_sets w) = w_versioned w"
  "w_executing (clear_sets w) = {}" "w_storage_reads (clear_sets w) = {}" "w_storage_writes (clear_sets w) = {}"
  by (simp_all add: clear_sets_def)

lemma world_ok_clear [simp]: "world_ok (clear_sets w) = world_ok w"
  by (simp add: world_ok_def)

lemma receipt_simps [simp]:
  "rc_success (fail e) = False" "rc_gas_used (fail e) = 0" "rc_events (fail e) = []" "rc_reason (fail e) = Some e"
  "rc_success (success g ev) = True" "rc_gas_used (success g ev) = g" "rc_events (success g ev) = [ev]"
  "rc_reason (success g ev) = None"
  by (simp_all add: fail_def success_def)

section \<open>What each payload does\<close>

text \<open>The account a sender pays from: the balance check leaves the subtraction defined.\<close>

definition paid :: "Account \<Rightarrow> Amount \<Rightarrow> Tx \<Rightarrow> Account" where
  "paid sender amount tx = sender\<lparr>ac_balance := ac_balance sender - (amount + tx_max_fee tx), ac_nonce := bump_nonce (ac_nonce sender)\<rparr>"

lemma value_balance_check_pays:
  assumes "value_balance_check tx amount sender = Ok ()"
  shows "checked_add amount (tx_max_fee tx) = Some (amount + tx_max_fee tx)"
    "checked_sub (ac_balance sender) (amount + tx_max_fee tx) = Some (ac_balance (paid sender amount tx))"
    "unat (ac_balance (paid sender amount tx)) + unat amount + unat (tx_max_fee tx) = unat (ac_balance sender)"
proof -
  obtain need left where 1: "checked_add amount (tx_max_fee tx) = Some need" "checked_sub (ac_balance sender) need = Some left"
    "unat left + unat amount + unat (tx_max_fee tx) = unat (ac_balance sender)"
    using value_balance_check_Ok [OF assms] by blast
  moreover have "need = amount + tx_max_fee tx" using 1(1) by (auto simp: checked_add_def split: if_splits)
  moreover have "left = ac_balance sender - need" using 1(2) by (auto simp: checked_sub_def split: if_splits)
  ultimately show "checked_add amount (tx_max_fee tx) = Some (amount + tx_max_fee tx)"
    "checked_sub (ac_balance sender) (amount + tx_max_fee tx) = Some (ac_balance (paid sender amount tx))"
    "unat (ac_balance (paid sender amount tx)) + unat amount + unat (tx_max_fee tx) = unat (ac_balance sender)"
    by (simp_all add: paid_def)
qed

lemma wf_paid [simp]: "wf_account (paid sender amount tx) = wf_account sender"
  by (simp add: paid_def)

lemma nonce_paid [simp]: "ac_nonce (paid sender amount tx) = bump_nonce (ac_nonce sender)"
  by (simp add: paid_def)

lemma account_update_commute: "a\<lparr>ac_nonce := n, ac_balance := b\<rparr> = a\<lparr>ac_balance := b, ac_nonce := n\<rparr>" for a :: Account
  by (cases a) simp

lemma charge_fee_pays: "value_balance_check tx 0 sender = Ok () \<Longrightarrow> charge_fee tx sender = Some (paid sender 0 tx)"
  using value_balance_check_pays(2) [of tx 0 sender] by (auto simp: charge_fee_def paid_def)

text \<open>The outcome of each payload, with its panics gone.\<close>

lemma apply_stake_outcome:
  "apply_stake w addr tx sender gas stake =
    (case value_balance_check tx (stake_debit stake) sender of
       Err e \<Rightarrow> Some (fail (reason_of_check e), w)
     | Ok _ \<Rightarrow>
         (case apply_stake_tx (w_staking w) (w_params w) addr tx of
            (Err r, book) \<Rightarrow> Some (fail r, w\<lparr>w_staking := book\<rparr>)
          | (Ok _, book) \<Rightarrow>
              let p = paid sender (stake_debit stake) tx;
                  q = (if sp_kind stake = Withdraw
                       then p\<lparr>ac_balance := unwrap_or (ac_balance p) (checked_add (ac_balance p) (sp_amount stake))\<rparr> else p)
              in Some (success gas (StakeEvent addr (sp_amount stake)),
                       w\<lparr>w_staking := book, w_accounts := accounts_put (w_accounts w) addr q\<rparr>)))"
proof (cases "value_balance_check tx (stake_debit stake) sender")
  case (Ok u)
  then have "value_balance_check tx (stake_debit stake) sender = Ok ()" by simp
  note pay = value_balance_check_pays [OF this]
  show ?thesis
    using pay(1,2) Ok by (auto simp: apply_stake_def Let_def paid_def account_update_commute split: result.split prod.split)
qed (simp add: apply_stake_def Let_def)

lemma apply_deploy_outcome:
  "apply_deploy H W w addr tx sender gas deploy =
    (case value_balance_check tx 0 sender of
       Err e \<Rightarrow> Some (fail (reason_of_check e), w)
     | Ok _ \<Rightarrow>
         if \<not> is_ok (prepare W tx deploy) then Some (fail RWasmInvalid, w)
         else let v = w\<lparr>w_accounts := accounts_put (w_accounts w) addr (paid sender 0 tx)\<rparr>;
                  created = create_address H addr (tx_nonce tx);
                  acc = (unwrap_or account_empty (accounts_get (w_accounts v) created))\<lparr>ac_code_hash := hash_to_array H (dp_code deploy)\<rparr>
              in Some (success gas (WasmEvent addr created),
                       v\<lparr>w_accounts := accounts_put (w_accounts v) created acc, w_code := bt_insert created (dp_code deploy) (w_code v)\<rparr>))"
proof (cases "value_balance_check tx 0 sender")
  case (Ok u)
  then have "charge_fee tx sender = Some (paid sender 0 tx)" by (simp add: charge_fee_pays)
  moreover have "validate_wasm W (dp_code deploy) = Ok ()" if "is_ok (prepare W tx deploy)"
    using that by (auto simp: prepare_def validate_wasm_def is_ok_iff result_simps split: if_splits)
  ultimately show ?thesis using Ok by (auto simp: apply_deploy_def Let_def install_def)
qed (simp add: apply_deploy_def)

lemma apply_transfer_outcome:
  "apply_transfer w addr tx sender gas transfer =
    (case value_balance_check tx (tr_amount transfer) sender of
       Err e \<Rightarrow> Some (fail (reason_of_check e), w)
     | Ok _ \<Rightarrow>
         let accs = accounts_put (w_accounts w) addr (paid sender (tr_amount transfer) tx);
             recv = unwrap_or account_empty (accounts_get accs (tr_to transfer));
             recv = recv\<lparr>ac_balance := unwrap_or (ac_balance recv) (checked_add (ac_balance recv) (tr_amount transfer))\<rparr>
         in Some (success gas (TransferEvent addr (tr_to transfer) (tr_amount transfer)),
                  w\<lparr>w_accounts := accounts_put accs (tr_to transfer) recv\<rparr>))"
proof (cases "value_balance_check tx (tr_amount transfer) sender")
  case (Ok u)
  then have "value_balance_check tx (tr_amount transfer) sender = Ok ()" by simp
  note pay = value_balance_check_pays [OF this]
  show ?thesis using pay(1,2) Ok by (simp add: apply_transfer_def balance_check_def Let_def paid_def)
qed (simp add: apply_transfer_def balance_check_def)

lemma apply_call_outcome:
  "apply_call W w addr tx sender gas call =
    (case value_balance_check tx 0 sender of
       Err e \<Rightarrow> Some (fail (reason_of_check e), w)
     | Ok _ \<Rightarrow>
         if bt_get (w_code w) (cl_to call) = None then Some (fail RWasmNoCode, w)
         else do {
           (res, v) \<leftarrow> wasm_call W (w\<lparr>w_accounts := accounts_put (w_accounts w) addr (paid sender 0 tx)\<rparr>) call (fuel_budget tx gas);
           (case res of
              Ok _ \<Rightarrow> Some (success gas (WasmEvent addr (cl_to call)), v)
            | Err r \<Rightarrow> Some (fail r, w))
         })"
  using charge_fee_pays [of tx sender] by (cases "value_balance_check tx 0 sender") (simp_all add: apply_call_def Let_def)

section \<open>A transaction never panics\<close>

lemma wasm_call_total:
  assumes "guest_ready (cl_to call) w" "cl_to call \<notin> w_executing w"
  shows "\<exists>r w'. wasm_call W w call fuel = Some (r, w') \<and> guest_ready (cl_to call) w' \<and> confined (cl_to call) w w'"
  using wasm_call_local [of call w w W fuel] assms by (auto simp: same_slots_def)

lemma apply_call_SomeD:
  assumes "apply_call W w addr tx sender gas call = Some (r, w')"
  shows "(\<exists>e. r = fail e) \<and> w' = w \<or> value_balance_check tx 0 sender = Ok () \<and> r = success gas (WasmEvent addr (cl_to call)) \<and>
    wasm_call W (w\<lparr>w_accounts := accounts_put (w_accounts w) addr (paid sender 0 tx)\<rparr>) call (fuel_budget tx gas) = Some (Ok (), w')"
proof (cases "value_balance_check tx 0 sender = Ok () \<and> bt_get (w_code w) (cl_to call) \<noteq> None")
  case False
  then show ?thesis
    using assms by (cases "value_balance_check tx 0 sender") (auto simp: apply_call_outcome split: if_splits)
next
  case True
  then obtain res v where "wasm_call W (w\<lparr>w_accounts := accounts_put (w_accounts w) addr (paid sender 0 tx)\<rparr>) call (fuel_budget tx gas) = Some (res, v)"
    using assms by (auto simp: apply_call_outcome bind_eq_Some_conv)
  then show ?thesis using True assms by (cases res) (auto simp: apply_call_outcome)
qed

lemma apply_payload_total:
  assumes "world_ok w" "w_executing w = {}" "wf_tx tx" "wf_account sender" "\<And>b. length (H b) = 32"
  obtains r w' where "apply_payload H W w addr tx sender gas = Some (r, w')" "world_ok w'"
proof -
  have acc: "accounts_ok (w_accounts w)" using assms(1) by (simp add: world_ok_def)
  have "\<exists>r w'. apply_payload H W w addr tx sender gas = Some (r, w') \<and> world_ok w'"
  proof (cases "tx_payload tx")
    case (TransferP t)
    then have "apply_payload H W w addr tx sender gas = apply_transfer w addr tx sender gas t"
      by (simp add: apply_payload_def as_stake_def as_deploy_def as_call_def as_transfer_def)
    then show ?thesis
      using assms acc by (auto simp: apply_transfer_outcome Let_def world_ok_def accounts_ok_put split: result.splits)
  next
    case (StakeP s)
    then have "apply_payload H W w addr tx sender gas = apply_stake w addr tx sender gas s"
      by (simp add: apply_payload_def as_stake_def)
    moreover have "staking_ok (snd (apply_stake_tx (w_staking w) (w_params w) addr tx))"
      using assms(1) by (intro apply_stake_ok) (simp add: world_ok_def)
    ultimately show ?thesis
      using assms acc by (auto simp: apply_stake_outcome Let_def world_ok_def accounts_ok_put split: result.splits prod.splits)
  next
    case (DeployP d)
    then have "apply_payload H W w addr tx sender gas = apply_deploy H W w addr tx sender gas d"
      by (simp add: apply_payload_def as_stake_def as_deploy_def)
    then show ?thesis
      using assms acc by (auto simp: apply_deploy_outcome Let_def world_ok_def accounts_ok_put hash_to_array_def split: result.splits)
  next
    case (CallP c)
    let ?v = "w\<lparr>w_accounts := accounts_put (w_accounts w) addr (paid sender 0 tx)\<rparr>"
    have "guest_ready (cl_to c) ?v"
      using assms(1,3) CallP by (simp add: guest_ready_def world_ok_def wf_tx_def)
    then obtain r w' where r: "wasm_call W ?v c (fuel_budget tx gas) = Some (r, w')" "guest_ready (cl_to c) w'" "confined (cl_to c) ?v w'"
      using wasm_call_total [of c ?v W "fuel_budget tx gas"] assms(2) by auto
    have "world_ok w'" using r(2,3) assms acc by (simp add: world_ok_def guest_ready_def confined_def accounts_ok_put)
    moreover have "apply_payload H W w addr tx sender gas = apply_call W w addr tx sender gas c"
      using CallP by (simp add: apply_payload_def as_stake_def as_deploy_def as_call_def)
    ultimately show ?thesis
      using r(1) assms(1) by (cases r) (auto simp: apply_call_outcome split: result.splits)
  qed
  then show thesis using that by blast
qed

lemma apply_tx_total:
  assumes "world_ok w" "wf_tx (st_tx signd)" "\<And>b. length (H b) = 32"
  obtains r w' where "apply_tx H E W w signd = Some (r, w')" "world_ok w'"
proof -
  have enc: "tx_encode (st_tx signd) = Some (tx_bytes (st_tx signd))" by (rule tx_encode_wf [OF assms(2)])
  have "\<exists>r w'. apply_payload H W (clear_sets w) addr (st_tx signd) (unwrap_or account_empty (accounts_get (w_accounts w) addr)) gas =
      Some (r, w') \<and> world_ok w'" for addr gas
    using apply_payload_total [of "clear_sets w" "st_tx signd" _ H W addr gas, OF _ _ assms(2) wf_account_lookup assms(3)] assms(1)
    by (metis clear_sets_simps(7) world_ok_clear)
  then have "\<exists>r w'. apply_tx H E W w signd = Some (r, w') \<and> world_ok w'"
    using assms(1) by (simp add: apply_tx_def Let_def enc split: result.split)
  then show thesis using that by blast
qed

section \<open>A rejected transaction changes nothing\<close>

lemma apply_payload_failed:
  assumes "apply_payload H W w addr tx sender gas = Some (r, w')" "\<not> rc_success r" "world_ok w"
  shows "\<exists>e m. r = fail e \<and> w' = w\<lparr>w_staking := (w_staking w)\<lparr>sk_operator := m\<rparr>\<rparr>"
proof -
  have same: "\<exists>m. w = w\<lparr>w_staking := (w_staking w)\<lparr>sk_operator := m\<rparr>\<rparr>"
    by (rule exI [of _ "sk_operator (w_staking w)"]) simp
  have stake: "\<exists>m. book = (w_staking w)\<lparr>sk_operator := m\<rparr>"
    if "apply_stake_tx (w_staking w) (w_params w) addr tx = (Err e, book)" for e book
    using apply_stake_failed(1) [OF that] assms(3) by (simp add: world_ok_def)
  show ?thesis
  proof (cases "tx_payload tx")
    case (TransferP t)
    then have "r = fail (reason_of_check e) \<and> w' = w" if "value_balance_check tx (tr_amount t) sender = Err e" for e
      using assms(1) that
      by (simp add: apply_payload_def as_stake_def as_deploy_def as_call_def as_transfer_def apply_transfer_outcome)
    moreover have "value_balance_check tx (tr_amount t) sender \<noteq> Ok u" for u
      using assms(1,2) TransferP
      by (auto simp: apply_payload_def as_stake_def as_deploy_def as_call_def as_transfer_def apply_transfer_outcome Let_def)
    ultimately show ?thesis using same by (cases "value_balance_check tx (tr_amount t) sender") blast+
  next
    case (StakeP s)
    then have "apply_stake w addr tx sender gas s = Some (r, w')" using assms(1) by (simp add: apply_payload_def as_stake_def)
    then have "(\<exists>e. r = fail e) \<and> (w' = w \<or>
        (\<exists>e book. apply_stake_tx (w_staking w) (w_params w) addr tx = (Err e, book) \<and> w' = w\<lparr>w_staking := book\<rparr>))"
      using assms(2) by (auto simp: apply_stake_outcome Let_def split: result.splits prod.splits)
    then show ?thesis using same stake by blast
  next
    case (DeployP d)
    then have "apply_deploy H W w addr tx sender gas d = Some (r, w')"
      using assms(1) by (simp add: apply_payload_def as_stake_def as_deploy_def)
    then have "w' = w \<and> (\<exists>e. r = fail e)"
      using assms(2) by (auto simp: apply_deploy_outcome Let_def split: result.splits if_splits)
    then show ?thesis using same by blast
  next
    case (CallP c)
    then have "apply_call W w addr tx sender gas c = Some (r, w')"
      using assms(1) by (simp add: apply_payload_def as_stake_def as_deploy_def as_call_def)
    then have "w' = w \<and> (\<exists>e. r = fail e)" using assms(2) apply_call_SomeD [of W w addr tx sender gas c r w'] by auto
    then show ?thesis using same by blast
  qed
qed

text \<open>Splitting \<open>apply_tx\<close>: it rejects with the world as it was, or the payload decides.\<close>

lemma apply_tx_cases:
  assumes "apply_tx H E W w signd = Some (r, w')"
  obtains (rejected) e where "r = fail e" "w' = clear_sets w"
  | (applied) addr gas where "is_ok (verify_ed25519 E signd)" "sender_address H E signd = Ok addr"
    "ac_nonce (unwrap_or account_empty (accounts_get (w_accounts w) addr)) = tx_nonce (st_tx signd)"
    "gas_meter (st_tx signd) = Ok gas"
    "apply_payload H W (clear_sets w) addr (st_tx signd) (unwrap_or account_empty (accounts_get (w_accounts w) addr)) gas = Some (r, w')"
proof -
  let ?sender = "\<lambda>addr. unwrap_or account_empty (accounts_get (w_accounts w) addr)"
  show thesis
  proof (cases "is_ok (verify_ed25519 E signd)")
    case False
    then show thesis using assms rejected by (auto simp: apply_tx_def Let_def bind_eq_Some_conv)
  next
    case True
    show thesis
    proof (cases "sender_address H E signd")
      case (Err e)
      then show thesis using assms rejected True by (auto simp: apply_tx_def Let_def bind_eq_Some_conv)
    next
      case (Ok addr)
      show thesis
      proof (cases "ac_nonce (?sender addr) = tx_nonce (st_tx signd)")
        case False
        then show thesis using assms rejected True Ok by (auto simp: apply_tx_def Let_def bind_eq_Some_conv nonce_check_def)
      next
        case nonce: True
        show thesis
        proof (cases "gas_meter (st_tx signd)")
          case (Err e)
          then show thesis using assms rejected True Ok nonce by (auto simp: apply_tx_def Let_def bind_eq_Some_conv nonce_check_def)
        next
          case gas: (Ok gas)
          then have "apply_payload H W (clear_sets w) addr (st_tx signd) (?sender addr) gas = Some (r, w')"
            using assms True Ok nonce by (auto simp: apply_tx_def Let_def bind_eq_Some_conv nonce_check_def)
          then show thesis using applied True Ok nonce gas by blast
        qed
      qed
    qed
  qed
qed

lemma apply_tx_failed:
  assumes "apply_tx H E W w signd = Some (r, w')" "\<not> rc_success r" "world_ok w"
  obtains e m where "r = fail e" "w' = (clear_sets w)\<lparr>w_staking := (w_staking w)\<lparr>sk_operator := m\<rparr>\<rparr>"
  using assms(1)
proof (cases rule: apply_tx_cases)
  case (rejected e)
  then show thesis using that [of e "sk_operator (w_staking w)"] by simp
next
  case (applied addr gas)
  then show thesis using apply_payload_failed [OF applied(5) assms(2)] assms(3) that by auto
qed

section \<open>Nonces and replay\<close>

definition nonce_of :: "AccountTrie \<Rightarrow> Address \<Rightarrow> Nonce" where
  "nonce_of t a = ac_nonce (unwrap_or account_empty (accounts_get t a))"

lemma nonce_of_put: "accounts_ok t \<Longrightarrow> wf_account acc \<Longrightarrow> nonce_of (accounts_put t a acc) x = (if x = a then ac_nonce acc else nonce_of t x)"
  by (simp add: nonce_of_def accounts.get_put accounts_ok_trie)

lemma unat_bump_nonce: "unat n \<le> unat (bump_nonce n)" "n \<noteq> - 1 \<Longrightarrow> unat (bump_nonce n) = Suc (unat n)"
proof -
  show "unat n \<le> unat (bump_nonce n)"
    by (cases "checked_add n 1") (auto simp: bump_nonce_def dest: checked_add_SomeD)
  assume "n \<noteq> - 1"
  then have "unat n + 1 < 2 ^ 64" using unat_plus_one [of n] unat_lt_pow [of "n + 1"] by simp
  then show "unat (bump_nonce n) = Suc (unat n)"
    using unat_plus_one [OF \<open>n \<noteq> - 1\<close>] by (simp add: bump_nonce_def checked_add_def)
qed

text \<open>The accounts after an accepted payload: the sender, rewritten, and possibly one other account with its nonce kept.\<close>

lemma apply_payload_accounts:
  assumes "apply_payload H W w addr tx sender gas = Some (r, w')" "rc_success r" "world_ok w" "w_executing w = {}" "wf_tx tx"
    "wf_account sender" "\<And>b. length (H b) = 32"
  obtains q where "w_accounts w' = accounts_put (w_accounts w) addr q" "wf_account q" "ac_nonce q = bump_nonce (ac_nonce sender)"
  | q a p where "w_accounts w' = accounts_put (accounts_put (w_accounts w) addr q) a p" "wf_account q" "wf_account p"
      "ac_nonce q = bump_nonce (ac_nonce sender)" "ac_nonce p = nonce_of (accounts_put (w_accounts w) addr q) a"
proof (cases "tx_payload tx")
  case (TransferP t)
  let ?q = "paid sender (tr_amount t) tx"
  let ?accs = "accounts_put (w_accounts w) addr ?q"
  let ?recv = "unwrap_or account_empty (accounts_get ?accs (tr_to t))"
  let ?p = "?recv\<lparr>ac_balance := unwrap_or (ac_balance ?recv) (checked_add (ac_balance ?recv) (tr_amount t))\<rparr>"
  from TransferP have t: "apply_transfer w addr tx sender gas t = Some (r, w')"
    using assms(1) by (simp add: apply_payload_def as_stake_def as_deploy_def as_call_def as_transfer_def)
  obtain u where "value_balance_check tx (tr_amount t) sender = Ok u"
    using t assms(2) by (cases "value_balance_check tx (tr_amount t) sender") (auto simp: apply_transfer_outcome)
  then have "w_accounts w' = accounts_put ?accs (tr_to t) ?p" using t by (auto simp: apply_transfer_outcome Let_def)
  then show thesis using assms(6) by (intro that(2) [of ?q "tr_to t" ?p]) (simp_all add: nonce_of_def)
next
  case (StakeP s)
  let ?q = "paid sender (stake_debit s) tx"
  let ?p = "if sp_kind s = Withdraw then ?q\<lparr>ac_balance := unwrap_or (ac_balance ?q) (checked_add (ac_balance ?q) (sp_amount s))\<rparr> else ?q"
  from StakeP have t: "apply_stake w addr tx sender gas s = Some (r, w')"
    using assms(1) by (simp add: apply_payload_def as_stake_def)
  obtain u where u: "value_balance_check tx (stake_debit s) sender = Ok u"
    using t assms(2) by (cases "value_balance_check tx (stake_debit s) sender") (auto simp: apply_stake_outcome)
  obtain v book where "apply_stake_tx (w_staking w) (w_params w) addr tx = (Ok v, book)"
    using t u assms(2) by (cases "apply_stake_tx (w_staking w) (w_params w) addr tx"; cases "fst (apply_stake_tx (w_staking w) (w_params w) addr tx)")
      (auto simp: apply_stake_outcome)
  then have "w_accounts w' = accounts_put (w_accounts w) addr ?p" using t u by (auto simp: apply_stake_outcome Let_def)
  then show thesis using assms(6) by (intro that(1) [of ?p]) simp_all
next
  case (DeployP d)
  let ?q = "paid sender 0 tx" and ?a = "create_address H addr (tx_nonce tx)"
  let ?p = "(unwrap_or account_empty (accounts_get (accounts_put (w_accounts w) addr ?q) ?a))\<lparr>ac_code_hash := hash_to_array H (dp_code d)\<rparr>"
  from DeployP have t: "apply_deploy H W w addr tx sender gas d = Some (r, w')"
    using assms(1) by (simp add: apply_payload_def as_stake_def as_deploy_def)
  obtain u where "value_balance_check tx 0 sender = Ok u" "is_ok (prepare W tx d)"
    using t assms(2) by (cases "value_balance_check tx 0 sender") (auto simp: apply_deploy_outcome split: if_splits)
  then have "w_accounts w' = accounts_put (accounts_put (w_accounts w) addr ?q) ?a ?p"
    using t by (auto simp: apply_deploy_outcome Let_def)
  then show thesis using assms(6,7) by (intro that(2) [of ?q ?a ?p]) (simp_all add: nonce_of_def hash_to_array_def)
next
  case (CallP c)
  let ?v = "w\<lparr>w_accounts := accounts_put (w_accounts w) addr (paid sender 0 tx)\<rparr>"
  have "guest_ready (cl_to c) ?v" using assms(3,5) CallP by (simp add: guest_ready_def world_ok_def wf_tx_def)
  then obtain q v' where q: "wasm_call W ?v c (fuel_budget tx gas) = Some (q, v')" "confined (cl_to c) ?v v'"
    using wasm_call_total [of c ?v W "fuel_budget tx gas"] assms(4) by auto
  have "apply_call W w addr tx sender gas c = Some (r, w')"
    using assms(1) CallP by (simp add: apply_payload_def as_stake_def as_deploy_def as_call_def)
  then have "w' = v'" using assms(2) q(1) apply_call_SomeD [of W w addr tx sender gas c r w'] by auto
  then show thesis using q(2) assms(6) by (intro that(1) [of "paid sender 0 tx"]) (simp_all add: confined_def)
qed

lemma apply_payload_nonces:
  assumes "apply_payload H W w addr tx sender gas = Some (r, w')" "rc_success r" "world_ok w" "w_executing w = {}" "wf_tx tx"
    "wf_account sender" "\<And>b. length (H b) = 32"
  shows "nonce_of (w_accounts w') x = (if x = addr then bump_nonce (ac_nonce sender) else nonce_of (w_accounts w) x)"
proof -
  have acc: "accounts_ok (w_accounts w)" using assms(3) by (simp add: world_ok_def)
  from assms show ?thesis
    by (cases rule: apply_payload_accounts) (simp_all add: nonce_of_put acc accounts_ok_put)
qed

lemma apply_tx_nonces:
  assumes "apply_tx H E W w signd = Some (r, w')" "world_ok w" "wf_tx (st_tx signd)" "\<And>b. length (H b) = 32"
  shows "unat (nonce_of (w_accounts w) x) \<le> unat (nonce_of (w_accounts w') x)"
    "rc_success r \<Longrightarrow> sender_address H E signd = Ok addr \<Longrightarrow>
      nonce_of (w_accounts w) addr = tx_nonce (st_tx signd) \<and> nonce_of (w_accounts w') addr = bump_nonce (tx_nonce (st_tx signd))"
proof -
  let ?sender = "\<lambda>a. unwrap_or account_empty (accounts_get (w_accounts w) a)"
  have payload: "nonce_of (w_accounts w') x = (if x = a then bump_nonce (tx_nonce (st_tx signd)) else nonce_of (w_accounts w) x)"
    if "apply_payload H W (clear_sets w) a (st_tx signd) (?sender a) gas = Some (r, w')" "rc_success r"
      "ac_nonce (?sender a) = tx_nonce (st_tx signd)" for a gas x
    using apply_payload_nonces [OF that(1,2) _ _ assms(3) wf_account_lookup assms(4), of x] assms(2) that(3) by simp
  have same: "w_accounts w' = w_accounts w" if "\<not> rc_success r"
    using apply_tx_failed [OF assms(1) that assms(2)] by force
  show "unat (nonce_of (w_accounts w) x) \<le> unat (nonce_of (w_accounts w') x)"
  proof (cases "rc_success r")
    case True
    from assms(1) show ?thesis
    proof (cases rule: apply_tx_cases)
      case (applied a gas)
      have "nonce_of (w_accounts w) a = tx_nonce (st_tx signd)" using applied(3) by (simp add: nonce_of_def)
      then show ?thesis using payload [OF applied(5) True applied(3), of x] unat_bump_nonce(1) by simp
    qed (use True in simp)
  qed (simp add: same)
  show "nonce_of (w_accounts w) addr = tx_nonce (st_tx signd) \<and> nonce_of (w_accounts w') addr = bump_nonce (tx_nonce (st_tx signd))"
    if "rc_success r" "sender_address H E signd = Ok addr"
    using assms(1)
  proof (cases rule: apply_tx_cases)
    case (applied a gas)
    then show ?thesis using payload [OF applied(5) that(1) applied(3), of addr] that(2) by (simp add: nonce_of_def)
  qed (use that in simp)
qed

lemma apply_txs_total:
  assumes "world_ok w" "list_all (\<lambda>s. wf_tx (st_tx s)) txs" "\<And>b. length (H b) = 32"
  shows "\<exists>rs w'. apply_txs H E W w txs = Some (rs, w') \<and> world_ok w' \<and> length rs = length txs"
  using assms(1,2)
proof (induction txs arbitrary: w)
  case (Cons s txs)
  then have "wf_tx (st_tx s)" by simp
  from apply_tx_total [of w s H E W, OF Cons.prems(1) this assms(3)]
  obtain r w1 where 1: "apply_tx H E W w s = Some (r, w1)" "world_ok w1" by blast
  then show ?case using Cons.IH [OF 1(2)] Cons.prems(2) by auto
qed simp

lemma apply_txs_Cons:
  "apply_txs H E W w (s # txs) = Some (rs, w') \<longleftrightarrow>
    (\<exists>r w1 rs'. apply_tx H E W w s = Some (r, w1) \<and> apply_txs H E W w1 txs = Some (rs', w') \<and> rs = r # rs')"
  by (auto simp: bind_eq_Some_conv)

declare apply_txs.simps(2) [simp del]

lemma apply_txs_nonces:
  assumes "apply_txs H E W w txs = Some (rs, w')" "world_ok w" "list_all (\<lambda>s. wf_tx (st_tx s)) txs" "\<And>b. length (H b) = 32"
  shows "unat (nonce_of (w_accounts w) x) \<le> unat (nonce_of (w_accounts w') x)"
  using assms(1-3)
proof (induction txs arbitrary: w rs)
  case (Cons s txs)
  obtain r w1 rs' where 1: "apply_tx H E W w s = Some (r, w1)" "apply_txs H E W w1 txs = Some (rs', w')"
    using Cons.prems(1) by (auto simp: apply_txs_Cons)
  have wf: "wf_tx (st_tx s)" using Cons.prems(3) by simp
  obtain q v where "apply_tx H E W w s = Some (q, v)" "world_ok v"
    using apply_tx_total [of w s H E W, OF Cons.prems(2) wf assms(4)] by blast
  then have "world_ok w1" using 1(1) by simp
  then have "unat (nonce_of (w_accounts w1) x) \<le> unat (nonce_of (w_accounts w') x)"
    using Cons.IH [OF 1(2)] Cons.prems(3) by simp
  then show ?case using apply_tx_nonces(1) [OF 1(1) Cons.prems(2) wf assms(4), of x] by simp
qed simp

text \<open>
  C9. No transaction is accepted twice. After an accepted transaction, and
  whatever further transactions are applied, applying it again is rejected with
  the wrong-nonce reason and changes neither accounts, storage, stakes nor code.
  (The last nonce of an account, 2^64 - 1, is excluded: it is not counted up.)
\<close>

theorem no_replay:
  assumes "apply_tx H E W w signd = Some (r, w1)" "rc_success r" "apply_txs H E W w1 txs = Some (rs, w2)"
    "world_ok w" "wf_tx (st_tx signd)" "list_all (\<lambda>s. wf_tx (st_tx s)) txs" "\<And>b. length (H b) = 32"
    "tx_nonce (st_tx signd) \<noteq> - 1"
  shows "apply_tx H E W w2 signd = Some (fail RWrongNonce, clear_sets w2)"
proof -
  let ?n = "tx_nonce (st_tx signd)"
  from assms(1) obtain addr where a: "is_ok (verify_ed25519 E signd)" "sender_address H E signd = Ok addr"
    by (cases rule: apply_tx_cases) (use assms(2) in auto)
  have n1: "nonce_of (w_accounts w1) addr = bump_nonce ?n"
    using apply_tx_nonces(2) [OF assms(1,4,5,7,2) a(2)] by simp
  have "world_ok w1"
    using apply_tx_total [of w signd H E W, OF assms(4,5,7)] assms(1) by (metis option.inject prod.inject)
  from apply_txs_nonces [OF assms(3) this assms(6,7), of addr]
  have "unat ?n < unat (nonce_of (w_accounts w2) addr)" using n1 unat_bump_nonce(2) [OF assms(8)] by simp
  then have "nonce_check (st_tx signd) (unwrap_or account_empty (accounts_get (w_accounts w2) addr)) = Err CheckWrongNonce"
    by (auto simp: nonce_check_def nonce_of_def)
  then show ?thesis
    using a tx_encode_wf [OF assms(5)]
    by (simp add: apply_tx_def Let_def split: result.split)
qed

text \<open>An example: a key whose signatures are the key itself, and an account with tokens.\<close>

definition toy_ed :: Ed25519 where
  "toy_ed = \<lparr>ed_pk_from_bytes = Some, ed_pk_bytes = (\<lambda>k. k), ed_pk_verify = (\<lambda>pk _ sig. sig = pk),
     ed_sk_sign = (\<lambda>sk _. sk), ed_verifying_key = (\<lambda>sk. sk)\<rparr>"

definition example_rich :: World where
  "example_rich = (toy_world [1])\<lparr>w_accounts := accounts_put TEmpty (replicate 32 1)
     \<lparr>ac_balance = 1000, ac_nonce = 0, ac_code_hash = replicate 32 0\<rparr>\<rparr>"

definition example_payment :: SignedTx where
  "example_payment =
    \<lparr>st_tx = \<lparr>tx_chain_id = 1, tx_nonce = 0, tx_gas_limit = 30000, tx_max_fee = 7,
              tx_payload = TransferP \<lparr>tr_to = replicate 32 2, tr_amount = 100\<rparr>\<rparr>,
     st_signature = replicate 32 1, st_public_key = replicate 32 1\<rparr>"

lemma example_rich_ok: "world_ok example_rich"
  by (simp add: world_ok_def example_rich_def toy_world_def slots_ok_def accounts_ok_put wf_account_def
      staking_ok_def staking_default_def bt_keys_def)

lemma example_payment_accepted: "map_option (rc_success \<circ> fst) (apply_tx last32 toy_ed toy_engine example_rich example_payment) = Some True"
  by code_simp

theorem no_replay_witness:
  "\<exists>r w1 w2. apply_tx last32 toy_ed toy_engine example_rich example_payment = Some (r, w1) \<and>
     apply_txs last32 toy_ed toy_engine w1 [example_payment] = Some ([fail RWrongNonce], w2) \<and>
     apply_tx last32 toy_ed toy_engine w2 example_payment = Some (fail RWrongNonce, clear_sets w2)"
proof -
  let ?apply = "apply_tx last32 toy_ed toy_engine"
  have wf: "wf_tx (st_tx example_payment)" by (simp add: example_payment_def wf_tx_def)
  have n: "tx_nonce (st_tx example_payment) \<noteq> - 1" by (simp add: example_payment_def)
  obtain r w1 where 1: "?apply example_rich example_payment = Some (r, w1)" "rc_success r"
    using example_payment_accepted by auto
  note again = no_replay [OF 1 _ example_rich_ok wf _ length_last32 n]
  have 2: "?apply w1 example_payment = Some (fail RWrongNonce, clear_sets w1)" using again [of "[]" "[]" w1] by simp
  then have "apply_txs last32 toy_ed toy_engine w1 [example_payment] = Some ([fail RWrongNonce], clear_sets w1)"
    by (simp add: apply_txs_Cons)
  then show ?thesis using 1(1) again [of "[example_payment]"] wf by auto
qed

section \<open>Tokens are conserved\<close>

definition balance_of :: "AccountTrie \<Rightarrow> Address \<Rightarrow> nat" where
  "balance_of t a = unat (ac_balance (unwrap_or account_empty (accounts_get t a)))"

text \<open>The tokens held by the accounts in \<open>A\<close> and by the staking ledger.\<close>

definition token_supply :: "Address set \<Rightarrow> World \<Rightarrow> nat" where
  "token_supply A w = (\<Sum>a\<in>A. balance_of (w_accounts w) a) + staked (w_staking w)"

text \<open>The addresses a transaction may write to.\<close>

definition written_to :: "(bytes \<Rightarrow> Hash) \<Rightarrow> Ed25519 \<Rightarrow> SignedTx \<Rightarrow> Address set" where
  "written_to H E signd =
    (case sender_address H E signd of
       Err _ \<Rightarrow> {}
     | Ok addr \<Rightarrow> {addr, create_address H addr (tx_nonce (st_tx signd))} \<union>
         (case tx_payload (st_tx signd) of TransferP t \<Rightarrow> {tr_to t} | _ \<Rightarrow> {}))"

lemma balance_put:
  assumes "accounts_ok t" "wf_account acc" "finite A" "a \<in> A"
  shows "(\<Sum>x\<in>A. balance_of (accounts_put t a acc) x) + balance_of t a = (\<Sum>x\<in>A. balance_of t x) + unat (ac_balance acc)"
  using accounts.sum_put [of t acc A a "\<lambda>x. unat (ac_balance (unwrap_or account_empty x))"] assms
  by (simp add: balance_of_def accounts_ok_trie)

lemma balance_of_put:
  "accounts_ok t \<Longrightarrow> wf_account acc \<Longrightarrow> balance_of (accounts_put t a acc) x = (if x = a then unat (ac_balance acc) else balance_of t x)"
  by (simp add: balance_of_def accounts.get_put accounts_ok_trie)

lemma balance_le_sum: "finite A \<Longrightarrow> a \<in> A \<Longrightarrow> balance_of t a \<le> (\<Sum>x\<in>A. balance_of t x)"
  by (simp add: member_le_sum)

lemma apply_transfer_supply:
  assumes "apply_transfer w addr tx sender gas t = Some (r, w')" "rc_success r" "world_ok w"
    "sender = unwrap_or account_empty (accounts_get (w_accounts w) addr)"
    "finite A" "addr \<in> A" "tr_to t \<in> A" "token_supply A w < 2 ^ 128"
  shows "token_supply A w' + unat (tx_max_fee tx) = token_supply A w"
proof -
  have acc: "accounts_ok (w_accounts w)" and wf: "wf_account sender" using assms(3,4) by (simp_all add: world_ok_def)
  have ok: "value_balance_check tx (tr_amount t) sender = Ok ()"
    using assms(1,2) by (cases "value_balance_check tx (tr_amount t) sender") (auto simp: apply_transfer_outcome)
  note pay = value_balance_check_pays(3) [OF ok]
  let ?q = "paid sender (tr_amount t) tx"
  let ?accs = "accounts_put (w_accounts w) addr ?q"
  let ?recv = "unwrap_or account_empty (accounts_get ?accs (tr_to t))"
  have acc1: "accounts_ok ?accs" using acc wf by (simp add: accounts_ok_put)
  have bal: "balance_of (w_accounts w) addr = unat (ac_balance sender)" by (simp add: balance_of_def assms(4))
  have 1: "(\<Sum>x\<in>A. balance_of ?accs x) + unat (tr_amount t) + unat (tx_max_fee tx) = (\<Sum>x\<in>A. balance_of (w_accounts w) x)"
    using balance_put [OF acc _ assms(5,6), of ?q] wf pay bal by simp
  have "balance_of ?accs (tr_to t) + unat (tr_amount t) < 2 ^ 128"
    using balance_le_sum [OF assms(5,7), of ?accs] 1 assms(8) by (simp add: token_supply_def)
  then have add: "checked_add (ac_balance ?recv) (tr_amount t) = Some (ac_balance ?recv + tr_amount t)"
    "unat (ac_balance ?recv + tr_amount t) = balance_of ?accs (tr_to t) + unat (tr_amount t)"
    by (simp_all add: checked_add_def balance_of_def unat_add_lem [THEN iffD1])
  have w': "w' = w\<lparr>w_accounts := accounts_put ?accs (tr_to t) (?recv\<lparr>ac_balance := ac_balance ?recv + tr_amount t\<rparr>)\<rparr>"
    using assms(1) ok add(1) by (simp add: apply_transfer_outcome Let_def)
  have "(\<Sum>x\<in>A. balance_of (w_accounts w') x) = (\<Sum>x\<in>A. balance_of ?accs x) + unat (tr_amount t)"
    using balance_put [OF acc1 _ assms(5,7), of "?recv\<lparr>ac_balance := ac_balance ?recv + tr_amount t\<rparr>"] add(2) by (simp add: w')
  then show ?thesis using 1 by (simp add: token_supply_def w')
qed

text \<open>Tokens that leave with an accepted transaction: its fee, and what an undelegation releases, which is credited to nobody.\<close>

definition tokens_gone :: "Tx \<Rightarrow> nat" where
  "tokens_gone tx = unat (tx_max_fee tx) +
    (case as_stake tx of Some s \<Rightarrow> if sp_kind s = Undelegate then unat (sp_amount s) else 0 | None \<Rightarrow> 0)"

lemma apply_stake_supply:
  assumes "apply_stake w addr tx sender gas s = Some (r, w')" "rc_success r" "world_ok w" "as_stake tx = Some s"
    "sender = unwrap_or account_empty (accounts_get (w_accounts w) addr)"
    "finite A" "addr \<in> A" "token_supply A w < 2 ^ 128" "sk_next_unbond (w_staking w) \<noteq> - 1"
  shows "token_supply A w' + tokens_gone tx = token_supply A w"
proof -
  have acc: "accounts_ok (w_accounts w)" and wf: "wf_account sender" and st: "staking_ok (w_staking w)"
    using assms(3,5) by (simp_all add: world_ok_def)
  have ok: "value_balance_check tx (stake_debit s) sender = Ok ()"
    using assms(1,2) by (cases "value_balance_check tx (stake_debit s) sender") (auto simp: apply_stake_outcome)
  obtain res book where b: "apply_stake_tx (w_staking w) (w_params w) addr tx = (res, book)" by fastforce
  then have res: "res = Ok ()" using assms(1,2) ok by (cases res) (auto simp: apply_stake_outcome)
  note pay = value_balance_check_pays(3) [OF ok]
  note totals = apply_stake_totals [OF b assms(4) st assms(9)]
  let ?q = "paid sender (stake_debit s) tx"
  let ?bal = "if sp_kind s = Withdraw then unwrap_or (ac_balance ?q) (checked_add (ac_balance ?q) (sp_amount s)) else ac_balance ?q"
  let ?p = "?q\<lparr>ac_balance := ?bal\<rparr>"
  have w': "w' = w\<lparr>w_staking := book, w_accounts := accounts_put (w_accounts w) addr ?p\<rparr>"
    using assms(1) ok b res by (auto simp: apply_stake_outcome Let_def)
  have bal: "balance_of (w_accounts w) addr = unat (ac_balance sender)" by (simp add: balance_of_def assms(5))
  have sum: "(\<Sum>x\<in>A. balance_of (w_accounts w') x) + unat (ac_balance sender) = (\<Sum>x\<in>A. balance_of (w_accounts w) x) + unat ?bal"
    using balance_put [OF acc _ assms(6,7), of ?p] wf bal by (simp add: w')
  have "unat ?bal = unat (ac_balance ?q) + (if sp_kind s = Withdraw then unat (sp_amount s) else 0)"
  proof (cases "sp_kind s = Withdraw")
    case True
    then have "unat (sp_amount s) \<le> staked (w_staking w)" using totals res by auto
    moreover have "unat (ac_balance ?q) \<le> (\<Sum>x\<in>A. balance_of (w_accounts w) x)"
      using balance_le_sum [OF assms(6,7), of "w_accounts w"] pay bal by simp
    ultimately have "unat (ac_balance ?q) + unat (sp_amount s) < 2 ^ 128" using assms(8) by (simp add: token_supply_def)
    then show ?thesis using True by (simp add: checked_add_def unat_add_lem [THEN iffD1])
  qed simp
  then show ?thesis
    using sum pay totals res assms(4)
    by (cases "sp_kind s") (auto simp: token_supply_def w' tokens_gone_def stake_debit_def)
qed

lemma apply_deploy_supply:
  assumes "apply_deploy H W w addr tx sender gas d = Some (r, w')" "rc_success r" "world_ok w"
    "sender = unwrap_or account_empty (accounts_get (w_accounts w) addr)" "\<And>b. length (H b) = 32"
    "finite A" "addr \<in> A" "create_address H addr (tx_nonce tx) \<in> A"
  shows "token_supply A w' + unat (tx_max_fee tx) = token_supply A w"
proof -
  have acc: "accounts_ok (w_accounts w)" and wf: "wf_account sender" using assms(3,4) by (simp_all add: world_ok_def)
  have ok: "value_balance_check tx 0 sender = Ok ()" "is_ok (prepare W tx d)"
    using assms(1,2) by (cases "value_balance_check tx 0 sender"; auto simp: apply_deploy_outcome split: if_splits)+
  note pay = value_balance_check_pays(3) [OF ok(1)]
  let ?q = "paid sender 0 tx" and ?a = "create_address H addr (tx_nonce tx)"
  let ?accs = "accounts_put (w_accounts w) addr ?q"
  let ?p = "(unwrap_or account_empty (accounts_get ?accs ?a))\<lparr>ac_code_hash := hash_to_array H (dp_code d)\<rparr>"
  have acc1: "accounts_ok ?accs" using acc wf by (simp add: accounts_ok_put)
  have w': "w_accounts w' = accounts_put ?accs ?a ?p" "w_staking w' = w_staking w"
    using assms(1) ok by (auto simp: apply_deploy_outcome Let_def)
  have "balance_of ?accs ?a = unat (ac_balance ?p)" by (simp add: balance_of_def)
  then have "(\<Sum>x\<in>A. balance_of (w_accounts w') x) = (\<Sum>x\<in>A. balance_of ?accs x)"
    using balance_put [OF acc1 _ assms(6,8), of ?p] assms(5) by (simp add: w' hash_to_array_def)
  moreover have "balance_of (w_accounts w) addr = unat (ac_balance sender)" by (simp add: balance_of_def assms(4))
  ultimately show ?thesis
    using balance_put [OF acc _ assms(6,7), of ?q] wf pay by (simp add: token_supply_def w'(2))
qed

lemma apply_call_supply:
  assumes "apply_call W w addr tx sender gas c = Some (r, w')" "rc_success r" "world_ok w" "w_executing w = {}" "length (cl_to c) = 32"
    "sender = unwrap_or account_empty (accounts_get (w_accounts w) addr)" "finite A" "addr \<in> A"
  shows "token_supply A w' + unat (tx_max_fee tx) = token_supply A w"
proof -
  let ?v = "w\<lparr>w_accounts := accounts_put (w_accounts w) addr (paid sender 0 tx)\<rparr>"
  have acc: "accounts_ok (w_accounts w)" and wf: "wf_account sender" using assms(3,6) by (simp_all add: world_ok_def)
  have c: "value_balance_check tx 0 sender = Ok ()" "wasm_call W ?v c (fuel_budget tx gas) = Some (Ok (), w')"
    using apply_call_SomeD [OF assms(1)] assms(2) by auto
  have "guest_ready (cl_to c) ?v" using assms(3,5) by (simp add: guest_ready_def world_ok_def)
  then have "confined (cl_to c) ?v w'" using wasm_call_total [of c ?v W "fuel_budget tx gas"] assms(4) c(2) by auto
  then have w': "w_accounts w' = accounts_put (w_accounts w) addr (paid sender 0 tx)" "w_staking w' = w_staking w"
    by (simp_all add: confined_def)
  have "balance_of (w_accounts w) addr = unat (ac_balance sender)" by (simp add: balance_of_def assms(6))
  then show ?thesis
    using balance_put [OF acc _ assms(7,8), of "paid sender 0 tx"] wf value_balance_check_pays(3) [OF c(1)]
    by (simp add: token_supply_def w')
qed

lemma apply_tx_supply:
  assumes "apply_tx H E W w signd = Some (r, w')" "world_ok w" "wf_tx (st_tx signd)" "\<And>b. length (H b) = 32"
    "finite A" "written_to H E signd \<subseteq> A" "token_supply A w < 2 ^ 128" "sk_next_unbond (w_staking w) \<noteq> - 1"
  shows "token_supply A w' + (if rc_success r then tokens_gone (st_tx signd) else 0) = token_supply A w"
proof (cases "rc_success r")
  case False
  obtain m where "w' = (clear_sets w)\<lparr>w_staking := (w_staking w)\<lparr>sk_operator := m\<rparr>\<rparr>"
    using apply_tx_failed [OF assms(1) False assms(2)] by blast
  then show ?thesis using False by (simp add: token_supply_def staked_def)
next
  case True
  let ?w = "clear_sets w" and ?tx = "st_tx signd"
  have cl: "token_supply A ?w = token_supply A w" by (simp add: token_supply_def)
  from assms(1) show ?thesis
  proof (cases rule: apply_tx_cases)
    case (applied addr gas)
    have in_A: "addr \<in> A" "create_address H addr (tx_nonce ?tx) \<in> A" using assms(6) applied(2) by (auto simp: written_to_def)
    let ?sender = "unwrap_or account_empty (accounts_get (w_accounts ?w) addr)"
    have p: "apply_payload H W ?w addr ?tx ?sender gas = Some (r, w')" using applied(5) by simp
    have ok: "world_ok ?w" "token_supply A ?w < 2 ^ 128" "sk_next_unbond (w_staking ?w) \<noteq> - 1" using assms(2,7,8) cl by simp_all
    have "token_supply A w' + tokens_gone ?tx = token_supply A ?w"
    proof (cases "tx_payload ?tx")
      case (TransferP t)
      then have "tr_to t \<in> A" using assms(6) applied(2) by (auto simp: written_to_def)
      moreover have "apply_transfer ?w addr ?tx ?sender gas t = Some (r, w')" "as_stake ?tx = None"
        using p TransferP by (simp_all add: apply_payload_def as_stake_def as_deploy_def as_call_def as_transfer_def)
      ultimately show ?thesis
        using apply_transfer_supply [OF _ True ok(1) refl assms(5) in_A(1) _ ok(2)] by (simp add: tokens_gone_def)
    next
      case (StakeP s)
      then have "apply_stake ?w addr ?tx ?sender gas s = Some (r, w')" "as_stake ?tx = Some s"
        using p by (simp_all add: apply_payload_def as_stake_def)
      then show ?thesis using apply_stake_supply [OF _ True ok(1) _ refl assms(5) in_A(1) ok(2,3)] by simp
    next
      case (DeployP d)
      then have "apply_deploy H W ?w addr ?tx ?sender gas d = Some (r, w')" "as_stake ?tx = None"
        using p by (simp_all add: apply_payload_def as_stake_def as_deploy_def)
      then show ?thesis using apply_deploy_supply [OF _ True ok(1) refl assms(4,5) in_A] by (simp add: tokens_gone_def)
    next
      case (CallP c)
      then have "apply_call W ?w addr ?tx ?sender gas c = Some (r, w')" "as_stake ?tx = None" "length (cl_to c) = 32"
        using p assms(3) by (simp_all add: apply_payload_def as_stake_def as_deploy_def as_call_def wf_tx_def)
      then show ?thesis using apply_call_supply [OF _ True ok(1) _ _ refl assms(5) in_A(1)] by (simp add: tokens_gone_def)
    qed
    then show ?thesis using True cl by simp
  qed (use True in simp)
qed

section \<open>The properties of execution\<close>

text \<open>
  C8. A transaction is all or nothing. On a well-formed world every well-formed
  transaction returns a receipt and a well-formed world, without a panic; when
  it is rejected, the receipt has no gas and no events and accounts, storage,
  code and stakes are what they were. (Of the staking ledger only the table of
  operators may differ, after a bond that overflows.)
\<close>

theorem tx_all_or_nothing:
  assumes "world_ok w" "wf_tx (st_tx signd)" "\<And>b. length (H b) = 32"
  shows "\<exists>r w'. apply_tx H E W w signd = Some (r, w') \<and> world_ok w' \<and>
    (rc_success r \<or> rc_gas_used r = 0 \<and> rc_events r = [] \<and> rc_reason r \<noteq> None \<and>
      w_accounts w' = w_accounts w \<and> w_storage w' = w_storage w \<and> w_code w' = w_code w \<and> w_versioned w' = w_versioned w \<and>
      (\<exists>m. w_staking w' = (w_staking w)\<lparr>sk_operator := m\<rparr>))"
proof -
  obtain r w' where 1: "apply_tx H E W w signd = Some (r, w')" "world_ok w'"
    using apply_tx_total [of w signd H E W, OF assms] by blast
  show ?thesis
  proof (cases "rc_success r")
    case True
    then show ?thesis using 1 by blast
  next
    case False
    obtain e m where "r = fail e" "w' = (clear_sets w)\<lparr>w_staking := (w_staking w)\<lparr>sk_operator := m\<rparr>\<rparr>"
      using apply_tx_failed [OF 1(1) False assms(1)] by blast
    then show ?thesis using 1 by auto
  qed
qed

theorem tx_all_or_nothing_witness:
  "\<exists>r w'. apply_tx last32 toy_ed toy_engine example_rich example_payment = Some (r, w') \<and> world_ok w'"
  using tx_all_or_nothing [of example_rich example_payment last32 toy_ed toy_engine, OF example_rich_ok _ length_last32]
  by (auto simp: example_payment_def wf_tx_def)

lemma apply_tx_next_unbond:
  assumes "apply_tx H E W w signd = Some (r, w')" "world_ok w" "wf_tx (st_tx signd)"
  shows "unat (sk_next_unbond (w_staking w')) \<le> Suc (unat (sk_next_unbond (w_staking w)))"
  using assms(1)
proof (cases rule: apply_tx_cases)
  case (applied addr gas)
  let ?sender = "unwrap_or account_empty (accounts_get (w_accounts w) addr)"
  have "w_staking w' \<in> {w_staking w, snd (apply_stake_tx (w_staking w) (w_params w) addr (st_tx signd))}"
  proof (cases "tx_payload (st_tx signd)")
    case (TransferP t)
    then show ?thesis using applied(5)
      by (auto simp: apply_payload_def as_stake_def as_deploy_def as_call_def as_transfer_def apply_transfer_outcome Let_def
          split: result.splits)
  next
    case (StakeP s)
    then show ?thesis using applied(5)
      by (auto simp: apply_payload_def as_stake_def apply_stake_outcome Let_def split: result.splits prod.splits)
  next
    case (DeployP d)
    then show ?thesis using applied(5)
      by (auto simp: apply_payload_def as_stake_def as_deploy_def apply_deploy_outcome Let_def split: result.splits if_splits)
  next
    case (CallP c)
    let ?v = "(clear_sets w)\<lparr>w_accounts := accounts_put (w_accounts w) addr (paid ?sender 0 (st_tx signd))\<rparr>"
    have "guest_ready (cl_to c) ?v" using assms(2,3) CallP by (simp add: guest_ready_def world_ok_def wf_tx_def)
    then have "w_staking v = w_staking w" if "wasm_call W ?v c (fuel_budget (st_tx signd) gas) = Some (q, v)" for q v
      using wasm_call_total [of c ?v W "fuel_budget (st_tx signd) gas"] that by (auto simp: confined_def)
    moreover have "apply_call W (clear_sets w) addr (st_tx signd) ?sender gas c = Some (r, w')"
      using applied(5) CallP by (simp add: apply_payload_def as_stake_def as_deploy_def as_call_def)
    ultimately show ?thesis using apply_call_SomeD by fastforce
  qed
  then show ?thesis
    using apply_stake_next [of "w_staking w" "w_params w" addr "st_tx signd"]
    by (auto simp: unat_saturating_add min_def)
qed simp

lemma apply_txs_supply:
  assumes "apply_txs H E W w txs = Some (rs, w')" "world_ok w" "list_all (\<lambda>s. wf_tx (st_tx s)) txs" "\<And>b. length (H b) = 32"
    "finite A" "list_all (\<lambda>s. written_to H E s \<subseteq> A) txs" "token_supply A w < 2 ^ 128"
    "unat (sk_next_unbond (w_staking w)) + length txs < 2 ^ 64"
  shows "token_supply A w' + (\<Sum>(s, r)\<leftarrow>zip txs rs. if rc_success r then tokens_gone (st_tx s) else 0) = token_supply A w"
  using assms(1-3,6-8)
proof (induction txs arbitrary: w rs)
  case (Cons s txs)
  obtain r w1 rs' where 1: "apply_tx H E W w s = Some (r, w1)" "apply_txs H E W w1 txs = Some (rs', w')" "rs = r # rs'"
    using Cons.prems(1) by (auto simp: apply_txs_Cons)
  have wf: "wf_tx (st_tx s)" "written_to H E s \<subseteq> A" using Cons.prems(3,4) by simp_all
  have max: "sk_next_unbond (w_staking w) \<noteq> - 1" using Cons.prems(6) unat_minus_one_max [where 'a = 64] by auto
  have ok: "world_ok w1"
    using apply_tx_total [of w s H E W, OF Cons.prems(2) wf(1) assms(4)] 1(1) by (metis option.inject prod.inject)
  note step = apply_tx_supply [OF 1(1) Cons.prems(2) wf(1) assms(4,5) wf(2) Cons.prems(5) max]
  have "token_supply A w1 < 2 ^ 128" using step Cons.prems(5) by simp
  moreover have "unat (sk_next_unbond (w_staking w1)) + length txs < 2 ^ 64"
    using apply_tx_next_unbond [OF 1(1) Cons.prems(2) wf(1)] Cons.prems(6) by simp
  ultimately show ?case
    using Cons.IH [OF 1(2) ok] Cons.prems(3,4) step by (simp add: 1(3))
qed simp

text \<open>
  C10. No block creates tokens. Over the accounts a block may write to, together
  with the staking ledger, the tokens after the block plus what its accepted
  transactions burn, their fees and the amounts of undelegations, are the tokens
  before it, as long as these are fewer than 2^128.
\<close>

theorem block_conserves_tokens:
  assumes "apply_block H E W w block = Some (w', rs, app)" "world_ok w" "list_all (\<lambda>s. wf_tx (st_tx s)) (bk_txs block)"
    "\<And>b. length (H b) = 32" "finite A" "list_all (\<lambda>s. written_to H E s \<subseteq> A) (bk_txs block)" "token_supply A w < 2 ^ 128"
    "unat (sk_next_unbond (w_staking w)) + length (bk_txs block) < 2 ^ 64"
  shows "token_supply A w' + (\<Sum>(s, r)\<leftarrow>zip (bk_txs block) rs. if rc_success r then tokens_gone (st_tx s) else 0) =
    token_supply A w"
proof -
  have "apply_txs H E W w (bk_txs block) = Some (rs, w')"
    using assms(1) by (auto simp: apply_block_def Let_def bind_eq_Some_conv)
  from apply_txs_supply [OF this assms(2-8)] show ?thesis .
qed

definition example_block :: Block where
  "example_block =
    \<lparr>bk_header_fields = \<lparr>hf_height = 1, hf_round = 0, hf_proposer = replicate 48 0, hf_timestamp_ms = 5\<rparr>, bk_txs = [example_payment]\<rparr>"

definition example_addresses :: "Address set" where
  "example_addresses = {replicate 32 1, replicate 32 2, replicate 24 1 @ replicate 8 0}"

lemma example_payment_written: "written_to last32 toy_ed example_payment \<subseteq> example_addresses"
proof -
  have "sender_address last32 toy_ed example_payment = Ok (replicate 32 1)"
    "create_address last32 (replicate 32 1) 0 = replicate 24 1 @ replicate 8 0" by code_simp+
  then show ?thesis by (simp add: written_to_def example_payment_def example_addresses_def)
qed

lemma example_rich_supply: "token_supply example_addresses example_rich = 1000"
proof -
  have "balance_of (w_accounts example_rich) (replicate 32 1) = 1000" "balance_of (w_accounts example_rich) (replicate 32 2) = 0"
    "balance_of (w_accounts example_rich) (replicate 24 1 @ replicate 8 0) = 0" "staked (w_staking example_rich) = 0"
    "(replicate 32 1 :: bytes) \<noteq> replicate 32 2" "(replicate 32 1 :: bytes) \<noteq> replicate 24 1 @ replicate 8 0"
    "(replicate 32 2 :: bytes) \<noteq> replicate 24 1 @ replicate 8 0" by code_simp+
  then show ?thesis by (simp add: token_supply_def example_addresses_def del: replicate_append_same)
qed

theorem block_conserves_tokens_witness:
  "\<exists>w' rs app. apply_block last32 toy_ed toy_engine example_rich example_block = Some (w', rs, app) \<and>
     token_supply example_addresses w' + 7 = 1000"
proof -
  obtain r w1 where 1: "apply_tx last32 toy_ed toy_engine example_rich example_payment = Some (r, w1)" "rc_success r"
    using example_payment_accepted by auto
  then obtain app where b: "apply_block last32 toy_ed toy_engine example_rich example_block = Some (w1, [r], app)"
    by (simp add: apply_block_def example_block_def Let_def apply_txs_Cons bind_eq_Some_conv)
  have "tokens_gone (st_tx example_payment) = 7" by (simp add: tokens_gone_def example_payment_def as_stake_def)
  moreover have "finite example_addresses" by (simp add: example_addresses_def)
  ultimately show ?thesis
    using block_conserves_tokens [OF b example_rich_ok _ length_last32, of example_addresses] example_payment_written example_rich_supply b 1(2)
    by (auto simp: example_block_def example_payment_def wf_tx_def example_rich_def toy_world_def staking_default_def)
qed

end
