(* ===== verification/Exec_Local.thy ===== *)
theory Exec_Local
  imports Exec_Seq
begin

text \<open>
  What a transaction reads and writes: the keys inferred from its envelope
  (\<open>stm/rwset.rs\<close> of \<open>crates/execution\<close>), and the proof that they are right. The
  world is seen as cells, each owned by one key; the lemmas show that a transaction
  changes only cells whose owner is among its keys and that its receipt and what it
  writes depend only on those cells.
\<close>

section \<open>Inferred keys (stm/rwset.rs)\<close>

definition STAKING_SLOT :: bytes where
  "STAKING_SLOT = ascii ''stm.staking''"

definition sender_of :: "(bytes \<Rightarrow> Hash) \<Rightarrow> Ed25519 \<Rightarrow> SignedTx \<Rightarrow> Address option" where
  "sender_of H E signd =
    (case public_key_from_bytes E (st_public_key signd) of Err _ \<Rightarrow> None | Ok pk \<Rightarrow> Some (from_ed25519 H E pk))"

definition inferred_keys :: "(bytes \<Rightarrow> Hash) \<Rightarrow> Ed25519 \<Rightarrow> SignedTx \<Rightarrow> bytes set" where
  "inferred_keys H E signd =
    (case sender_of H E signd of Some sender \<Rightarrow> {account_key sender} | None \<Rightarrow> {}) \<union>
    (case as_transfer (st_tx signd) of Some t \<Rightarrow> {account_key (tr_to t)} | None \<Rightarrow> {}) \<union>
    (if as_stake (st_tx signd) \<noteq> None then {STAKING_SLOT} else {}) \<union>
    (case as_call (st_tx signd) of Some c \<Rightarrow> {account_key (cl_to c)} | None \<Rightarrow> {}) \<union>
    (case sender_of H E signd of
       Some sender \<Rightarrow>
         if as_deploy (st_tx signd) \<noteq> None then {account_key (create_address H sender (tx_nonce (st_tx signd)))} else {}
     | None \<Rightarrow> {})"

section \<open>Cells\<close>

datatype Cell = CAccount Address | CCode Address | CStorage bytes | CStaking

datatype CellValue = VAccount "Account option" | VBytes "bytes option" | VStaking StakingState

fun cell_value :: "World \<Rightarrow> Cell \<Rightarrow> CellValue" where
  "cell_value w (CAccount a) = VAccount (accounts_get (w_accounts w) a)"
| "cell_value w (CCode a) = VBytes (bt_get (w_code w) a)"
| "cell_value w (CStorage k) = VBytes (storage_get (w_storage w) k)"
| "cell_value w CStaking = VStaking (w_staking w)"

text \<open>The key that owns a cell; the slots of a contract belong to its account. Cells no transaction can reach have no owner.\<close>

fun owner :: "Cell \<Rightarrow> bytes option" where
  "owner (CAccount a) = (if length a = 32 then Some a else None)"
| "owner (CCode a) = (if length a = 32 then Some a else None)"
| "owner (CStorage k) = (if length k = 64 then Some (take 32 k) else None)"
| "owner CStaking = Some STAKING_SLOT"

definition owned :: "bytes set \<Rightarrow> Cell \<Rightarrow> bool" where
  "owned K c \<longleftrightarrow> (\<exists>k\<in>K. owner c = Some k)"

definition agree :: "bytes set \<Rightarrow> World \<Rightarrow> World \<Rightarrow> bool" where
  "agree K w u \<longleftrightarrow> w_params w = w_params u \<and> (\<forall>c. owned K c \<longrightarrow> cell_value w c = cell_value u c)"

definition framed :: "bytes set \<Rightarrow> World \<Rightarrow> World \<Rightarrow> bool" where
  "framed K w w' \<longleftrightarrow> w_params w' = w_params w \<and> (\<forall>c. \<not> owned K c \<longrightarrow> cell_value w' c = cell_value w c)"

lemma length_STAKING_SLOT [simp]: "length STAKING_SLOT = 11"
  by (simp add: STAKING_SLOT_def ascii_def)

lemma owned_simps [simp]:
  "owned K (CAccount a) \<longleftrightarrow> length a = 32 \<and> a \<in> K" "owned K (CCode a) \<longleftrightarrow> length a = 32 \<and> a \<in> K"
  "owned K (CStorage k) \<longleftrightarrow> length k = 64 \<and> take 32 k \<in> K" "owned K CStaking \<longleftrightarrow> STAKING_SLOT \<in> K"
  by (auto simp: owned_def)

lemma framed_refl: "framed K w w"
  by (simp add: framed_def)

lemma framed_trans: "framed K w v \<Longrightarrow> framed K v u \<Longrightarrow> framed K w u"
  by (simp add: framed_def)

lemma framed_mono: "framed K w v \<Longrightarrow> K \<subseteq> L \<Longrightarrow> framed L w v"
  unfolding framed_def owned_def by blast

lemma agree_mono: "agree L w u \<Longrightarrow> K \<subseteq> L \<Longrightarrow> agree K w u"
  unfolding agree_def owned_def by blast

lemma agree_cong:
  assumes "agree K w u" "w_params w' = w_params w" "w_params u' = w_params u"
    "\<And>c. cell_value w' c = cell_value w c" "\<And>c. cell_value u' c = cell_value u c"
  shows "agree K w' u'"
  using assms by (simp add: agree_def)

text \<open>Writing the same to both sides keeps agreement, and is framed by the key written.\<close>

definition set_account :: "World \<Rightarrow> Address \<Rightarrow> Account \<Rightarrow> World" where
  "set_account w a acc = w\<lparr>w_accounts := accounts_put (w_accounts w) a acc\<rparr>"

lemma set_account_simps [simp]:
  "w_accounts (set_account w a acc) = accounts_put (w_accounts w) a acc" "w_params (set_account w a acc) = w_params w"
  "w_storage (set_account w a acc) = w_storage w" "w_staking (set_account w a acc) = w_staking w"
  "w_code (set_account w a acc) = w_code w" "w_versioned (set_account w a acc) = w_versioned w"
  "w_executing (set_account w a acc) = w_executing w"
  "w_storage_reads (set_account w a acc) = w_storage_reads w" "w_storage_writes (set_account w a acc) = w_storage_writes w"
  by (simp_all add: set_account_def)

lemma cell_value_set_account:
  "accounts_ok (w_accounts w) \<Longrightarrow> wf_account acc \<Longrightarrow>
    cell_value (set_account w a acc) c = (if c = CAccount a then VAccount (Some acc) else cell_value w c)"
  by (cases c) (auto simp: accounts.get_put accounts_ok_trie)

lemma cell_value_code:
  "cell_value (w\<lparr>w_code := bt_insert a b (w_code w)\<rparr>) c = (if c = CCode a then VBytes (Some b) else cell_value w c)"
  by (cases c) auto

lemma cell_value_staking: "cell_value (w\<lparr>w_staking := b\<rparr>) c = (if c = CStaking then VStaking b else cell_value w c)"
  by (cases c) auto

lemma agree_set_account:
  "agree K w u \<Longrightarrow> accounts_ok (w_accounts w) \<Longrightarrow> accounts_ok (w_accounts u) \<Longrightarrow> wf_account acc \<Longrightarrow>
    agree K (set_account w a acc) (set_account u a acc)"
  by (simp add: agree_def cell_value_set_account)

lemma framed_set_account:
  "a \<in> K \<Longrightarrow> length a = 32 \<Longrightarrow> accounts_ok (w_accounts w) \<Longrightarrow> wf_account acc \<Longrightarrow> framed K w (set_account w a acc)"
  by (auto simp: framed_def cell_value_set_account)

lemma agree_code: "agree K w u \<Longrightarrow> agree K (w\<lparr>w_code := bt_insert a b (w_code w)\<rparr>) (u\<lparr>w_code := bt_insert a b (w_code u)\<rparr>)"
  by (simp add: agree_def cell_value_code)

lemma framed_code: "a \<in> K \<Longrightarrow> length a = 32 \<Longrightarrow> framed K w (w\<lparr>w_code := bt_insert a b (w_code w)\<rparr>)"
  by (auto simp: framed_def cell_value_code)

lemma agree_staking: "agree K w u \<Longrightarrow> agree K (w\<lparr>w_staking := b\<rparr>) (u\<lparr>w_staking := b\<rparr>)"
  by (simp add: agree_def cell_value_staking)

lemma framed_staking: "STAKING_SLOT \<in> K \<Longrightarrow> framed K w (w\<lparr>w_staking := b\<rparr>)"
  by (auto simp: framed_def cell_value_staking)

section \<open>Each payload is local\<close>

text \<open>Two runs with the same receipt, from worlds that agree on the keys to worlds that agree on them, changing nothing else.\<close>

definition twins :: "bytes set \<Rightarrow> World \<Rightarrow> World \<Rightarrow> (Receipt \<times> World) option \<Rightarrow> (Receipt \<times> World) option \<Rightarrow> bool" where
  "twins K w u ow ou \<longleftrightarrow> (\<exists>r w' u'. ow = Some (r, w') \<and> ou = Some (r, u') \<and> agree K w' u' \<and> framed K w w' \<and> framed K u u' \<and>
    w_storage_reads w' = w_storage_reads u' \<and> w_storage_writes w' = w_storage_writes u')"

definition same_sets :: "World \<Rightarrow> World \<Rightarrow> bool" where
  "same_sets w u \<longleftrightarrow> w_storage_reads w = w_storage_reads u \<and> w_storage_writes w = w_storage_writes u"

lemma twinsI:
  "ow = Some (r, w') \<Longrightarrow> ou = Some (r, u') \<Longrightarrow> agree K w' u' \<Longrightarrow> framed K w w' \<Longrightarrow> framed K u u' \<Longrightarrow> same_sets w' u' \<Longrightarrow>
    twins K w u ow ou"
  unfolding twins_def same_sets_def by blast

lemma twins_same: "agree K w u \<Longrightarrow> same_sets w u \<Longrightarrow> twins K w u (Some (r, w)) (Some (r, u))"
  by (rule twinsI [OF refl refl _ framed_refl framed_refl])

lemma agree_account: "agree K w u \<Longrightarrow> a \<in> K \<Longrightarrow> length a = 32 \<Longrightarrow> accounts_get (w_accounts w) a = accounts_get (w_accounts u) a"
  unfolding agree_def using owned_simps(1) by (metis CellValue.inject(1) cell_value.simps(1))

lemma agree_code_of: "agree K w u \<Longrightarrow> a \<in> K \<Longrightarrow> length a = 32 \<Longrightarrow> bt_get (w_code w) a = bt_get (w_code u) a"
  unfolding agree_def using owned_simps(2) by (metis CellValue.inject(2) cell_value.simps(2))

lemma agree_slot: "agree K w u \<Longrightarrow> take 32 k \<in> K \<Longrightarrow> length k = 64 \<Longrightarrow> storage_get (w_storage w) k = storage_get (w_storage u) k"
  unfolding agree_def using owned_simps(3) by (metis CellValue.inject(2) cell_value.simps(3))

lemma agree_staking_of: "agree K w u \<Longrightarrow> STAKING_SLOT \<in> K \<Longrightarrow> w_staking w = w_staking u"
  unfolding agree_def using owned_simps(4) by (metis CellValue.inject(3) cell_value.simps(4))

lemma apply_transfer_twins:
  assumes "agree K w u" "same_sets w u" "accounts_ok (w_accounts w)" "accounts_ok (w_accounts u)" "wf_account sender"
    "addr \<in> K" "length addr = 32" "tr_to t \<in> K" "length (tr_to t) = 32"
  shows "twins K w u (apply_transfer w addr tx sender gas t) (apply_transfer u addr tx sender gas t)"
proof (cases "value_balance_check tx (tr_amount t) sender")
  case (Err e)
  then show ?thesis using twins_same [OF assms(1,2)] by (simp add: apply_transfer_outcome)
next
  case (Ok x)
  define q where "q = paid sender (tr_amount t) tx"
  let ?w1 = "set_account w addr q" and ?u1 = "set_account u addr q"
  have q: "wf_account q" using assms(5) by (simp add: q_def)
  have 1: "agree K ?w1 ?u1" by (rule agree_set_account [OF assms(1,3,4) q])
  define recv where "recv = unwrap_or account_empty (accounts_get (w_accounts ?u1) (tr_to t))"
  define p where "p = recv\<lparr>ac_balance := unwrap_or (ac_balance recv) (checked_add (ac_balance recv) (tr_amount t))\<rparr>"
  have rw: "unwrap_or account_empty (accounts_get (w_accounts ?w1) (tr_to t)) = recv"
    using agree_account [OF 1 assms(8,9)] by (simp add: recv_def)
  have ok: "accounts_ok (w_accounts ?w1)" "accounts_ok (w_accounts ?u1)" "wf_account p"
    using assms(3,4) q by (simp_all add: accounts_ok_put p_def recv_def)
  have out: "apply_transfer w addr tx sender gas t = Some (success gas (TransferEvent addr (tr_to t) (tr_amount t)), set_account ?w1 (tr_to t) p)"
    "apply_transfer u addr tx sender gas t = Some (success gas (TransferEvent addr (tr_to t) (tr_amount t)), set_account ?u1 (tr_to t) p)"
    using Ok rw by (simp_all add: apply_transfer_outcome Let_def p_def recv_def q_def set_account_def)
  show ?thesis
  proof (rule twinsI [OF out agree_set_account [OF 1 ok]])
    show "framed K w (set_account ?w1 (tr_to t) p)"
      by (rule framed_trans [OF framed_set_account [OF assms(6,7,3) q] framed_set_account [OF assms(8,9) ok(1,3)]])
    show "framed K u (set_account ?u1 (tr_to t) p)"
      by (rule framed_trans [OF framed_set_account [OF assms(6,7,4) q] framed_set_account [OF assms(8,9) ok(2,3)]])
    show "same_sets (set_account ?w1 (tr_to t) p) (set_account ?u1 (tr_to t) p)" using assms(2) by (simp add: same_sets_def)
  qed
qed

lemma apply_stake_twins:
  assumes "agree K w u" "same_sets w u" "accounts_ok (w_accounts w)" "accounts_ok (w_accounts u)" "wf_account sender"
    "addr \<in> K" "length addr = 32" "STAKING_SLOT \<in> K"
  shows "twins K w u (apply_stake w addr tx sender gas s) (apply_stake u addr tx sender gas s)"
proof (cases "value_balance_check tx (stake_debit s) sender")
  case (Err e)
  then show ?thesis using twins_same [OF assms(1,2)] by (simp add: apply_stake_outcome)
next
  case (Ok x)
  obtain res book where b: "apply_stake_tx (w_staking w) (w_params w) addr tx = (res, book)" by fastforce
  have bu: "apply_stake_tx (w_staking u) (w_params u) addr tx = (res, book)"
    using b agree_staking_of [OF assms(1,8)] assms(1) by (simp add: agree_def)
  let ?w1 = "w\<lparr>w_staking := book\<rparr>" and ?u1 = "u\<lparr>w_staking := book\<rparr>"
  have 1: "agree K ?w1 ?u1" "framed K w ?w1" "framed K u ?u1"
    using agree_staking [OF assms(1)] framed_staking [OF assms(8)] by blast+
  have sets: "same_sets ?w1 ?u1" using assms(2) by (simp add: same_sets_def)
  show ?thesis
  proof (cases res)
    case (Err e)
    have out: "apply_stake w addr tx sender gas s = Some (fail e, ?w1)" "apply_stake u addr tx sender gas s = Some (fail e, ?u1)"
      using Ok Err b bu by (simp_all add: apply_stake_outcome)
    show ?thesis by (rule twinsI [OF out 1 sets])
  next
    case res: (Ok y)
    let ?q = "paid sender (stake_debit s) tx"
    define p where "p = (if sp_kind s = Withdraw then ?q\<lparr>ac_balance := unwrap_or (ac_balance ?q) (checked_add (ac_balance ?q) (sp_amount s))\<rparr> else ?q)"
    have p: "wf_account p" using assms(5) by (simp add: p_def)
    have acc: "accounts_ok (w_accounts ?w1)" "accounts_ok (w_accounts ?u1)" using assms(3,4) by simp_all
    have out: "apply_stake w addr tx sender gas s = Some (success gas (StakeEvent addr (sp_amount s)), set_account ?w1 addr p)"
      "apply_stake u addr tx sender gas s = Some (success gas (StakeEvent addr (sp_amount s)), set_account ?u1 addr p)"
      using Ok res b bu by (simp_all add: apply_stake_outcome Let_def p_def set_account_def)
    show ?thesis
      by (rule twinsI [OF out agree_set_account [OF 1(1) acc p] framed_trans [OF 1(2) framed_set_account [OF assms(6,7) acc(1) p]]
            framed_trans [OF 1(3) framed_set_account [OF assms(6,7) acc(2) p]]])
        (use sets in \<open>simp add: same_sets_def\<close>)
  qed
qed

lemma apply_deploy_twins:
  assumes "agree K w u" "same_sets w u" "accounts_ok (w_accounts w)" "accounts_ok (w_accounts u)" "wf_account sender"
    "addr \<in> K" "length addr = 32" "create_address H addr (tx_nonce tx) \<in> K" "\<And>b. length (H b) = 32"
  shows "twins K w u (apply_deploy H W w addr tx sender gas d) (apply_deploy H W u addr tx sender gas d)"
proof (cases "value_balance_check tx 0 sender = Ok () \<and> is_ok (prepare W tx d)")
  case False
  then show ?thesis
    using twins_same [OF assms(1,2)] by (cases "value_balance_check tx 0 sender") (auto simp: apply_deploy_outcome)
next
  case True
  let ?a = "create_address H addr (tx_nonce tx)"
  have len: "length ?a = 32" using assms(9) by (simp add: create_address_def hash_to_array_def)
  define q where "q = paid sender 0 tx"
  have q: "wf_account q" using assms(5) by (simp add: q_def)
  let ?w1 = "set_account w addr q" and ?u1 = "set_account u addr q"
  have 1: "agree K ?w1 ?u1" by (rule agree_set_account [OF assms(1,3,4) q])
  define acc where "acc = (unwrap_or account_empty (accounts_get (w_accounts ?u1) ?a))\<lparr>ac_code_hash := hash_to_array H (dp_code d)\<rparr>"
  have rw: "(unwrap_or account_empty (accounts_get (w_accounts ?w1) ?a))\<lparr>ac_code_hash := hash_to_array H (dp_code d)\<rparr> = acc"
    using agree_account [OF 1 assms(8) len] by (simp add: acc_def)
  have ok: "accounts_ok (w_accounts ?w1)" "accounts_ok (w_accounts ?u1)" "wf_account acc"
    using assms(3,4,9) q by (simp_all add: accounts_ok_put acc_def hash_to_array_def)
  let ?code = "\<lambda>w. w\<lparr>w_code := bt_insert ?a (dp_code d) (w_code w)\<rparr>"
  have out: "apply_deploy H W w addr tx sender gas d = Some (success gas (WasmEvent addr ?a), ?code (set_account ?w1 ?a acc))"
    "apply_deploy H W u addr tx sender gas d = Some (success gas (WasmEvent addr ?a), ?code (set_account ?u1 ?a acc))"
    using True rw by (simp_all add: apply_deploy_outcome Let_def acc_def q_def set_account_def)
  show ?thesis
  proof (rule twinsI [OF out agree_code [OF agree_set_account [OF 1 ok]]])
    show "framed K w (?code (set_account ?w1 ?a acc))"
      by (rule framed_trans [OF framed_trans [OF framed_set_account [OF assms(6,7,3) q] framed_set_account [OF assms(8) len ok(1,3)]]
            framed_code [OF assms(8) len]])
    show "framed K u (?code (set_account ?u1 ?a acc))"
      by (rule framed_trans [OF framed_trans [OF framed_set_account [OF assms(6,7,4) q] framed_set_account [OF assms(8) len ok(2,3)]]
            framed_code [OF assms(8) len]])
    show "same_sets (?code (set_account ?w1 ?a acc)) (?code (set_account ?u1 ?a acc))" using assms(2) by (simp add: same_sets_def)
  qed
qed

lemma take_storage_key: "length c = 32 \<Longrightarrow> take 32 (storage_key c slot) = c"
  by (simp add: storage_key_def)

lemma confined_cells:
  assumes "confined c w w'" "length c = 32" "w_storage_writes w = {}"
  shows "cell_value w' x = cell_value w x \<or> (\<exists>slot. x = CStorage (storage_key c slot))"
proof (cases x)
  case (CStorage k)
  then show ?thesis using assms(1,3) by (auto simp: confined_def) 
qed (use assms(1) in \<open>simp_all add: confined_def\<close>)

lemma confined_framed:
  assumes "confined c w w'" "length c = 32" "c \<in> K" "w_storage_writes w = {}"
  shows "framed K w w'"
proof -
  have "cell_value w' x = cell_value w x" if "\<not> owned K x" for x
    using confined_cells [OF assms(1,2,4), of x] that assms(2,3) by (auto simp: take_storage_key)
  then show ?thesis using assms(1) by (simp add: framed_def confined_def)
qed

lemma confined_agree:
  assumes "agree K w u" "confined c w w'" "confined c u u'" "same_slots c w' u'" "length c = 32"
    "w_storage_writes w = {}" "w_storage_writes u = {}"
  shows "agree K w' u'"
proof -
  have "cell_value w' x = cell_value u' x" if "owned K x" for x
  proof (cases "\<exists>slot. x = CStorage (storage_key c slot)")
    case True
    then show ?thesis using assms(4) by (auto simp: same_slots_def)
  next
    case False
    then have "cell_value w' x = cell_value w x" "cell_value u' x = cell_value u x"
      using confined_cells [OF assms(2,5,6), of x] confined_cells [OF assms(3,5,7), of x] by blast+
    then show ?thesis using assms(1) that by (simp add: agree_def)
  qed
  then show ?thesis using assms(1-3) by (simp add: agree_def confined_def)
qed

definition cleared :: "World \<Rightarrow> bool" where
  "cleared w \<longleftrightarrow> w_executing w = {} \<and> w_storage_reads w = {} \<and> w_storage_writes w = {}"

lemma apply_call_twins:
  assumes "agree K w u" "cleared w" "cleared u" "world_ok w" "world_ok u" "wf_account sender"
    "addr \<in> K" "length addr = 32" "cl_to c \<in> K" "length (cl_to c) = 32"
  shows "twins K w u (apply_call W w addr tx sender gas c) (apply_call W u addr tx sender gas c)"
proof (cases "value_balance_check tx 0 sender = Ok () \<and> bt_get (w_code w) (cl_to c) \<noteq> None")
  case False
  have "same_sets w u" using assms(2,3) by (simp add: cleared_def same_sets_def)
  then show ?thesis
    using False twins_same [OF assms(1)] agree_code_of [OF assms(1,9,10)]
    by (cases "value_balance_check tx 0 sender") (auto simp: apply_call_outcome)
next
  case True
  define q where "q = paid sender 0 tx"
  have q: "wf_account q" using assms(6) by (simp add: q_def)
  let ?w1 = "set_account w addr q" and ?u1 = "set_account u addr q"
  have acc: "accounts_ok (w_accounts w)" "accounts_ok (w_accounts u)" using assms(4,5) by (simp_all add: world_ok_def)
  have 1: "agree K ?w1 ?u1" by (rule agree_set_account [OF assms(1) acc q])
  have none: "w_storage_writes ?w1 = {}" "w_storage_writes ?u1 = {}" using assms(2,3) by (simp_all add: cleared_def)
  have ready: "guest_ready (cl_to c) ?w1" "guest_ready (cl_to c) ?u1" using assms(4,5,10) by (simp_all add: guest_ready_def world_ok_def)
  have "storage_get (w_storage w) (storage_key (cl_to c) slot) = storage_get (w_storage u) (storage_key (cl_to c) slot)" for slot
    using agree_slot [OF assms(1), of "storage_key (cl_to c) slot"] assms(9,10) by (simp add: take_storage_key)
  then have "same_slots (cl_to c) ?w1 ?u1" using assms(2,3) by (simp add: same_slots_def cleared_def)
  moreover have "cl_to c \<notin> w_executing ?w1" "cl_to c \<notin> w_executing ?u1" using assms(2,3) by (simp_all add: cleared_def)
  moreover have "bt_get (w_code ?w1) (cl_to c) = bt_get (w_code ?u1) (cl_to c)" using agree_code_of [OF assms(1,9,10)] by simp
  ultimately obtain r w' u' where run: "wasm_call W ?w1 c (fuel_budget tx gas) = Some (r, w')" "wasm_call W ?u1 c (fuel_budget tx gas) = Some (r, u')"
      "confined (cl_to c) ?w1 w'" "confined (cl_to c) ?u1 u'" "same_slots (cl_to c) w' u'"
    using wasm_call_local [OF ready] by blast
  obtain b where code: "bt_get (w_code w) (cl_to c) = Some b" "bt_get (w_code u) (cl_to c) = Some b"
    using True agree_code_of [OF assms(1,9,10)] by auto
  have sets: "same_sets w u" using assms(2,3) by (simp add: same_sets_def cleared_def)
  show ?thesis
  proof (cases r)
    case (Err e)
    have "apply_call W w addr tx sender gas c = Some (fail e, w)" "apply_call W u addr tx sender gas c = Some (fail e, u)"
      using True code run(1,2) Err by (simp_all add: apply_call_outcome set_account_def q_def)
    then show ?thesis using twins_same [OF assms(1) sets] by simp
  next
    case (Ok x)
    have out: "apply_call W w addr tx sender gas c = Some (success gas (WasmEvent addr (cl_to c)), w')"
      "apply_call W u addr tx sender gas c = Some (success gas (WasmEvent addr (cl_to c)), u')"
      using True code run(1,2) Ok by (simp_all add: apply_call_outcome set_account_def q_def)
    show ?thesis
    proof (rule twinsI [OF out confined_agree [OF 1 run(3-5) assms(10) none]])
      show "framed K w w'"
        by (rule framed_trans [OF framed_set_account [OF assms(7,8) acc(1) q] confined_framed [OF run(3) assms(10,9) none(1)]])
      show "framed K u u'"
        by (rule framed_trans [OF framed_set_account [OF assms(7,8) acc(2) q] confined_framed [OF run(4) assms(10,9) none(2)]])
      show "same_sets w' u'" using run(5) by (simp add: same_slots_def same_sets_def)
    qed
  qed
qed

text \<open>The keys of a transaction besides its sender.\<close>

definition payload_keys :: "(bytes \<Rightarrow> Hash) \<Rightarrow> Address \<Rightarrow> Tx \<Rightarrow> bytes set" where
  "payload_keys H addr tx =
    (case tx_payload tx of
       TransferP t \<Rightarrow> {tr_to t}
     | StakeP s \<Rightarrow> {STAKING_SLOT}
     | DeployP d \<Rightarrow> {create_address H addr (tx_nonce tx)}
     | CallP c \<Rightarrow> {cl_to c})"

lemma payload_keys_inferred:
  "sender_of H E signd = Some addr \<Longrightarrow> payload_keys H addr (st_tx signd) \<subseteq> inferred_keys H E signd"
  by (auto simp: payload_keys_def inferred_keys_def account_key_def as_transfer_def as_stake_def as_deploy_def as_call_def
      split: TxPayload.splits)

lemma apply_payload_twins:
  assumes "agree K w u" "cleared w" "cleared u" "world_ok w" "world_ok u" "wf_account sender"
    "addr \<in> K" "length addr = 32" "wf_tx tx" "\<And>b. length (H b) = 32" "payload_keys H addr tx \<subseteq> K"
  shows "twins K w u (apply_payload H W w addr tx sender gas) (apply_payload H W u addr tx sender gas)"
proof -
  have sets: "same_sets w u" using assms(2,3) by (simp add: cleared_def same_sets_def)
  have acc: "accounts_ok (w_accounts w)" "accounts_ok (w_accounts u)" using assms(4,5) by (simp_all add: world_ok_def)
  show ?thesis
  proof (cases "tx_payload tx")
    case (TransferP t)
    then have "tr_to t \<in> K" "length (tr_to t) = 32" using assms(9,11) by (simp_all add: payload_keys_def wf_tx_def)
    from apply_transfer_twins [OF assms(1) sets acc assms(6-8) this] show ?thesis
      using TransferP by (simp add: apply_payload_def as_stake_def as_deploy_def as_call_def as_transfer_def)
  next
    case (StakeP s)
    then have "STAKING_SLOT \<in> K" using assms(11) by (simp add: payload_keys_def)
    from apply_stake_twins [OF assms(1) sets acc assms(6-8) this] show ?thesis
      using StakeP by (simp add: apply_payload_def as_stake_def)
  next
    case (DeployP d)
    then have "create_address H addr (tx_nonce tx) \<in> K" using assms(11) by (simp add: payload_keys_def)
    from apply_deploy_twins [OF assms(1) sets acc assms(6-8) this assms(10)] show ?thesis
      using DeployP by (simp add: apply_payload_def as_stake_def as_deploy_def)
  next
    case (CallP c)
    then have "cl_to c \<in> K" "length (cl_to c) = 32" using assms(9,11) by (simp_all add: payload_keys_def wf_tx_def)
    from apply_call_twins [OF assms(1-8) this] show ?thesis
      using CallP by (simp add: apply_payload_def as_stake_def as_deploy_def as_call_def)
  qed
qed

lemma cell_value_clear [simp]: "cell_value (clear_sets w) c = cell_value w c"
  by (cases c) simp_all

lemma agree_clear [simp]: "agree K (clear_sets w) (clear_sets u) = agree K w u"
  by (simp add: agree_def)

lemma framed_clear [simp]: "framed K (clear_sets w) w' = framed K w w'"
  by (simp add: framed_def)

lemma cleared_clear [simp]: "cleared (clear_sets w)"
  by (simp add: cleared_def)

lemma same_sets_clear [simp]: "same_sets (clear_sets w) (clear_sets u)"
  by (simp add: same_sets_def)

lemma twins_clear [simp]: "twins K (clear_sets w) (clear_sets u) = twins K w u"
  by (simp add: twins_def fun_eq_iff)

lemma sender_of_address: "sender_address H E s = Ok a \<longleftrightarrow> sender_of H E s = Some a"
  by (auto simp: sender_address_def sender_of_def result_simps map_err.simps split: result.splits)

text \<open>
  The receipt of a transaction, and what it does to the cells of its keys, depend
  on these cells only; all other cells it leaves as they are.
\<close>

lemma apply_tx_twins:
  assumes "agree (inferred_keys H E signd) w u" "world_ok w" "world_ok u" "wf_tx (st_tx signd)" "\<And>b. length (H b) = 32"
  shows "twins (inferred_keys H E signd) w u (apply_tx H E W w signd) (apply_tx H E W u signd)"
proof -
  let ?K = "inferred_keys H E signd" and ?tx = "st_tx signd" and ?w = "clear_sets w" and ?u = "clear_sets u"
  have ag: "agree ?K ?w ?u" using assms(1) by simp
  have rejected: "twins ?K w u (Some (r, ?w)) (Some (r, ?u))" for r
    using twins_same [OF ag same_sets_clear, of r] by simp
  have enc: "tx_encode ?tx = Some (tx_bytes ?tx)" by (rule tx_encode_wf [OF assms(4)])
  show ?thesis
  proof (cases "is_ok (verify_ed25519 E signd)")
    case False
    then show ?thesis using rejected by (simp add: apply_tx_def Let_def enc split: result.split)
  next
    case verified: True
    show ?thesis
    proof (cases "sender_address H E signd")
      case (Err e)
      then show ?thesis using rejected verified by (simp add: apply_tx_def Let_def enc split: result.split)
    next
      case (Ok addr)
      have in_K: "addr \<in> ?K" using Ok by (simp add: sender_of_address inferred_keys_def account_key_def)
      have len: "length addr = 32"
        using Ok assms(5) by (auto simp: sender_of_address sender_of_def from_ed25519_def hash_to_array_def split: result.splits)
      define sender where "sender = unwrap_or account_empty (accounts_get (w_accounts w) addr)"
      have su: "unwrap_or account_empty (accounts_get (w_accounts u) addr) = sender"
        using agree_account [OF assms(1) in_K len] by (simp add: sender_def)
      have wf: "wf_account sender" by (simp add: sender_def)
      show ?thesis
      proof (cases "nonce_check ?tx sender = Ok () \<and> is_ok (gas_meter ?tx)")
        case False
        then show ?thesis
          using rejected verified Ok su sender_def enc
          by (cases "nonce_check ?tx sender"; cases "gas_meter ?tx") (simp_all add: apply_tx_def Let_def split: result.split)
      next
        case True
        then obtain gas where gas: "nonce_check ?tx sender = Ok ()" "gas_meter ?tx = Ok gas" by (auto simp: is_ok_iff)
        have "apply_tx H E W w signd = apply_payload H W ?w addr ?tx sender gas"
          "apply_tx H E W u signd = apply_payload H W ?u addr ?tx sender gas"
          using verified Ok su sender_def gas enc by (simp_all add: apply_tx_def Let_def split: result.split)
        moreover have "twins ?K ?w ?u (apply_payload H W ?w addr ?tx sender gas) (apply_payload H W ?u addr ?tx sender gas)"
        proof (rule apply_payload_twins [OF ag cleared_clear cleared_clear _ _ wf in_K len assms(4,5)])
          show "world_ok ?w" "world_ok ?u" using assms(2,3) by simp_all
          show "payload_keys H addr ?tx \<subseteq> ?K" using Ok by (simp add: payload_keys_inferred sender_of_address)
        qed
        ultimately show ?thesis by simp
      qed
    qed
  qed
qed

section \<open>What a transaction leaves behind\<close>

text \<open>
  The slots noted as read or written belong to the keys, a slot that is not noted as
  written is unchanged, and no account, code or slot disappears.
\<close>

fun absent :: "CellValue \<Rightarrow> bool" where
  "absent (VAccount v) \<longleftrightarrow> v = None"
| "absent (VBytes v) \<longleftrightarrow> v = None"
| "absent (VStaking v) \<longleftrightarrow> False"

definition grown :: "bytes set \<Rightarrow> World \<Rightarrow> World \<Rightarrow> bool" where
  "grown K w w' \<longleftrightarrow> finite (w_storage_reads w') \<and> finite (w_storage_writes w') \<and>
    (\<forall>k\<in>w_storage_reads w' \<union> w_storage_writes w'. length k = 64 \<and> take 32 k \<in> K) \<and>
    (\<forall>k. k \<in> w_storage_writes w' \<or> storage_get (w_storage w') k = storage_get (w_storage w) k) \<and>
    (\<forall>c. absent (cell_value w' c) \<longrightarrow> cell_value w' c = cell_value w c)"

lemma grown_refl: "cleared w \<Longrightarrow> grown K w w"
  by (simp add: grown_def cleared_def)

lemma grown_set_account:
  "grown K w v \<Longrightarrow> accounts_ok (w_accounts v) \<Longrightarrow> wf_account acc \<Longrightarrow> grown K w (set_account v a acc)"
  by (simp add: grown_def cell_value_set_account)

lemma grown_code: "grown K w v \<Longrightarrow> grown K w (v\<lparr>w_code := bt_insert a b (w_code v)\<rparr>)"
  by (simp add: grown_def cell_value_code)

lemma grown_staking: "grown K w v \<Longrightarrow> grown K w (v\<lparr>w_staking := b\<rparr>)"
  by (simp add: grown_def cell_value_staking)

lemma confined_grown:
  assumes "confined c w w'" "cleared w" "length c = 32" "c \<in> K" "\<And>x. cell_value w x = cell_value v x \<or> \<not> absent (cell_value w x)"
    "w_storage w = w_storage v"
  shows "grown K v w'"
proof -
  have sub: "w_storage_reads w' \<subseteq> range (storage_key c)" "w_storage_writes w' \<subseteq> range (storage_key c)"
    using assms(1,2) by (auto simp: confined_def cleared_def)
  then have "finite (w_storage_reads w')" "finite (w_storage_writes w')" using finite_subset [OF _ finite_imageI [OF finite]] by blast+
  moreover have "length k = 64 \<and> take 32 k \<in> K" if "k \<in> w_storage_reads w' \<union> w_storage_writes w'" for k
    using that sub assms(3,4) by (auto simp: take_storage_key)
  moreover have "cell_value w' x = cell_value w x" if "absent (cell_value w' x)" for x
    using that assms(1) by (cases x) (auto simp: confined_def)
  ultimately show ?thesis using assms(1,5,6) by (simp add: grown_def confined_def) metis
qed

lemma apply_call_grown:
  assumes "apply_call W w addr tx sender gas c = Some (r, w')" "cleared w" "world_ok w" "wf_account sender"
    "cl_to c \<in> K" "length (cl_to c) = 32"
  shows "grown K w w'"
proof (cases "w' = w")
  case True
  then show ?thesis using grown_refl [OF assms(2)] by simp
next
  case False
  define w1 where "w1 = set_account w addr (paid sender 0 tx)"
  have run: "wasm_call W w1 c (fuel_budget tx gas) = Some (Ok (), w')"
    using apply_call_SomeD [OF assms(1)] False by (auto simp: w1_def set_account_def)
  have "guest_ready (cl_to c) w1" "same_slots (cl_to c) w1 w1" "cl_to c \<notin> w_executing w1"
    using assms(2,3,6) by (simp_all add: w1_def guest_ready_def world_ok_def same_slots_def cleared_def)
  then have "confined (cl_to c) w1 w'" using wasm_call_local [of c w1 w1 W "fuel_budget tx gas"] run by auto
  moreover have "cell_value w1 x = cell_value w x \<or> \<not> absent (cell_value w1 x)" for x
    using assms(3,4) by (simp add: w1_def cell_value_set_account world_ok_def)
  moreover have "cleared w1" using assms(2) by (simp add: w1_def cleared_def)
  ultimately show ?thesis using confined_grown [of "cl_to c" w1 w' K w] assms(5,6) by (simp add: w1_def)
qed

lemma apply_payload_grown:
  assumes "apply_payload H W w addr tx sender gas = Some (r, w')" "cleared w" "world_ok w" "wf_account sender"
    "wf_tx tx" "\<And>b. length (H b) = 32" "payload_keys H addr tx \<subseteq> K"
  shows "grown K w w'"
proof -
  note same = grown_refl [OF assms(2), of K]
  have acc: "accounts_ok (w_accounts w)" using assms(3) by (simp add: world_ok_def)
  note sub = as_stake_def as_deploy_def as_call_def as_transfer_def apply_payload_def Let_def
  show ?thesis
  proof (cases "tx_payload tx")
    case (TransferP t)
    then show ?thesis
      using assms(1,4) same acc
      by (auto simp: sub apply_transfer_outcome accounts_ok_put split: result.splits
          intro!: grown_set_account [unfolded set_account_def, of K w "w\<lparr>w_accounts := accounts_put (w_accounts w) addr (paid sender (tr_amount t) tx)\<rparr>", simplified]
            grown_set_account [unfolded set_account_def])
  next
    case (StakeP s)
    then show ?thesis
      using assms(1,4) same acc
      by (auto simp: sub apply_stake_outcome grown_staking split: result.splits prod.splits if_splits
          intro!: grown_set_account [unfolded set_account_def, of K w "w\<lparr>w_staking := b\<rparr>" for b, simplified])
  next
    case (DeployP d)
    define created where "created = create_address H addr (tx_nonce tx)"
    define v where "v = set_account w addr (paid sender 0 tx)"
    define new where "new = (unwrap_or account_empty (accounts_get (w_accounts v) created))\<lparr>ac_code_hash := hash_to_array H (dp_code d)\<rparr>"
    have "w' = w \<or> w' = (set_account v created new)\<lparr>w_code := bt_insert created (dp_code d) (w_code (set_account v created new))\<rparr>"
      using assms(1) DeployP
      by (auto simp: sub apply_deploy_outcome created_def v_def new_def set_account_def split: result.splits if_splits)
    moreover have "grown K w v" "accounts_ok (w_accounts v)" "wf_account new"
      using grown_set_account [OF same acc] assms(4,6) acc by (simp_all add: v_def new_def accounts_ok_put hash_to_array_def)
    ultimately show ?thesis using same grown_code [OF grown_set_account] by auto
  next
    case (CallP c)
    then show ?thesis
      using apply_call_grown [of W w addr tx sender gas c r w' K] assms by (simp add: sub payload_keys_def wf_tx_def)
  qed
qed

lemma apply_tx_grown:
  assumes "apply_tx H E W w signd = Some (r, w')" "world_ok w" "wf_tx (st_tx signd)" "\<And>b. length (H b) = 32"
  shows "grown (inferred_keys H E signd) w w'"
proof -
  have clear: "grown K (clear_sets w) v = grown K w v" for K v by (simp add: grown_def)
  from assms(1) show ?thesis
  proof (cases rule: apply_tx_cases)
    case (rejected e)
    then show ?thesis using grown_refl [OF cleared_clear, of _ w] by (simp add: clear)
  next
    case (applied addr gas)
    have "payload_keys H addr (st_tx signd) \<subseteq> inferred_keys H E signd"
      using applied(2) by (simp add: payload_keys_inferred sender_of_address)
    from apply_payload_grown [OF applied(5) cleared_clear _ _ assms(3,4) this] show ?thesis using assms(2) by (simp add: clear)
  qed
qed

lemma apply_stake_failed_same:
  assumes "apply_stake w addr tx sender gas s = Some (r, w')" "\<not> rc_success r" "world_ok w" "as_stake tx = Some s"
    "sender = unwrap_or account_empty (accounts_get (w_accounts w) addr)" "finite A" "addr \<in> A" "token_supply A w < 2 ^ 128"
  shows "w' = w"
proof (cases "value_balance_check tx (stake_debit s) sender")
  case (Err e)
  then show ?thesis using assms(1) by (simp add: apply_stake_outcome)
next
  case (Ok u)
  obtain e book where b: "apply_stake_tx (w_staking w) (w_params w) addr tx = (Err e, book)" "w' = w\<lparr>w_staking := book\<rparr>"
    using assms(1,2) Ok by (auto simp: apply_stake_outcome Let_def split: result.splits prod.splits)
  have "bt_sum unat (sk_self_bond (w_staking w)) + unat (sp_amount s) < 2 ^ 128" if "sp_kind s = Bond"
  proof -
    have "unat (sp_amount s) \<le> unat (ac_balance sender)"
      using value_balance_check_pays(3) [of tx "stake_debit s" sender] Ok that by (simp add: stake_debit_def)
    also have "\<dots> \<le> (\<Sum>a\<in>A. balance_of (w_accounts w) a)"
      using member_le_sum [OF assms(7) _ assms(6), of "balance_of (w_accounts w)"] assms(5) by (simp add: balance_of_def)
    finally show ?thesis using assms(8) by (simp add: token_supply_def staked_def)
  qed
  then have "book = w_staking w" using apply_stake_failed(2) [OF b(1) _ assms(4)] assms(3) by (simp add: world_ok_def)
  then show ?thesis using b(2) by simp
qed

lemma apply_tx_failed_same:
  assumes "apply_tx H E W w signd = Some (r, w')" "\<not> rc_success r" "world_ok w"
    "finite A" "written_to H E signd \<subseteq> A" "token_supply A w < 2 ^ 128"
  shows "w' = clear_sets w"
  using assms(1)
proof (cases rule: apply_tx_cases)
  case (applied addr gas)
  let ?w = "clear_sets w" and ?tx = "st_tx signd"
  have addr: "addr \<in> A" using applied(2) assms(5) by (auto simp: written_to_def)
  show ?thesis
  proof (cases "tx_payload ?tx")
    case (StakeP s)
    then have "apply_stake ?w addr ?tx (unwrap_or account_empty (accounts_get (w_accounts ?w) addr)) gas s = Some (r, w')" "as_stake ?tx = Some s"
      using applied(5) by (simp_all add: apply_payload_def as_stake_def)
    from apply_stake_failed_same [OF this(1) assms(2) _ this(2) refl assms(4) addr] show ?thesis
      using assms(3,6) by (simp add: token_supply_def)
  qed (use applied(5) assms(2) in \<open>auto simp: apply_payload_def as_stake_def as_deploy_def as_call_def as_transfer_def
      apply_transfer_outcome apply_deploy_outcome Let_def dest: apply_call_SomeD split: result.splits if_splits\<close>)
qed simp

end
