(* ===== verification/Exec_Stm.thy ===== *)
theory Exec_Stm
  imports Exec_Local "HOL-Library.Multiset"
begin

text \<open>
  The parallel engine of \<open>crates/execution\<close> (\<open>stm\<close>): speculation of every transaction
  on the world before the block (\<open>rwset.rs\<close>), the conflict graph (\<open>graph.rs\<close>), the
  schedule of waves (\<open>schedule.rs\<close>), validation of observed versions (\<open>validate.rs\<close>),
  the commit in block order (\<open>reexec.rs\<close>) and the engine (\<open>mod.rs\<close>). The threads of
  speculation share only data that none of them changes, so speculating in block
  order is what any interleaving of them gives; the threads of \<open>run_waves\<close> do
  nothing. The lemmas show that the engine gives what sequential execution gives.
\<close>

section \<open>Speculation (rwset.rs)\<close>

record SpecTx =
  sx_index :: nat
  sx_reads :: "bytes set"
  sx_writes :: "bytes set"
  sx_observed :: "(bytes, SlotVersion) btree"
  sx_spec_world :: World
  sx_receipt :: Receipt

definition latest_version :: "MemoryStore \<Rightarrow> bytes \<Rightarrow> SlotVersion option" where
  "latest_version slots key = find_version slots key 0"

text \<open>Reading the latest version of a key and noting it.\<close>

definition observe_key ::
  "MemoryStore \<Rightarrow> bytes \<Rightarrow> (bytes, SlotVersion) btree \<Rightarrow> (bytes, SlotVersion) btree option" where
  "observe_key slots key observed =
    do {
      latest \<leftarrow> latest_version slots key;
      (case slot_read memory_store slots key latest of
         Err _ \<Rightarrow> None
       | Ok _ \<Rightarrow> Some (bt_insert key latest observed))
    }"

text \<open>The write that seeds a slot; \<open>None\<close> is a panic of \<open>expect\<close> or \<open>unwrap\<close>.\<close>

definition seed_write :: "MemoryStore \<Rightarrow> bytes \<Rightarrow> bytes \<Rightarrow> MemoryStore option" where
  "seed_write slots key v =
    (case slot_validate memory_store slots key 0 of
       Err _ \<Rightarrow> None
     | Ok fresh \<Rightarrow>
         if fresh then (case slot_write memory_store slots key v of (Err _, _) \<Rightarrow> None | (Ok _, slots) \<Rightarrow> Some slots)
         else Some slots)"

definition seed_key :: "World \<Rightarrow> MemoryStore \<Rightarrow> bytes \<Rightarrow> MemoryStore option" where
  "seed_key world slots key =
    (if length key = 32 then
       (case accounts_get (w_accounts world) key of
          None \<Rightarrow> Some slots
        | Some acc \<Rightarrow> seed_write slots key (account_encode acc))
     else if length key = 64 then
       (case storage_get (w_storage world) key of
          None \<Rightarrow> Some slots
        | Some val \<Rightarrow> seed_write slots key val)
     else Some slots)"

fun seed_loop ::
  "World \<Rightarrow> bytes list \<Rightarrow> MemoryStore \<Rightarrow> (bytes, SlotVersion) btree \<Rightarrow> ((bytes, SlotVersion) btree \<times> MemoryStore) option" where
  "seed_loop world [] slots observed = Some (observed, slots)"
| "seed_loop world (key # keys) slots observed =
    (if key = STAKING_SLOT then
       (case slot_validate memory_store slots key 0 of
          Err _ \<Rightarrow> None
        | Ok fresh \<Rightarrow>
            if fresh then
              (case slot_read memory_store slots key 0 of
                 Err _ \<Rightarrow> None
               | Ok _ \<Rightarrow> seed_loop world keys slots (bt_insert key 0 observed))
            else seed_loop world keys slots observed)
     else do {
       slots \<leftarrow> seed_key world slots key;
       observed \<leftarrow> observe_key slots key observed;
       seed_loop world keys slots observed
     })"

definition seed_and_read :: "MemoryStore \<Rightarrow> World \<Rightarrow> bytes set \<Rightarrow> ((bytes, SlotVersion) btree \<times> MemoryStore) option" where
  "seed_and_read slots world keys = seed_loop world (sorted_list_of_set keys) slots []"

definition writes_from :: "Receipt \<Rightarrow> bytes set \<Rightarrow> bytes set" where
  "writes_from receipt reads = (if \<not> rc_success receipt then {} else reads)"

text \<open>The two loops of \<open>speculate_one\<close> over keys; the second skips keys already observed.\<close>

fun observe_all ::
  "MemoryStore \<Rightarrow> bytes list \<Rightarrow> (bytes, SlotVersion) btree \<Rightarrow> (bytes, SlotVersion) btree option" where
  "observe_all slots [] observed = Some observed"
| "observe_all slots (key # keys) observed =
    do { observed \<leftarrow> observe_key slots key observed; observe_all slots keys observed }"

fun observe_rest ::
  "MemoryStore \<Rightarrow> bytes list \<Rightarrow> (bytes, SlotVersion) btree \<Rightarrow> (bytes, SlotVersion) btree option" where
  "observe_rest slots [] observed = Some observed"
| "observe_rest slots (key # keys) observed =
    (if bt_get observed key \<noteq> None then observe_rest slots keys observed
     else do { observed \<leftarrow> observe_key slots key observed; observe_rest slots keys observed })"

definition speculate_one ::
  "(bytes \<Rightarrow> Hash) \<Rightarrow> Ed25519 \<Rightarrow> Wasmtime \<Rightarrow> nat \<Rightarrow> World \<Rightarrow> SignedTx \<Rightarrow> MemoryStore \<Rightarrow> SpecTx option" where
  "speculate_one H E W index pre signd slots =
    do {
      let keys = inferred_keys H E signd;
      observed \<leftarrow> observe_all slots (sorted_list_of_set keys) [];
      (receipt, spec_world) \<leftarrow> apply_tx H E W pre signd;
      let reads = keys \<union> w_storage_reads spec_world;
      observed \<leftarrow> observe_rest slots (sorted_list_of_set reads) observed;
      let writes = writes_from receipt reads \<union> w_storage_writes spec_world;
      Some \<lparr>sx_index = index, sx_reads = reads, sx_writes = writes, sx_observed = observed,
            sx_spec_world = spec_world, sx_receipt = receipt\<rparr>
    }"

fun speculate_from ::
  "(bytes \<Rightarrow> Hash) \<Rightarrow> Ed25519 \<Rightarrow> Wasmtime \<Rightarrow> nat \<Rightarrow> World \<Rightarrow> SignedTx list \<Rightarrow> MemoryStore \<Rightarrow> SpecTx list option" where
  "speculate_from H E W i pre [] slots = Some []"
| "speculate_from H E W i pre (tx # txs) slots =
    do {
      spec \<leftarrow> speculate_one H E W i pre tx slots;
      specs \<leftarrow> speculate_from H E W (Suc i) pre txs slots;
      Some (spec # specs)
    }"

definition speculate ::
  "(bytes \<Rightarrow> Hash) \<Rightarrow> Ed25519 \<Rightarrow> Wasmtime \<Rightarrow> World \<Rightarrow> SignedTx list \<Rightarrow> MemoryStore \<Rightarrow> SpecTx list option" where
  "speculate H E W pre txs slots = map_option (sort_key sx_index) (speculate_from H E W 0 pre txs slots)"

section \<open>The conflict graph (graph.rs)\<close>

record ConflictGraph =
  cg_adj :: "(nat, nat set) btree"
  cg_directed :: "(nat \<times> nat) set"

definition isolated :: "nat \<Rightarrow> ConflictGraph" where
  "isolated n = \<lparr>cg_adj = fold (\<lambda>i adj. bt_insert i {} adj) [0..<n] [], cg_directed = {}\<rparr>"

definition union_rw :: "SpecTx \<Rightarrow> bytes set" where
  "union_rw s = sx_reads s \<union> sx_writes s"

text \<open>Adding an edge; every index has its entry before the first edge, so \<open>get_mut\<close> finds it.\<close>

definition add_neighbor :: "nat \<Rightarrow> nat \<Rightarrow> (nat, nat set) btree \<Rightarrow> (nat, nat set) btree option" where
  "add_neighbor i j adj = (case bt_get adj i of None \<Rightarrow> None | Some ns \<Rightarrow> Some (bt_insert i (insert j ns) adj))"

definition add_edge :: "SpecTx \<Rightarrow> SpecTx \<Rightarrow> ConflictGraph \<Rightarrow> ConflictGraph option" where
  "add_edge a b g =
    (if sx_index a = sx_index b then Some g
     else if sx_writes a \<inter> union_rw b = {} then Some g
     else do {
       adj \<leftarrow> add_neighbor (sx_index a) (sx_index b) (cg_adj g);
       adj \<leftarrow> add_neighbor (sx_index b) (sx_index a) adj;
       Some \<lparr>cg_adj = adj, cg_directed = insert (sx_index a, sx_index b) (cg_directed g)\<rparr>
     })"

fun add_edges :: "(SpecTx \<times> SpecTx) list \<Rightarrow> ConflictGraph \<Rightarrow> ConflictGraph option" where
  "add_edges [] g = Some g"
| "add_edges ((a, b) # ps) g = do { g \<leftarrow> add_edge a b g; add_edges ps g }"

definition conflict_graph :: "SpecTx list \<Rightarrow> ConflictGraph option" where
  "conflict_graph specs =
    (let adj = fold (\<lambda>s adj. if bt_get adj (sx_index s) = None then bt_insert (sx_index s) {} adj else adj) specs []
     in add_edges (List.product specs specs) \<lparr>cg_adj = adj, cg_directed = {}\<rparr>)"

section \<open>The schedule (schedule.rs)\<close>

fun pick_wave :: "ConflictGraph \<Rightarrow> nat list \<Rightarrow> nat set \<Rightarrow> nat list" where
  "pick_wave g [] blocked = []"
| "pick_wave g (i # cand) blocked =
    (if i \<in> blocked then pick_wave g cand blocked
     else i # pick_wave g cand (case bt_get (cg_adj g) i of None \<Rightarrow> blocked | Some nbrs \<Rightarrow> blocked \<union> nbrs))"

lemma pick_wave_subset: "set (pick_wave g cand blocked) \<subseteq> set cand"
  by (induction g cand blocked rule: pick_wave.induct) auto

lemma pick_wave_first: "remaining \<noteq> [] \<Longrightarrow> hd remaining \<in> set (pick_wave g remaining {})"
  by (cases remaining) auto

text \<open>The candidates are in ascending order, and the first one is never blocked, so every round removes one.\<close>

function schedule_waves :: "ConflictGraph \<Rightarrow> nat list \<Rightarrow> nat list list" where
  "schedule_waves g remaining =
    (if remaining = [] then []
     else let wave = pick_wave g remaining {}
          in sort wave # schedule_waves g (filter (\<lambda>i. i \<notin> set wave) remaining))"
  by auto

termination
  by (relation "measure (\<lambda>(g, remaining). length remaining)")
    (auto intro!: length_filter_less intro: list.set_sel(1) dest: pick_wave_first)

declare schedule_waves.simps [simp del]

definition schedule :: "ConflictGraph \<Rightarrow> nat list list" where
  "schedule graph = schedule_waves graph [0..<length (cg_adj graph)]"

section \<open>Validation (validate.rs)\<close>

text \<open>Whether one of the reads is no longer at the version observed.\<close>

fun is_stale :: "MemoryStore \<Rightarrow> (bytes, SlotVersion) btree \<Rightarrow> bytes list \<Rightarrow> bool option" where
  "is_stale slots observed [] = Some False"
| "is_stale slots observed (key # keys) =
    (case bt_get observed key of
       None \<Rightarrow> is_stale slots observed keys
     | Some obs \<Rightarrow>
         (case slot_validate memory_store slots key obs of
            Err _ \<Rightarrow> None
          | Ok ok \<Rightarrow>
              if \<not> ok then Some True
              else do { _ \<leftarrow> latest_version slots key; is_stale slots observed keys }))"

fun validate :: "SpecTx list \<Rightarrow> MemoryStore \<Rightarrow> nat list list \<Rightarrow> nat set option" where
  "validate [] slots waves = Some {}"
| "validate (s # specs) slots waves =
    do {
      stale \<leftarrow> is_stale slots (sx_observed s) (sorted_list_of_set (sx_reads s));
      indices \<leftarrow> validate specs slots waves;
      Some (if stale then insert (sx_index s) indices else indices)
    }"

definition stale_from_earlier_writes :: "SpecTx list \<Rightarrow> nat set" where
  "stale_from_earlier_writes specs =
    set (map sx_index (filter (\<lambda>j. list_ex (\<lambda>i. sx_index i < sx_index j \<and> sx_writes i \<inter> union_rw j \<noteq> {}) specs) specs))"

section \<open>Commit in block order (reexec.rs)\<close>

definition merge_key :: "World \<Rightarrow> World \<Rightarrow> bytes \<Rightarrow> World" where
  "merge_key spec dst key =
    (if key = STAKING_SLOT then dst\<lparr>w_staking := w_staking spec\<rparr>
     else if length key = 64 then
       (case storage_get (w_storage spec) key of
          None \<Rightarrow> dst
        | Some val \<Rightarrow> dst\<lparr>w_storage := storage_put (w_storage dst) key val\<rparr>)
     else if length key \<noteq> 32 then dst
     else
       (let dst = (case accounts_get (w_accounts spec) key of
                     None \<Rightarrow> dst
                   | Some acc \<Rightarrow> dst\<lparr>w_accounts := accounts_put (w_accounts dst) key acc\<rparr>)
        in (case bt_get (w_code spec) key of
              None \<Rightarrow> dst
            | Some code \<Rightarrow> dst\<lparr>w_code := bt_insert key code (w_code dst)\<rparr>)))"

definition merge_spec :: "World \<Rightarrow> SpecTx \<Rightarrow> World" where
  "merge_spec dst spec = foldl (merge_key (sx_spec_world spec)) dst (sorted_list_of_set (sx_writes spec))"

text \<open>The outcome of each write is dropped, as in the code.\<close>

definition bump_key :: "World \<Rightarrow> MemoryStore \<Rightarrow> bytes \<Rightarrow> MemoryStore" where
  "bump_key world slots key =
    (if key = STAKING_SLOT then snd (slot_write memory_store slots key (ascii ''s''))
     else if length key = 64 then snd (slot_write memory_store slots key (unwrap_or [] (storage_get (w_storage world) key)))
     else if length key \<noteq> 32 then slots
     else snd (slot_write memory_store slots key (account_encode (unwrap_or account_empty (accounts_get (w_accounts world) key)))))"

definition bump_writes :: "MemoryStore \<Rightarrow> World \<Rightarrow> bytes set \<Rightarrow> MemoryStore" where
  "bump_writes slots world writes = foldl (bump_key world) slots (sorted_list_of_set writes)"

text \<open>One transaction of the loop: its receipt, the world and the slots after it.\<close>

definition commit_one ::
  "(bytes \<Rightarrow> Hash) \<Rightarrow> Ed25519 \<Rightarrow> Wasmtime \<Rightarrow> bool \<Rightarrow> SpecTx \<Rightarrow> SignedTx \<Rightarrow> World \<Rightarrow> MemoryStore
    \<Rightarrow> (Receipt \<times> World \<times> MemoryStore) option" where
  "commit_one H E W need spec signd world slots =
    (if \<not> need then
       (let world = merge_spec world spec
        in Some (sx_receipt spec, world, bump_writes slots world (sx_writes spec)))
     else do {
       (r, world) \<leftarrow> apply_tx H E W world signd;
       let writes = (if rc_success r then inferred_keys H E signd else {}) \<union> w_storage_writes world;
       Some (r, world, bump_writes slots world writes)
     })"

text \<open>Validation of the transactions still to come.\<close>

definition restale :: "SpecTx list \<Rightarrow> MemoryStore \<Rightarrow> nat set \<Rightarrow> nat set option" where
  "restale rest slots stale =
    (if rest = [] then Some stale
     else do {
       graph \<leftarrow> conflict_graph rest;
       more \<leftarrow> validate rest slots (schedule graph);
       Some (stale \<union> more)
     })"

fun reexec_loop ::
  "(bytes \<Rightarrow> Hash) \<Rightarrow> Ed25519 \<Rightarrow> Wasmtime \<Rightarrow> nat \<Rightarrow> SignedTx list \<Rightarrow> SpecTx list \<Rightarrow> World \<Rightarrow> MemoryStore \<Rightarrow> nat set
    \<Rightarrow> (World \<times> Receipt list) option" where
  "reexec_loop H E W i [] specs world slots stale = Some (world, [])"
| "reexec_loop H E W i (signd # txs) specs world slots stale =
    (if i \<ge> length specs then None
     else do {
       (rec, world, slots) \<leftarrow> commit_one H E W (i \<in> stale) (specs ! i) signd world slots;
       stale \<leftarrow> restale (drop (Suc i) specs) slots stale;
       (world, recs) \<leftarrow> reexec_loop H E W (Suc i) txs specs world slots stale;
       Some (world, rec # recs)
     })"

definition reexec_sequential ::
  "(bytes \<Rightarrow> Hash) \<Rightarrow> Ed25519 \<Rightarrow> Wasmtime \<Rightarrow> World \<Rightarrow> Block \<Rightarrow> MemoryStore \<Rightarrow> SpecTx list \<Rightarrow> nat set
    \<Rightarrow> (World \<times> Receipt list) option" where
  "reexec_sequential H E W pre block slots specs stale = reexec_loop H E W 0 (bk_txs block) specs pre slots stale"

section \<open>The engine (mod.rs)\<close>

definition block_keys :: "(bytes \<Rightarrow> Hash) \<Rightarrow> Ed25519 \<Rightarrow> SignedTx list \<Rightarrow> bytes set" where
  "block_keys H E txs = (\<Union>tx\<in>set txs. inferred_keys H E tx)"

definition commit_block ::
  "(bytes \<Rightarrow> Hash) \<Rightarrow> Ed25519 \<Rightarrow> Wasmtime \<Rightarrow> World \<Rightarrow> Block \<Rightarrow> (World \<times> Receipt list \<times> MemoryStore) option" where
  "commit_block H E W pre block =
    do {
      let keys = block_keys H E (bk_txs block);
      (_, slots) \<leftarrow> seed_and_read [] pre keys;
      specs \<leftarrow> speculate H E W pre (bk_txs block) slots;
      let stale = stale_from_earlier_writes specs;
      graph \<leftarrow> conflict_graph specs;
      more \<leftarrow> validate specs slots (schedule graph);
      (world, receipts) \<leftarrow> reexec_sequential H E W pre block slots specs (stale \<union> more);
      Some (world, receipts, [])
    }"

definition apply_block_engine ::
  "(bytes \<Rightarrow> Hash) \<Rightarrow> Ed25519 \<Rightarrow> Wasmtime \<Rightarrow> World \<Rightarrow> Block \<Rightarrow> (World \<times> Receipt list \<times> Hash) option" where
  "apply_block_engine H E W pre block =
    do {
      let keys = block_keys H E (bk_txs block);
      (_, slots) \<leftarrow> seed_and_read [] pre keys;
      specs \<leftarrow> speculate H E W pre (bk_txs block) slots;
      graph \<leftarrow> conflict_graph specs;
      let sched = schedule graph;
      let stale = stale_from_earlier_writes specs;
      more \<leftarrow> validate specs slots sched;
      (world, receipts) \<leftarrow> reexec_sequential H E W pre block slots specs (stale \<union> more);
      let encoded = map receipt_encode receipts;
      let tx_r = tx_root_signed H (bk_txs block);
      let rec_root = receipts_root H encoded;
      let st = commit_state_root H world;
      Some (world, receipts, app_hash H st tx_r rec_root)
    }"

text \<open>The result of the engine, checked against sequential execution; a failed assertion is \<open>None\<close>.\<close>

definition stm_apply_block ::
  "(bytes \<Rightarrow> Hash) \<Rightarrow> Ed25519 \<Rightarrow> Wasmtime \<Rightarrow> World \<Rightarrow> Block \<Rightarrow> (World \<times> Receipt list \<times> Hash) option" where
  "stm_apply_block H E W pre block =
    do {
      (seq_world, seq_receipts, seq_app) \<leftarrow> apply_block H E W pre block;
      (world, receipts, app) \<leftarrow> apply_block_engine H E W pre block;
      if map receipt_encode receipts \<noteq> map receipt_encode seq_receipts then None
      else if app \<noteq> seq_app then None
      else if commit_state_root H world \<noteq> commit_state_root H seq_world then None
      else Some (world, receipts, app)
    }"

section \<open>Versions of the slots\<close>

definition tracked :: "bytes \<Rightarrow> bool" where
  "tracked k \<longleftrightarrow> k = STAKING_SLOT \<or> length k = 32 \<or> length k = 64"

definition version_of :: "MemoryStore \<Rightarrow> bytes \<Rightarrow> SlotVersion" where
  "version_of s k = (case bt_get s k of None \<Rightarrow> 0 | Some b \<Rightarrow> u64_from_be b)"

definition slots_wf :: "MemoryStore \<Rightarrow> bool" where
  "slots_wf s \<longleftrightarrow> (\<forall>k. tracked k \<longrightarrow> wf_slot (bt_get s) k (version_of s k))"

lemma tracked_length: "tracked k \<Longrightarrow> length k \<in> {11, 32, 64}"
  by (auto simp: tracked_def)

lemma version_key_not_slot: "tracked k \<Longrightarrow> \<not> tracked (version_key k n)"
proof
  assume "tracked k" "tracked (version_key k n)"
  from tracked_length [OF this(1)] tracked_length [OF this(2)] show False by (auto simp: version_key_def)
qed

lemma slots_wf_empty: "slots_wf []" "version_of [] k = 0"
  by (simp_all add: slots_wf_def wf_slot_def version_of_def)

lemma slot_latest_version: "slots_wf s \<Longrightarrow> tracked k \<Longrightarrow> slot_latest memory_store s k = Ok (version_of s k)"
  by (auto simp: slots_wf_def intro: mem.slot_latest_wf)

lemma slot_validate_version: "slots_wf s \<Longrightarrow> tracked k \<Longrightarrow> slot_validate memory_store s k v = Ok (version_of s k = v)"
  by (simp add: slot_validate_def slot_latest_version)

lemma latest_version_value: "slots_wf s \<Longrightarrow> tracked k \<Longrightarrow> latest_version s k = Some (version_of s k)"
  unfolding latest_version_def by (rule find_version_finds) (simp_all add: slot_latest_version)

text \<open>A write raises the version of its slot by one and leaves the other slots alone.\<close>

lemma slot_write_version:
  assumes "slots_wf s" "tracked k" "version_of s k \<noteq> - 1"
  obtains s' where "slot_write memory_store s k v = (Ok (version_of s k + 1), s')" "slots_wf s'"
    "\<And>j. tracked j \<Longrightarrow> version_of s' j = (if j = k then version_of s k + 1 else version_of s j)"
proof -
  let ?n = "version_of s k"
  have "wf_slot (bt_get s) k ?n" using assms(1,2) by (simp add: slots_wf_def)
  from mem.slot_write_effect [OF this assms(3), of v]
  obtain s' where w: "slot_write memory_store s k v = (Ok (?n + 1), s')"
    "bt_get s' = (bt_get s)(k \<mapsto> u64_be (?n + 1), version_key k (?n + 1) \<mapsto> v)" by blast
  have pos: "?n + 1 \<noteq> 0" using assms(3) by (metis add.inverse_unique add.commute)
  have get: "bt_get s' j = (if j = k then Some (u64_be (?n + 1)) else bt_get s j)" if "tracked j" for j
    using that version_key_not_slot [OF assms(2), of "?n + 1"] by (auto simp: w(2))
  then have ver: "version_of s' j = (if j = k then ?n + 1 else version_of s j)" if "tracked j" for j
    using that by (simp add: version_of_def)
  have "wf_slot (bt_get s') j (version_of s' j)" if "tracked j" for j
    using that assms(1) pos by (simp add: wf_slot_def get ver slots_wf_def)
  then have "slots_wf s'" by (simp add: slots_wf_def)
  then show thesis using that [OF w(1)] ver by blast
qed

lemma observe_key_value:
  "slots_wf s \<Longrightarrow> tracked k \<Longrightarrow> observe_key s k obs = Some (bt_insert k (version_of s k) obs)"
  by (simp add: observe_key_def latest_version_value slot_read_def mem.get_ok)

section \<open>Seeding\<close>

lemma seed_write_version:
  assumes "slots_wf s" "tracked k" "\<And>j. tracked j \<Longrightarrow> unat (version_of s j) \<le> 1"
  shows "\<exists>s'. seed_write s k v = Some s' \<and> slots_wf s' \<and> (\<forall>j. tracked j \<longrightarrow> unat (version_of s' j) \<le> 1)"
proof (cases "version_of s k = 0")
  case True
  then have "version_of s k \<noteq> - 1" by simp
  from slot_write_version [OF assms(1,2) this, of v]
  obtain s' where "slot_write memory_store s k v = (Ok (version_of s k + 1), s')" "slots_wf s'"
    "\<And>j. tracked j \<Longrightarrow> version_of s' j = (if j = k then version_of s k + 1 else version_of s j)" by blast
  then show ?thesis using assms True by (auto simp: seed_write_def slot_validate_version)
next
  case False
  then show ?thesis using assms by (simp add: seed_write_def slot_validate_version)
qed

lemma seed_key_version:
  assumes "slots_wf s" "tracked k" "\<And>j. tracked j \<Longrightarrow> unat (version_of s j) \<le> 1"
  shows "\<exists>s'. seed_key w s k = Some s' \<and> slots_wf s' \<and> (\<forall>j. tracked j \<longrightarrow> unat (version_of s' j) \<le> 1)"
  using seed_write_version [OF assms] assms by (auto simp: seed_key_def split: option.split)

lemma seed_loop_version:
  assumes "slots_wf s" "list_all tracked ks" "\<And>j. tracked j \<Longrightarrow> unat (version_of s j) \<le> 1"
  shows "\<exists>obs' s'. seed_loop w ks s obs = Some (obs', s') \<and> slots_wf s' \<and> (\<forall>j. tracked j \<longrightarrow> unat (version_of s' j) \<le> 1)"
  using assms
proof (induction ks arbitrary: s obs)
  case (Cons k ks)
  have k: "tracked k" "list_all tracked ks" using Cons.prems(2) by simp_all
  obtain s1 where 1: "seed_key w s k = Some s1" "slots_wf s1" "\<And>j. tracked j \<Longrightarrow> unat (version_of s1 j) \<le> 1"
    using seed_key_version [OF Cons.prems(1) k(1) Cons.prems(3)] by blast
  show ?case
  proof (cases "k = STAKING_SLOT")
    case True
    then have "tracked STAKING_SLOT" using k(1) by simp
    then show ?thesis
      using Cons.IH [OF Cons.prems(1) k(2) Cons.prems(3)] True Cons.prems(1) by (simp add: slot_validate_version slot_read_def)
  next
    case False
    then show ?thesis using Cons.IH [OF 1(2) k(2) 1(3)] k(1) 1(1,2) by (simp add: observe_key_value)
  qed
qed simp

section \<open>Keys and observations\<close>

lemma inferred_slot_keys:
  assumes "wf_tx (st_tx signd)" "\<And>b. length (H b) = 32" "k \<in> inferred_keys H E signd"
  shows "k = STAKING_SLOT \<or> length k = 32"
proof -
  have "length a = 32" if "sender_of H E signd = Some a" for a
    using that assms(2) by (auto simp: sender_of_def from_ed25519_def hash_to_array_def split: result.splits)
  moreover have "length (create_address H a n) = 32" for a n using assms(2) by (simp add: create_address_def hash_to_array_def)
  moreover have "length (tr_to t) = 32" if "as_transfer (st_tx signd) = Some t" for t
    using that assms(1) by (simp add: as_transfer_def wf_tx_def split: TxPayload.splits)
  moreover have "length (cl_to c) = 32" if "as_call (st_tx signd) = Some c" for c
    using that assms(1) by (simp add: as_call_def wf_tx_def split: TxPayload.splits)
  ultimately show ?thesis
    using assms(3) by (simp add: inferred_keys_def account_key_def split: option.splits if_splits) blast+
qed

lemma finite_inferred_keys [simp]: "finite (inferred_keys H E signd)"
  by (simp add: inferred_keys_def split: option.split)

definition observes :: "MemoryStore \<Rightarrow> bytes set \<Rightarrow> (bytes, SlotVersion) btree \<Rightarrow> bool" where
  "observes s K obs \<longleftrightarrow> (\<forall>k. bt_get obs k = (if k \<in> K then Some (version_of s k) else None))"

lemma observe_all_total:
  "slots_wf s \<Longrightarrow> list_all tracked ks \<Longrightarrow> observes s K obs \<Longrightarrow> \<exists>obs'. observe_all s ks obs = Some obs' \<and> observes s (set ks \<union> K) obs'"
proof (induction ks arbitrary: K obs)
  case (Cons k ks)
  have "observes s (insert k K) (bt_insert k (version_of s k) obs)" using Cons.prems(3) by (simp add: observes_def)
  from Cons.IH [OF Cons.prems(1) _ this] show ?case using Cons.prems by (simp add: observe_key_value)
qed simp

lemma observe_rest_total:
  "slots_wf s \<Longrightarrow> list_all tracked ks \<Longrightarrow> observes s K obs \<Longrightarrow> \<exists>obs'. observe_rest s ks obs = Some obs' \<and> observes s (set ks \<union> K) obs'"
proof (induction ks arbitrary: K obs)
  case (Cons k ks)
  show ?case
  proof (cases "k \<in> K")
    case True
    then have "bt_get obs k \<noteq> None" "set (k # ks) \<union> K = set ks \<union> K" using Cons.prems(3) by (auto simp: observes_def)
    then show ?thesis using Cons.IH [OF Cons.prems(1) _ Cons.prems(3)] Cons.prems(2) by simp
  next
    case False
    have "observes s (insert k K) (bt_insert k (version_of s k) obs)" using Cons.prems(3) by (simp add: observes_def)
    from Cons.IH [OF Cons.prems(1) _ this] show ?thesis
      using Cons.prems False by (simp add: observe_key_value observes_def)
  qed
qed simp

text \<open>What speculation of a transaction on the world \<open>pre\<close> gives.\<close>

definition spec_of ::
  "(bytes \<Rightarrow> Hash) \<Rightarrow> Ed25519 \<Rightarrow> Wasmtime \<Rightarrow> World \<Rightarrow> MemoryStore \<Rightarrow> nat \<Rightarrow> SignedTx \<Rightarrow> SpecTx \<Rightarrow> bool" where
  "spec_of H E W pre slots i signd spec \<longleftrightarrow>
    sx_index spec = i \<and> apply_tx H E W pre signd = Some (sx_receipt spec, sx_spec_world spec) \<and>
    sx_reads spec = inferred_keys H E signd \<union> w_storage_reads (sx_spec_world spec) \<and>
    sx_writes spec = (if rc_success (sx_receipt spec) then sx_reads spec else {}) \<union> w_storage_writes (sx_spec_world spec) \<and>
    finite (sx_reads spec) \<and> finite (sx_writes spec) \<and>
    (\<forall>k\<in>sx_reads spec \<union> sx_writes spec. tracked k) \<and> observes slots (sx_reads spec) (sx_observed spec)"

lemma spec_ofD:
  assumes "spec_of H E W pre slots i signd spec"
  shows "sx_index spec = i" "finite (sx_reads spec)" "finite (sx_writes spec)" "observes slots (sx_reads spec) (sx_observed spec)"
    "\<And>k. k \<in> sx_reads spec \<union> sx_writes spec \<Longrightarrow> tracked k"
  using assms unfolding spec_of_def by blast+

lemma grown_tracked: "grown K w w' \<Longrightarrow> k \<in> w_storage_reads w' \<union> w_storage_writes w' \<Longrightarrow> tracked k"
  by (auto simp: grown_def tracked_def)

lemma speculate_one_total:
  assumes "slots_wf slots" "world_ok pre" "wf_tx (st_tx signd)" "\<And>b. length (H b) = 32"
  shows "\<exists>spec. speculate_one H E W i pre signd slots = Some spec \<and> spec_of H E W pre slots i signd spec"
proof -
  let ?K = "inferred_keys H E signd"
  obtain r w' where 1: "apply_tx H E W pre signd = Some (r, w')"
    using apply_tx_total [of pre signd H E W, OF assms(2-4)] by blast
  note g = apply_tx_grown [OF 1 assms(2-4)]
  have fin: "finite (w_storage_reads w')" "finite (w_storage_writes w')" using g by (simp_all add: grown_def)
  have tr: "tracked k" if "k \<in> ?K \<union> w_storage_reads w' \<union> w_storage_writes w'" for k
    using that inferred_slot_keys [where H = H, OF assms(3,4)] grown_tracked [OF g] by (auto simp: tracked_def)
  have "observes slots {} []" by (simp add: observes_def)
  from observe_all_total [OF assms(1) _ this, of "sorted_list_of_set ?K"]
  obtain obs where o1: "observe_all slots (sorted_list_of_set ?K) [] = Some obs" "observes slots ?K obs"
    using tr by (auto simp: list_all_iff)
  have "\<exists>obs'. observe_rest slots (sorted_list_of_set (?K \<union> w_storage_reads w')) obs = Some obs' \<and>
      observes slots (set (sorted_list_of_set (?K \<union> w_storage_reads w')) \<union> ?K) obs'"
    by (rule observe_rest_total [OF assms(1) _ o1(2)]) (use tr fin in \<open>auto simp: list_all_iff\<close>)
  then obtain obs' where o2: "observe_rest slots (sorted_list_of_set (?K \<union> w_storage_reads w')) obs = Some obs'"
      "observes slots (?K \<union> w_storage_reads w') obs'"
    using fin by (auto simp: Un_absorb2 [OF Un_upper1] Un_absorb1 [OF Un_upper1])
  show ?thesis
    using 1 o1 o2 fin tr by (auto simp: speculate_one_def spec_of_def Let_def writes_from_def)
qed

lemma speculate_from_total:
  assumes "slots_wf slots" "world_ok pre" "list_all (\<lambda>s. wf_tx (st_tx s)) txs" "\<And>b. length (H b) = 32"
  shows "\<exists>specs. speculate_from H E W i pre txs slots = Some specs \<and> length specs = length txs \<and>
    (\<forall>j<length txs. spec_of H E W pre slots (i + j) (txs ! j) (specs ! j))"
  using assms(3)
proof (induction txs arbitrary: i)
  case (Cons s txs)
  then have s: "wf_tx (st_tx s)" "list_all (\<lambda>s. wf_tx (st_tx s)) txs" by simp_all
  obtain spec where 1: "speculate_one H E W i pre s slots = Some spec" "spec_of H E W pre slots i s spec"
    using speculate_one_total [where H = H, OF assms(1,2) s(1) assms(4)] by blast
  obtain specs where 2: "speculate_from H E W (Suc i) pre txs slots = Some specs" "length specs = length txs"
    "\<forall>j<length txs. spec_of H E W pre slots (Suc i + j) (txs ! j) (specs ! j)"
    using Cons.IH [OF s(2)] by blast
  have "\<forall>j<length (s # txs). spec_of H E W pre slots (i + j) ((s # txs) ! j) ((spec # specs) ! j)"
    using 1(2) 2(3) by (auto simp: nth_Cons split: nat.split)
  then show ?case using 1(1) 2(1,2) by auto
qed simp

lemma speculate_total:
  assumes "slots_wf slots" "world_ok pre" "list_all (\<lambda>s. wf_tx (st_tx s)) txs" "\<And>b. length (H b) = 32"
  obtains specs where "speculate H E W pre txs slots = Some specs" "length specs = length txs"
    "\<And>j. j < length txs \<Longrightarrow> spec_of H E W pre slots j (txs ! j) (specs ! j)"
proof -
  obtain specs where 1: "speculate_from H E W 0 pre txs slots = Some specs" "length specs = length txs"
    "\<forall>j<length txs. spec_of H E W pre slots j (txs ! j) (specs ! j)"
    using speculate_from_total [where H = H and E = E and W = W and i = 0, OF assms] by auto
  then have "sorted (map sx_index specs)"
    by (auto simp: sorted_iff_nth_mono spec_of_def)
  then have "sort_key sx_index specs = specs" by (rule sort_key_id_if_sorted)
  then show thesis using that [of specs] 1 by (simp add: speculate_def)
qed

section \<open>The graph and the schedule\<close>

definition nbrs :: "ConflictGraph \<Rightarrow> nat \<Rightarrow> nat set" where
  "nbrs g i = (case bt_get (cg_adj g) i of None \<Rightarrow> {} | Some ns \<Rightarrow> ns)"

definition conflict :: "SpecTx \<Rightarrow> SpecTx \<Rightarrow> bool" where
  "conflict a b \<longleftrightarrow> sx_index a \<noteq> sx_index b \<and> sx_writes a \<inter> union_rw b \<noteq> {}"

lemma add_edge_total:
  assumes "bt_get (cg_adj g) (sx_index a) \<noteq> None" "bt_get (cg_adj g) (sx_index b) \<noteq> None"
  obtains g' where "add_edge a b g = Some g'"
    "\<And>i. bt_get (cg_adj g') i = None \<longleftrightarrow> bt_get (cg_adj g) i = None"
    "\<And>i. nbrs g' i = nbrs g i \<union> (if conflict a b \<and> i = sx_index a then {sx_index b} else {}) \<union>
      (if conflict a b \<and> i = sx_index b then {sx_index a} else {})"
    "bt_wf (cg_adj g) \<Longrightarrow> bt_wf (cg_adj g')"
proof (cases "conflict a b")
  case False
  then show thesis using that [of g] by (auto simp: add_edge_def conflict_def)
next
  case True
  obtain ns where a: "bt_get (cg_adj g) (sx_index a) = Some ns" using assms(1) by auto
  obtain ms where b: "bt_get (cg_adj g) (sx_index b) = Some ms" using assms(2) by auto
  have ne: "sx_index a \<noteq> sx_index b" using True by (simp add: conflict_def)
  define g' where "g' = \<lparr>cg_adj = bt_insert (sx_index b) (insert (sx_index a) ms) (bt_insert (sx_index a) (insert (sx_index b) ns) (cg_adj g)),
    cg_directed = insert (sx_index a, sx_index b) (cg_directed g)\<rparr>"
  show thesis
  proof (rule that [of g'])
    show "add_edge a b g = Some g'" using True a b ne by (simp add: add_edge_def add_neighbor_def g'_def conflict_def)
    show "bt_get (cg_adj g') i = None \<longleftrightarrow> bt_get (cg_adj g) i = None" for i using a b by (simp add: g'_def)
    show "nbrs g' i = nbrs g i \<union> (if conflict a b \<and> i = sx_index a then {sx_index b} else {}) \<union>
      (if conflict a b \<and> i = sx_index b then {sx_index a} else {})" for i
      using True a b ne by (auto simp: nbrs_def g'_def)
  qed (simp add: g'_def)
qed

lemma add_edges_total:
  assumes "\<And>a b. (a, b) \<in> set ps \<Longrightarrow> bt_get (cg_adj g) (sx_index a) \<noteq> None \<and> bt_get (cg_adj g) (sx_index b) \<noteq> None"
  shows "\<exists>g'. add_edges ps g = Some g' \<and> (\<forall>i. bt_get (cg_adj g') i = None \<longleftrightarrow> bt_get (cg_adj g) i = None) \<and>
    (bt_wf (cg_adj g) \<longrightarrow> bt_wf (cg_adj g')) \<and>
    (\<forall>i j. j \<in> nbrs g' i \<longleftrightarrow> j \<in> nbrs g i \<or>
      (\<exists>(a, b)\<in>set ps. conflict a b \<and> (i = sx_index a \<and> j = sx_index b \<or> i = sx_index b \<and> j = sx_index a)))"
  using assms
proof (induction ps arbitrary: g)
  case (Cons p ps)
  obtain a b where p: "p = (a, b)" by fastforce
  then have "bt_get (cg_adj g) (sx_index a) \<noteq> None" "bt_get (cg_adj g) (sx_index b) \<noteq> None" using Cons.prems [of a b] by auto
  from add_edge_total [OF this] obtain g1 where 1: "add_edge a b g = Some g1"
    "\<And>i. bt_get (cg_adj g1) i = None \<longleftrightarrow> bt_get (cg_adj g) i = None"
    "\<And>i. nbrs g1 i = nbrs g i \<union> (if conflict a b \<and> i = sx_index a then {sx_index b} else {}) \<union>
      (if conflict a b \<and> i = sx_index b then {sx_index a} else {})"
    "bt_wf (cg_adj g) \<Longrightarrow> bt_wf (cg_adj g1)" by metis
  have "bt_get (cg_adj g1) (sx_index c) \<noteq> None \<and> bt_get (cg_adj g1) (sx_index d) \<noteq> None" if "(c, d) \<in> set ps" for c d
    using Cons.prems [of c d] that 1(2) by auto
  from Cons.IH [OF this] obtain g' where 2: "add_edges ps g1 = Some g'" "\<forall>i. bt_get (cg_adj g') i = None \<longleftrightarrow> bt_get (cg_adj g1) i = None"
    "bt_wf (cg_adj g1) \<longrightarrow> bt_wf (cg_adj g')"
    "\<forall>i j. j \<in> nbrs g' i \<longleftrightarrow> j \<in> nbrs g1 i \<or>
      (\<exists>(a, b)\<in>set ps. conflict a b \<and> (i = sx_index a \<and> j = sx_index b \<or> i = sx_index b \<and> j = sx_index a))" by auto
  have "\<forall>i j. j \<in> nbrs g' i \<longleftrightarrow> j \<in> nbrs g i \<or>
      (\<exists>(a, b)\<in>set (p # ps). conflict a b \<and> (i = sx_index a \<and> j = sx_index b \<or> i = sx_index b \<and> j = sx_index a))"
    using 2(4) by (auto simp: 1(3) p)
  then show ?case using 1(1,2,4) 2(1-3) p by auto
qed simp

lemma conflict_adj:
  fixes specs :: "SpecTx list" and adj :: "(nat, nat set) btree"
  shows "bt_wf adj \<Longrightarrow> bt_wf (fold (\<lambda>s adj. if bt_get adj (sx_index s) = None then bt_insert (sx_index s) {} adj else adj) specs adj)"
    "bt_get (fold (\<lambda>s adj. if bt_get adj (sx_index s) = None then bt_insert (sx_index s) {} adj else adj) specs adj) i =
      (if bt_get adj i = None \<and> i \<in> sx_index ` set specs then Some {} else bt_get adj i)"
  by (induction specs arbitrary: adj) auto

lemma bt_length_card: "bt_wf m \<Longrightarrow> length m = card {k. bt_get m k \<noteq> None}"
proof -
  assume "bt_wf m"
  then have "length m = card (set (map fst m))" using bt_wf_distinct distinct_card by fastforce
  also have "set (map fst m) = {k. bt_get m k \<noteq> None}" by (auto simp: dom_map_of_conv_image_fst [symmetric])
  finally show ?thesis .
qed

lemma conflict_graph_total:
  obtains g where "conflict_graph specs = Some g" "length (cg_adj g) = card (sx_index ` set specs)"
    "\<And>i j. j \<in> nbrs g i \<longleftrightarrow> (\<exists>a\<in>set specs. \<exists>b\<in>set specs. conflict a b \<and> {i, j} = {sx_index a, sx_index b})"
proof -
  define adj where "adj = fold (\<lambda>s adj. if bt_get adj (sx_index s) = None then bt_insert (sx_index s) {} adj else adj) specs ([] :: (nat, nat set) btree)"
  define g0 where "g0 = \<lparr>cg_adj = adj, cg_directed = {}\<rparr>"
  have adj: "bt_wf adj" "\<And>i. bt_get adj i = (if i \<in> sx_index ` set specs then Some {} else None)"
    unfolding adj_def by (simp_all add: conflict_adj)
  have "\<exists>g'. add_edges (List.product specs specs) g0 = Some g' \<and> (\<forall>i. bt_get (cg_adj g') i = None \<longleftrightarrow> bt_get (cg_adj g0) i = None) \<and>
    (bt_wf (cg_adj g0) \<longrightarrow> bt_wf (cg_adj g')) \<and>
    (\<forall>i j. j \<in> nbrs g' i \<longleftrightarrow> j \<in> nbrs g0 i \<or>
      (\<exists>(a, b)\<in>set (List.product specs specs). conflict a b \<and> (i = sx_index a \<and> j = sx_index b \<or> i = sx_index b \<and> j = sx_index a)))"
    by (rule add_edges_total) (simp add: g0_def adj)
  then obtain g where g: "add_edges (List.product specs specs) g0 = Some g" "\<And>i. bt_get (cg_adj g) i = None \<longleftrightarrow> i \<notin> sx_index ` set specs"
    "bt_wf (cg_adj g)"
    "\<And>i j. j \<in> nbrs g i \<longleftrightarrow> (\<exists>(a, b)\<in>set (List.product specs specs). conflict a b \<and> (i = sx_index a \<and> j = sx_index b \<or> i = sx_index b \<and> j = sx_index a))"
    using adj by (auto simp: g0_def nbrs_def)
  show thesis
  proof (rule that)
    show "conflict_graph specs = Some g" using g(1) by (simp add: conflict_graph_def Let_def g0_def adj_def)
    show "length (cg_adj g) = card (sx_index ` set specs)" using bt_length_card [OF g(3)] by (simp add: g(2))
    show "j \<in> nbrs g i \<longleftrightarrow> (\<exists>a\<in>set specs. \<exists>b\<in>set specs. conflict a b \<and> {i, j} = {sx_index a, sx_index b})" for i j
      unfolding g(4) by (auto simp: doubleton_eq_iff)
  qed
qed

lemma pick_wave_unblocked: "i \<in> set (pick_wave g cand blocked) \<Longrightarrow> i \<notin> blocked"
  by (induction g cand blocked rule: pick_wave.induct) (auto split: if_splits option.splits)

lemma pick_wave_independent: "sorted_wrt (\<lambda>i j. j \<notin> nbrs g i) (pick_wave g cand blocked)"
  by (induction g cand blocked rule: pick_wave.induct)
    (auto simp: nbrs_def dest: pick_wave_unblocked split: option.splits)

lemma pick_wave_distinct: "distinct cand \<Longrightarrow> distinct (pick_wave g cand blocked)"
  using pick_wave_subset by (induction g cand blocked rule: pick_wave.induct) fastforce+

lemma schedule_waves_partition:
  "distinct remaining \<Longrightarrow> mset (concat (schedule_waves g remaining)) = mset remaining"
proof (induction g remaining rule: schedule_waves.induct)
  case (1 g remaining)
  show ?case
  proof (cases "remaining = []")
    case False
    let ?wave = "pick_wave g remaining {}"
    have "distinct ?wave" "set ?wave \<subseteq> set remaining" using 1(2) pick_wave_distinct pick_wave_subset by blast+
    then have "mset ?wave = mset (filter (\<lambda>i. i \<in> set ?wave) remaining)"
      using 1(2) by (subst set_eq_iff_mset_eq_distinct [symmetric]) auto
    then have "mset ?wave = filter_mset (\<lambda>i. i \<in> set ?wave) (mset remaining)" by simp
    then show ?thesis using 1(1) [OF False refl] 1(2) False by (simp add: schedule_waves.simps [of g remaining] Let_def)
  qed (simp add: schedule_waves.simps)
qed

lemma schedule_waves_independent:
  assumes "\<And>i j. j \<in> nbrs g i \<Longrightarrow> i \<in> nbrs g j"
  shows "wave \<in> set (schedule_waves g remaining) \<Longrightarrow> i \<in> set wave \<Longrightarrow> j \<in> set wave \<Longrightarrow> i \<noteq> j \<Longrightarrow> j \<notin> nbrs g i"
proof (induction "length remaining" arbitrary: remaining rule: less_induct)
  case less
  let ?wave = "pick_wave g remaining {}"
  have "sorted_wrt (\<lambda>i j. j \<notin> nbrs g i \<and> i \<notin> nbrs g j) ?wave"
    using pick_wave_independent [of g remaining "{}"] assms by (auto intro: sorted_wrt_mono_rel)
  then have first: "j \<notin> nbrs g i" if "i \<in> set ?wave" "j \<in> set ?wave" "i \<noteq> j" for i j
    using that by (metis (no_types, lifting) in_set_conv_nth linorder_neqE_nat sorted_wrt_nth_less)
  show ?case
  proof (cases "wave = sort ?wave")
    case True
    then show ?thesis using first [of i j] less.prems(2-4) by simp
  next
    case False
    let ?rest = "filter (\<lambda>i. i \<notin> set ?wave) remaining"
    have ne: "remaining \<noteq> []" using less.prems(1) by (auto simp: schedule_waves.simps)
    then have "length ?rest < length remaining"
      using pick_wave_first [of remaining g] by (auto intro!: length_filter_less intro: list.set_sel(1))
    moreover have "wave \<in> set (schedule_waves g ?rest)"
      using less.prems(1) ne False by (simp add: schedule_waves.simps [of g remaining] Let_def)
    ultimately show ?thesis using less.hyps [of ?rest] less.prems(2-4) by blast
  qed
qed

section \<open>Validation, bumps and merges\<close>

lemma is_stale_value:
  assumes "slots_wf s" "list_all tracked ks" "observes s0 K obs" "set ks \<subseteq> K"
  shows "is_stale s obs ks = Some (list_ex (\<lambda>k. version_of s k \<noteq> version_of s0 k) ks)"
  using assms(2,4)
proof (induction ks)
  case (Cons k ks)
  have "bt_get obs k = Some (version_of s0 k)" using assms(3) Cons.prems(2) by (simp add: observes_def)
  then show ?case using Cons assms(1) by (simp add: slot_validate_version latest_version_value)
qed simp

lemma validate_total:
  assumes "slots_wf s" "\<And>spec. spec \<in> set specs \<Longrightarrow> \<exists>i signd. spec_of H E W pre s0 i signd spec"
  shows "\<exists>S. validate specs s waves = Some S \<and>
    (\<forall>spec\<in>set specs. \<forall>k\<in>sx_reads spec. version_of s k \<noteq> version_of s0 k \<longrightarrow> sx_index spec \<in> S)"
  using assms(2)
proof (induction specs)
  case (Cons spec specs)
  obtain i signd where "spec_of H E W pre s0 i signd spec" using Cons.prems [of spec] by auto
  note sp = spec_ofD [OF this]
  have "is_stale s (sx_observed spec) (sorted_list_of_set (sx_reads spec)) =
      Some (list_ex (\<lambda>k. version_of s k \<noteq> version_of s0 k) (sorted_list_of_set (sx_reads spec)))"
    by (rule is_stale_value [OF assms(1) _ sp(4)]) (use sp(2,5) in \<open>simp_all add: list_all_iff\<close>)
  moreover obtain S where "validate specs s waves = Some S"
    "\<forall>spec\<in>set specs. \<forall>k\<in>sx_reads spec. version_of s k \<noteq> version_of s0 k \<longrightarrow> sx_index spec \<in> S"
    using Cons by auto
  ultimately show ?case using sp(2) by (auto simp: list_ex_iff)
qed simp

lemma restale_total:
  assumes "slots_wf s" "\<And>spec. spec \<in> set rest \<Longrightarrow> \<exists>i signd. spec_of H E W pre s0 i signd spec"
  shows "\<exists>S. restale rest s stale = Some S \<and> stale \<subseteq> S \<and>
    (\<forall>spec\<in>set rest. \<forall>k\<in>sx_reads spec. version_of s k \<noteq> version_of s0 k \<longrightarrow> sx_index spec \<in> S)"
proof -
  obtain g where "conflict_graph rest = Some g" by (rule conflict_graph_total [of rest])
  moreover obtain S where "validate rest s (schedule g) = Some S"
    "\<forall>spec\<in>set rest. \<forall>k\<in>sx_reads spec. version_of s k \<noteq> version_of s0 k \<longrightarrow> sx_index spec \<in> S"
    using validate_total [OF assms] by blast
  ultimately show ?thesis by (auto simp: restale_def)
qed

lemma bump_key_write: "tracked k \<Longrightarrow> \<exists>v. bump_key w s k = snd (slot_write memory_store s k v)"
  by (auto simp: bump_key_def tracked_def)

lemma bump_list_version:
  assumes "slots_wf s" "distinct ks" "\<And>k. k \<in> set ks \<Longrightarrow> tracked k \<and> version_of s k \<noteq> - 1"
  shows "slots_wf (foldl (bump_key w) s ks) \<and>
    (\<forall>j. tracked j \<longrightarrow> version_of (foldl (bump_key w) s ks) j = (if j \<in> set ks then version_of s j + 1 else version_of s j))"
  using assms
proof (induction ks arbitrary: s)
  case (Cons k ks)
  have k: "tracked k" "version_of s k \<noteq> - 1" using Cons.prems(3) [of k] by auto
  obtain v where v: "bump_key w s k = snd (slot_write memory_store s k v)" using bump_key_write [OF k(1)] by blast
  from slot_write_version [OF Cons.prems(1) k, of v] obtain s' where s': "bump_key w s k = s'" "slots_wf s'"
    "\<And>j. tracked j \<Longrightarrow> version_of s' j = (if j = k then version_of s k + 1 else version_of s j)" unfolding v by (metis snd_conv)
  have "tracked j \<and> version_of s' j \<noteq> - 1" if "j \<in> set ks" for j
    using Cons.prems(2) Cons.prems(3) [of j] that by (auto simp: s'(3))
  from Cons.IH [OF s'(2) _ this] show ?case using Cons.prems(2) by (auto simp: s'(1,3))
qed simp

lemma bump_writes_version:
  assumes "slots_wf s" "finite K" "\<And>k. k \<in> K \<Longrightarrow> tracked k \<and> version_of s k \<noteq> - 1"
  shows "slots_wf (bump_writes s w K)"
    "tracked j \<Longrightarrow> version_of (bump_writes s w K) j = (if j \<in> K then version_of s j + 1 else version_of s j)"
  using bump_list_version [OF assms(1), of "sorted_list_of_set K" w] assms(2,3) by (simp_all add: bump_writes_def)

text \<open>The cells a merge takes over.\<close>

fun merged :: "World \<Rightarrow> bytes set \<Rightarrow> Cell \<Rightarrow> bool" where
  "merged spec K (CAccount a) \<longleftrightarrow> length a = 32 \<and> a \<in> K \<and> accounts_get (w_accounts spec) a \<noteq> None"
| "merged spec K (CCode a) \<longleftrightarrow> length a = 32 \<and> a \<in> K \<and> bt_get (w_code spec) a \<noteq> None"
| "merged spec K (CStorage k) \<longleftrightarrow> length k = 64 \<and> k \<in> K \<and> storage_get (w_storage spec) k \<noteq> None"
| "merged spec K CStaking \<longleftrightarrow> STAKING_SLOT \<in> K"

lemma merge_key_cells:
  assumes "world_ok w" "world_ok spec"
  shows "world_ok (merge_key spec w k)"
    "cell_value (merge_key spec w k) c = (if merged spec {k} c then cell_value spec c else cell_value w c)"
    "w_params (merge_key spec w k) = w_params w"
proof -
  have ok: "accounts_ok (w_accounts w)" "trie_ok (w_storage w)" "slots_ok (w_versioned w)" "staking_ok (w_staking w)"
    "staking_ok (w_staking spec)" using assms by (simp_all add: world_ok_def)
  show "world_ok (merge_key spec w k)"
    using ok accounts_get_wf
    by (auto simp: merge_key_def world_ok_def Let_def accounts_ok_put contract_slots.ok_put split: option.split)
  show "w_params (merge_key spec w k) = w_params w"
    by (simp add: merge_key_def Let_def split: option.split)
  show "cell_value (merge_key spec w k) c = (if merged spec {k} c then cell_value spec c else cell_value w c)"
    using ok accounts_get_wf
    by (cases c) (auto simp: merge_key_def Let_def accounts.get_put accounts_ok_trie contract_slots.get_put split: option.split)
qed

lemma merge_list_cells:
  assumes "world_ok w" "world_ok spec"
  shows "world_ok (foldl (merge_key spec) w ks)"
    "cell_value (foldl (merge_key spec) w ks) c = (if merged spec (set ks) c then cell_value spec c else cell_value w c)"
    "w_params (foldl (merge_key spec) w ks) = w_params w"
proof -
  have "world_ok (foldl (merge_key spec) w ks) \<and> w_params (foldl (merge_key spec) w ks) = w_params w \<and>
      cell_value (foldl (merge_key spec) w ks) c = (if merged spec (set ks) c then cell_value spec c else cell_value w c)"
    using assms(1)
  proof (induction ks arbitrary: w)
    case Nil
    then show ?case by (cases c) simp_all
  next
    case (Cons k ks)
    note step = merge_key_cells [OF Cons.prems assms(2), of k]
    have "merged spec (set (k # ks)) c \<longleftrightarrow> merged spec {k} c \<or> merged spec (set ks) c" by (cases c) auto
    then show ?case using Cons.IH [OF step(1)] step(2,3) by simp
  qed
  then show "world_ok (foldl (merge_key spec) w ks)" "w_params (foldl (merge_key spec) w ks) = w_params w"
    "cell_value (foldl (merge_key spec) w ks) c = (if merged spec (set ks) c then cell_value spec c else cell_value w c)" by blast+
qed

section \<open>One transaction of the commit\<close>

definition same_cells :: "World \<Rightarrow> World \<Rightarrow> bool" where
  "same_cells w u \<longleftrightarrow> w_params w = w_params u \<and> (\<forall>c. cell_value w c = cell_value u c)"

lemma same_cells_agree: "same_cells w u \<Longrightarrow> agree K w u"
  by (simp add: same_cells_def agree_def)

lemma same_cells_framed: "same_cells w u \<Longrightarrow> agree K w' u' \<Longrightarrow> framed K w w' \<Longrightarrow> framed K u u' \<Longrightarrow> same_cells w' u'"
  unfolding same_cells_def agree_def framed_def by metis

lemma apply_tx_world_ok:
  "apply_tx H E W w signd = Some (r, w') \<Longrightarrow> world_ok w \<Longrightarrow> wf_tx (st_tx signd) \<Longrightarrow> (\<And>b. length (H b) = 32) \<Longrightarrow> world_ok w'"
  using apply_tx_total [of w signd H E W] by (metis option.inject prod.inject)

lemma apply_tx_same_cells:
  assumes "same_cells st sq" "world_ok st" "world_ok sq" "wf_tx (st_tx signd)" "\<And>b. length (H b) = 32"
    "apply_tx H E W sq signd = Some (r, sq')"
  obtains st' where "apply_tx H E W st signd = Some (r, st')" "same_cells st' sq'" "w_storage_writes st' = w_storage_writes sq'"
proof -
  have "twins (inferred_keys H E signd) st sq (apply_tx H E W st signd) (apply_tx H E W sq signd)"
    by (rule apply_tx_twins [OF same_cells_agree [OF assms(1)] assms(2-5)])
  then obtain st' where "apply_tx H E W st signd = Some (r, st')" "agree (inferred_keys H E signd) st' sq'"
    "framed (inferred_keys H E signd) st st'" "framed (inferred_keys H E signd) sq sq'" "w_storage_writes st' = w_storage_writes sq'"
    using assms(6) by (auto simp: twins_def)
  then show thesis using that same_cells_framed [OF assms(1)] by blast
qed

text \<open>Speculation on the world before the block is as good as execution when nothing its keys own has changed since.\<close>

lemma merge_spec_same_cells:
  assumes "spec_of H E W pre slots i signd spec" "agree (inferred_keys H E signd) pre sq" "same_cells st sq"
    "world_ok pre" "world_ok st" "world_ok sq" "wf_tx (st_tx signd)" "\<And>b. length (H b) = 32"
    "apply_tx H E W sq signd = Some (r, sq')" "\<not> rc_success r \<Longrightarrow> sq' = clear_sets sq"
  shows "sx_receipt spec = r" "same_cells (merge_spec st spec) sq'" "world_ok (merge_spec st spec)"
    "if rc_success r then inferred_keys H E signd \<subseteq> sx_writes spec else sx_writes spec = {}"
proof -
  let ?K = "inferred_keys H E signd" and ?v = "sx_spec_world spec"
  have run: "apply_tx H E W pre signd = Some (sx_receipt spec, ?v)" and fin: "finite (sx_writes spec)"
    using assms(1) unfolding spec_of_def by blast+
  have "twins ?K pre sq (apply_tx H E W pre signd) (apply_tx H E W sq signd)"
    by (rule apply_tx_twins [OF assms(2,4,6,7,8)])
  then have t: "sx_receipt spec = r" "agree ?K ?v sq'" "framed ?K sq sq'" "w_storage_writes ?v = w_storage_writes sq'"
    unfolding run assms(9) by (auto simp: twins_def)
  have g: "grown ?K sq sq'" "grown ?K pre ?v"
    using apply_tx_grown [OF assms(9,6,7,8)] apply_tx_grown [OF run assms(4,7,8)] .
  have okv: "world_ok ?v" by (rule apply_tx_world_ok [OF run assms(4,7,8)])
  have cells: "cell_value (merge_spec st spec) c = (if merged ?v (sx_writes spec) c then cell_value ?v c else cell_value st c)"
    "w_params (merge_spec st spec) = w_params st" for c
    using merge_list_cells [OF assms(5) okv, of "sorted_list_of_set (sx_writes spec)"] fin by (simp_all add: merge_spec_def)
  show "sx_receipt spec = r" by (rule t(1))
  show "world_ok (merge_spec st spec)" unfolding merge_spec_def by (rule merge_list_cells(1) [OF assms(5) okv])
  have writes: "sx_writes spec = (if rc_success r then ?K \<union> w_storage_reads ?v else {}) \<union> w_storage_writes ?v"
    using assms(1) t(1) unfolding spec_of_def by simp
  have key_of: "k \<in> ?K \<and> length k \<noteq> 64 \<or> length k = 64 \<and> take 32 k \<in> ?K" if k: "k \<in> sx_writes spec" for k
  proof -
    consider "k \<in> ?K" | "k \<in> w_storage_reads ?v \<union> w_storage_writes ?v" using k unfolding writes by (cases "rc_success r") auto
    then show ?thesis
    proof cases
      case 1
      then have "length k \<noteq> 64" using inferred_slot_keys [where H = H, OF assms(7,8) 1] by auto
      then show ?thesis using 1 by blast
    qed (use g(2) in \<open>simp add: grown_def\<close>)
  qed
  have none: "w_storage_writes ?v = {}" if "\<not> rc_success r" using assms(10) [OF that] t(4) by simp
  show "if rc_success r then ?K \<subseteq> sx_writes spec else sx_writes spec = {}" using writes none by auto
  have par: "w_params st = w_params sq'" using assms(3) t(3) by (simp add: same_cells_def framed_def)
  show "same_cells (merge_spec st spec) sq'"
  proof (cases "rc_success r")
    case False
    then have "sx_writes spec = {}" "sq' = clear_sets sq" using writes none assms(10) by simp_all
    then show ?thesis using assms(3) by (simp add: same_cells_def merge_spec_def)
  next
    case True
    have "cell_value (merge_spec st spec) c = cell_value sq' c" for c
    proof (cases "merged ?v (sx_writes spec) c")
      case merged: True
      then have "owned ?K c" by (cases c) (auto dest: key_of)
      then show ?thesis using t(2) merged by (simp add: cells agree_def)
    next
      case unmerged: False
      have "cell_value sq' c = cell_value sq c"
      proof (cases "owned ?K c")
        case False
        then show ?thesis using t(3) by (simp add: framed_def)
      next
        case owned: True
        then have same: "cell_value ?v c = cell_value sq' c" using t(2) by (simp add: agree_def)
        show ?thesis
        proof (cases "absent (cell_value sq' c)")
          case True
          then show ?thesis using g(1) by (simp add: grown_def)
        next
          case False
          then obtain k where "c = CStorage k" "k \<notin> sx_writes spec"
            using unmerged owned same True unfolding writes by (cases c) auto
          then show ?thesis using g(1) t(4) unfolding writes by (auto simp: grown_def)
        qed
      qed
      then show ?thesis using unmerged assms(3) by (simp add: cells same_cells_def)
    qed
    then show ?thesis using par cells(2) by (simp add: same_cells_def)
  qed
qed

lemma commit_one_total:
  assumes "spec_of H E W pre slots0 i signd spec" "\<not> need \<Longrightarrow> agree (inferred_keys H E signd) pre sq" "same_cells st sq"
    "world_ok pre" "world_ok st" "world_ok sq" "wf_tx (st_tx signd)" "\<And>b. length (H b) = 32"
    "apply_tx H E W sq signd = Some (r, sq')" "\<not> rc_success r \<Longrightarrow> sq' = clear_sets sq"
  shows "\<exists>st' K. commit_one H E W need spec signd st slots = Some (r, st', bump_writes slots st' K) \<and>
    same_cells st' sq' \<and> world_ok st' \<and> finite K \<and> (\<forall>k\<in>K. tracked k) \<and>
    (if rc_success r then inferred_keys H E signd \<subseteq> K else K = {})"
proof (cases need)
  case False
  note m = merge_spec_same_cells [OF assms(1) assms(2) [OF False] assms(3-10)]
  show ?thesis
    using m False spec_ofD(3,5) [OF assms(1)] by (auto simp: commit_one_def Let_def intro!: exI [of _ "sx_writes spec"])
next
  case True
  obtain st' where st': "apply_tx H E W st signd = Some (r, st')" "same_cells st' sq'" "w_storage_writes st' = w_storage_writes sq'"
    by (rule apply_tx_same_cells [OF assms(3,5-9)])
  let ?K = "(if rc_success r then inferred_keys H E signd else {}) \<union> w_storage_writes st'"
  have g: "grown (inferred_keys H E signd) st st'" by (rule apply_tx_grown [OF st'(1) assms(5,7,8)])
  have "finite ?K" "if rc_success r then inferred_keys H E signd \<subseteq> ?K else ?K = {}"
    using g st'(3) assms(10) by (auto simp: grown_def)
  moreover have "tracked k" if "k \<in> ?K" for k
    using that inferred_slot_keys [where H = H, OF assms(7,8)] grown_tracked [OF g] by (auto simp: tracked_def split: if_splits)
  moreover have "world_ok st'" by (rule apply_tx_world_ok [OF st'(1) assms(5,7,8)])
  ultimately show ?thesis using st'(1,2) True by (auto simp: commit_one_def Let_def)
qed

section \<open>The commit loop\<close>

text \<open>
  Between two transactions the engine and sequential execution hold the same cells;
  what a key owns is as before the block while the version of the key is; and a
  transaction to come that read a key whose version has changed is marked stale.
\<close>

definition stm_inv ::
  "World \<Rightarrow> MemoryStore \<Rightarrow> SpecTx list \<Rightarrow> nat \<Rightarrow> World \<Rightarrow> World \<Rightarrow> MemoryStore \<Rightarrow> nat set \<Rightarrow> bool" where
  "stm_inv pre slots0 specs i st sq slots stale \<longleftrightarrow>
    same_cells st sq \<and> world_ok st \<and> world_ok sq \<and> slots_wf slots \<and> w_params pre = w_params sq \<and>
    (\<forall>k. tracked k \<longrightarrow> unat (version_of slots0 k) \<le> unat (version_of slots k) \<and> unat (version_of slots k) \<le> Suc i) \<and>
    (\<forall>c k. owner c = Some k \<longrightarrow> version_of slots k = version_of slots0 k \<longrightarrow> cell_value pre c = cell_value sq c) \<and>
    (\<forall>j<length specs. i \<le> j \<longrightarrow> (\<forall>k\<in>sx_reads (specs ! j). version_of slots k \<noteq> version_of slots0 k \<longrightarrow> j \<in> stale))"

lemma owner_tracked: "owner c = Some k \<Longrightarrow> tracked k"
  by (cases c) (auto simp: tracked_def split: if_splits)

lemma stm_inv_agree:
  assumes "stm_inv pre slots0 specs i st sq slots stale" "i < length specs" "i \<notin> stale"
    "spec_of H E W pre slots0 i signd (specs ! i)"
  shows "agree (inferred_keys H E signd) pre sq"
proof -
  have "inferred_keys H E signd \<subseteq> sx_reads (specs ! i)" using assms(4) unfolding spec_of_def by blast
  moreover have "version_of slots k = version_of slots0 k" if "k \<in> sx_reads (specs ! i)" for k
    using assms(1-3) that unfolding stm_inv_def by blast
  ultimately have "cell_value pre c = cell_value sq c" if "owned (inferred_keys H E signd) c" for c
    using that assms(1) unfolding stm_inv_def owned_def by blast
  then show ?thesis using assms(1) by (simp add: agree_def stm_inv_def)
qed

lemma unat_succ_version: "unat (v :: u64) \<le> n \<Longrightarrow> n + 1 < 2 ^ 64 \<Longrightarrow> v \<noteq> - 1 \<and> unat (v + 1) = Suc (unat v)"
proof -
  assume "unat v \<le> n" "n + 1 < 2 ^ 64"
  then have "v \<noteq> - 1" using unat_minus_one_max [where 'a = 64] by auto
  then show ?thesis using unat_plus_one by blast
qed

lemma stm_inv_step:
  assumes "stm_inv pre slots0 specs i st sq slots stale" "i < length specs" "i + 2 < 2 ^ 64"
    "\<And>spec. spec \<in> set specs \<Longrightarrow> \<exists>i signd. spec_of H E W pre slots0 i signd spec" "\<And>j. j < length specs \<Longrightarrow> sx_index (specs ! j) = j"
    "same_cells st' sq'" "world_ok st'" "world_ok sq'" "framed K sq sq'" "finite L" "\<And>k. k \<in> L \<Longrightarrow> tracked k"
    "if rc_success r then K \<subseteq> L else L = {} \<and> sq' = clear_sets sq"
  shows "\<exists>stale'. restale (drop (Suc i) specs) (bump_writes slots st' L) stale = Some stale' \<and>
    stm_inv pre slots0 specs (Suc i) st' sq' (bump_writes slots st' L) stale'"
proof -
  have inv: "slots_wf slots" "\<And>k. tracked k \<Longrightarrow> unat (version_of slots0 k) \<le> unat (version_of slots k)"
    "\<And>k. tracked k \<Longrightarrow> unat (version_of slots k) \<le> Suc i"
    "\<And>c k. owner c = Some k \<Longrightarrow> version_of slots k = version_of slots0 k \<Longrightarrow> cell_value pre c = cell_value sq c"
    "w_params pre = w_params sq" "same_cells st sq"
    using assms(1) unfolding stm_inv_def by blast+
  have v: "version_of slots k \<noteq> - 1" "unat (version_of slots k + 1) = Suc (unat (version_of slots k))" if "tracked k" for k
    using unat_succ_version [OF inv(3) [OF that]] assms(3) by simp_all
  let ?slots = "bump_writes slots st' L"
  have bump: "version_of ?slots j = (if j \<in> L then version_of slots j + 1 else version_of slots j)" if "tracked j" for j
    using bump_writes_version(2) [OF inv(1) assms(10), of j st'] assms(11) v(1) that by blast
  have wf: "slots_wf ?slots" using bump_writes_version(1) [OF inv(1) assms(10)] assms(11) v(1) by blast
  obtain stale' where st: "restale (drop (Suc i) specs) ?slots stale = Some stale'"
    "\<And>spec k. spec \<in> set (drop (Suc i) specs) \<Longrightarrow> k \<in> sx_reads spec \<Longrightarrow> version_of ?slots k \<noteq> version_of slots0 k \<Longrightarrow> sx_index spec \<in> stale'"
    using restale_total [OF wf, of "drop (Suc i) specs" H E W pre slots0 stale] assms(4) by (meson in_set_dropD)
  have fresh: "cell_value pre c = cell_value sq' c" if "owner c = Some k" "version_of ?slots k = version_of slots0 k" for c k
  proof -
    have k: "tracked k" by (rule owner_tracked [OF that(1)])
    have "k \<notin> L" using that(2) inv(2) [OF k] v(2) [OF k] by (auto simp: bump [OF k])
    then have "cell_value pre c = cell_value sq c" using that inv(4) by (simp add: bump [OF k])
    moreover have "cell_value sq' c = cell_value sq c"
    proof (cases "rc_success r")
      case True
      then have "\<not> owned K c" using assms(12) \<open>k \<notin> L\<close> that(1) by (auto simp: owned_def)
      then show ?thesis using assms(9) by (simp add: framed_def)
    qed (use assms(12) in simp)
    ultimately show ?thesis by simp
  qed
  have "unat (version_of slots0 k) \<le> unat (version_of ?slots k) \<and> unat (version_of ?slots k) \<le> Suc (Suc i)" if "tracked k" for k
    using inv(2,3) [OF that] v(2) [OF that] by (simp add: bump [OF that])
  moreover have "j \<in> stale'" if "j < length specs" "Suc i \<le> j" "k \<in> sx_reads (specs ! j)" "version_of ?slots k \<noteq> version_of slots0 k" for j k
  proof -
    have "specs ! j \<in> set (drop (Suc i) specs)" using that(1,2) by (auto simp: in_set_conv_nth intro!: exI [of _ "j - Suc i"])
    then show ?thesis using st(2) that assms(5) by fastforce
  qed
  moreover have "w_params pre = w_params sq'" using inv(5) assms(9) by (simp add: framed_def)
  ultimately have "stm_inv pre slots0 specs (Suc i) st' sq' ?slots stale'"
    unfolding stm_inv_def using assms(6-8) wf fresh by blast
  then show ?thesis using st(1) by blast
qed

lemma reexec_loop_same:
  assumes "stm_inv pre slots0 specs i st sq slots stale" "world_ok pre" "list_all (\<lambda>s. wf_tx (st_tx s)) txs" "\<And>b. length (H b) = 32"
    "length specs = i + length txs" "length specs + 1 < 2 ^ 64"
    "\<And>j. j < length txs \<Longrightarrow> spec_of H E W pre slots0 (i + j) (txs ! j) (specs ! (i + j))"
    "\<And>spec. spec \<in> set specs \<Longrightarrow> \<exists>i signd. spec_of H E W pre slots0 i signd spec" "\<And>j. j < length specs \<Longrightarrow> sx_index (specs ! j) = j"
    "finite A" "list_all (\<lambda>s. written_to H E s \<subseteq> A) txs" "token_supply A sq < 2 ^ 128"
    "unat (sk_next_unbond (w_staking sq)) + length txs < 2 ^ 64" "apply_txs H E W sq txs = Some (rs, sq')"
  shows "\<exists>st'. reexec_loop H E W i txs specs st slots stale = Some (st', rs) \<and> same_cells st' sq' \<and> world_ok st' \<and> world_ok sq'"
  using assms(1,3,5,7,11-14)
proof (induction txs arbitrary: i st sq slots stale rs)
  case Nil
  then show ?case by (simp add: stm_inv_def)
next
  case (Cons s txs)
  obtain r sq1 rs1 where seq: "apply_tx H E W sq s = Some (r, sq1)" "apply_txs H E W sq1 txs = Some (rs1, sq')" "rs = r # rs1"
    using Cons.prems(8) by (auto simp: apply_txs_Cons)
  have s: "wf_tx (st_tx s)" "written_to H E s \<subseteq> A" using Cons.prems(2,5) by simp_all
  have inv: "same_cells st sq" "world_ok st" "world_ok sq" using Cons.prems(1) unfolding stm_inv_def by blast+
  have i: "i < length specs" "i + 2 < 2 ^ 64" using Cons.prems(3) assms(6) by simp_all
  have spec: "spec_of H E W pre slots0 i s (specs ! i)" using Cons.prems(4) [of 0] by simp
  have failed: "sq1 = clear_sets sq" if "\<not> rc_success r"
    by (rule apply_tx_failed_same [OF seq(1) that inv(3) assms(10) s(2) Cons.prems(6)])
  have ok1: "world_ok sq1" by (rule apply_tx_world_ok [OF seq(1) inv(3) s(1) assms(4)])
  have max: "sk_next_unbond (w_staking sq) \<noteq> - 1" using Cons.prems(7) unat_minus_one_max [where 'a = 64] by auto
  have supply1: "token_supply A sq1 < 2 ^ 128"
    using apply_tx_supply [OF seq(1) inv(3) s(1) assms(4,10) s(2) Cons.prems(6) max] Cons.prems(6) by simp
  have unbond1: "unat (sk_next_unbond (w_staking sq1)) + length txs < 2 ^ 64"
    using apply_tx_next_unbond [OF seq(1) inv(3) s(1)] Cons.prems(7) by simp
  have framed: "framed (inferred_keys H E s) sq sq1"
    using apply_tx_twins [of H E s sq sq W, OF _ inv(3,3) s(1) assms(4)] seq(1) by (auto simp: twins_def agree_def)
  have "\<exists>st1 K. commit_one H E W (i \<in> stale) (specs ! i) s st slots = Some (r, st1, bump_writes slots st1 K) \<and>
      same_cells st1 sq1 \<and> world_ok st1 \<and> finite K \<and> (\<forall>k\<in>K. tracked k) \<and> (if rc_success r then inferred_keys H E s \<subseteq> K else K = {})"
    by (rule commit_one_total [OF spec _ inv(1) assms(2) inv(2,3) s(1) assms(4) seq(1) failed])
      (rule stm_inv_agree [OF Cons.prems(1) i(1) _ spec])
  then obtain st1 K where c: "commit_one H E W (i \<in> stale) (specs ! i) s st slots = Some (r, st1, bump_writes slots st1 K)"
    "same_cells st1 sq1" "world_ok st1" "finite K" "\<And>k. k \<in> K \<Longrightarrow> tracked k" "if rc_success r then inferred_keys H E s \<subseteq> K else K = {}" by blast
  have "if rc_success r then inferred_keys H E s \<subseteq> K else K = {} \<and> sq1 = clear_sets sq" using c(6) failed by auto
  from stm_inv_step [OF Cons.prems(1) i assms(8,9) c(2,3) ok1 framed c(4,5) this]
  obtain stale1 where st: "restale (drop (Suc i) specs) (bump_writes slots st1 K) stale = Some stale1"
    "stm_inv pre slots0 specs (Suc i) st1 sq1 (bump_writes slots st1 K) stale1" by blast
  have "\<exists>st'. reexec_loop H E W (Suc i) txs specs st1 (bump_writes slots st1 K) stale1 = Some (st', rs1) \<and> same_cells st' sq' \<and> world_ok st' \<and> world_ok sq'"
    using Cons.prems(2,3,5) Cons.prems(4) [of "Suc _"]
    by (intro Cons.IH [OF st(2) _ _ _ _ supply1 unbond1 seq(2)]) auto
  then show ?case using c(1) st(1) i(1) seq(3) by auto
qed

section \<open>The engine agrees with sequential execution\<close>

lemma same_accounts:
  assumes "accounts_ok t" "accounts_ok u" "\<And>a. accounts_get t a = accounts_get u a"
  shows "t = u"
proof -
  obtain m n where m: "models t m" "models u n" using assms(1,2) by (auto simp: accounts_ok_def trie_ok_def)
  have raw: "m k = map_option account_encode (accounts_get t k)" if ok: "accounts_ok t" "models t m" for t m k
  proof (cases "m k")
    case (Some b)
    then have "t_get t (bytes_to_nibbles k) = Some b" using ok(2) by (simp add: models_def)
    moreover from this obtain a where "account_decode b = Ok a" using ok(1) by (auto simp: accounts_ok_def is_ok_iff)
    ultimately show ?thesis using Some account_decode_OkD by (simp add: accounts_get_def account_key_def decoded_def)
  qed (use ok(2) in \<open>simp add: accounts_get_def account_key_def decoded_def models_def\<close>)
  then have "m = n" using raw [OF assms(1) m(1)] raw [OF assms(2) m(2)] assms(3) by auto
  then show ?thesis using models_unique m by blast
qed

lemma same_storage:
  assumes "trie_ok t" "trie_ok u" "\<And>k. storage_get t k = storage_get u k"
  shows "t = u"
proof -
  obtain m n where m: "models t m" "models u n" using assms(1,2) by (auto simp: trie_ok_def)
  then have "m = n" using assms(3) by (auto simp: models_def storage_get_def)
  then show ?thesis using models_unique m by blast
qed

lemma same_cells_state:
  assumes "same_cells w u" "world_ok w" "world_ok u"
  shows "w_accounts w = w_accounts u" "w_storage w = w_storage u" "w_staking w = w_staking u"
    "bt_get (w_code w) a = bt_get (w_code u) a" "commit_state_root H w = commit_state_root H u"
proof -
  have cells: "cell_value w c = cell_value u c" for c using assms(1) by (simp add: same_cells_def)
  show acc: "w_accounts w = w_accounts u"
    using assms(2,3) cells [of "CAccount a" for a] by (intro same_accounts) (simp_all add: world_ok_def)
  show sto: "w_storage w = w_storage u"
    using assms(2,3) cells [of "CStorage k" for k] by (intro same_storage) (simp_all add: world_ok_def)
  show "w_staking w = w_staking u" "bt_get (w_code w) a = bt_get (w_code u) a"
    using cells [of CStaking] cells [of "CCode a"] by simp_all
  show "commit_state_root H w = commit_state_root H u" by (simp add: commit_state_root_def acc sto)
qed

lemma seed_and_read_total:
  assumes "list_all (\<lambda>s. wf_tx (st_tx s)) txs" "\<And>b. length (H b) = 32"
  obtains obs slots where "seed_and_read [] pre (block_keys H E txs) = Some (obs, slots)" "slots_wf slots"
    "\<And>k. tracked k \<Longrightarrow> unat (version_of slots k) \<le> 1"
proof -
  have "tracked k" if "k \<in> block_keys H E txs" for k
    using that assms(1) inferred_slot_keys [where H = H, OF _ assms(2)] by (fastforce simp: block_keys_def tracked_def list_all_iff)
  moreover have "finite (block_keys H E txs)" by (simp add: block_keys_def)
  ultimately have "list_all tracked (sorted_list_of_set (block_keys H E txs))" by (simp add: list_all_iff)
  from seed_loop_version [OF slots_wf_empty(1) this, of pre "[]"] show thesis
    using that by (auto simp: seed_and_read_def slots_wf_empty(2))
qed

lemma engine_same:
  assumes "world_ok pre" "list_all (\<lambda>s. wf_tx (st_tx s)) (bk_txs block)" "\<And>b. length (H b) = 32"
    "finite A" "list_all (\<lambda>s. written_to H E s \<subseteq> A) (bk_txs block)" "token_supply A pre < 2 ^ 128"
    "unat (sk_next_unbond (w_staking pre)) + length (bk_txs block) < 2 ^ 64" "length (bk_txs block) + 1 < 2 ^ 64"
  obtains sq rs st where "apply_txs H E W pre (bk_txs block) = Some (rs, sq)" "same_cells st sq" "world_ok st" "world_ok sq"
    "apply_block_engine H E W pre block = Some (st, rs,
      app_hash H (commit_state_root H st) (tx_root_signed H (bk_txs block)) (receipts_root H (map receipt_encode rs)))"
proof -
  let ?txs = "bk_txs block"
  obtain rs sq where seq: "apply_txs H E W pre ?txs = Some (rs, sq)"
    using apply_txs_total [where H = H, OF assms(1-3)] by blast
  obtain obs slots where slots: "seed_and_read [] pre (block_keys H E ?txs) = Some (obs, slots)" "slots_wf slots"
    "\<And>k. tracked k \<Longrightarrow> unat (version_of slots k) \<le> 1"
    using seed_and_read_total [where H = H and E = E and pre = pre, OF assms(2,3)] by blast
  obtain specs where specs: "speculate H E W pre ?txs slots = Some specs" "length specs = length ?txs"
    "\<And>j. j < length ?txs \<Longrightarrow> spec_of H E W pre slots j (?txs ! j) (specs ! j)"
    using speculate_total [where H = H and E = E and W = W, OF slots(2) assms(1-3)] by blast
  have each: "\<exists>i signd. spec_of H E W pre slots i signd spec" if "spec \<in> set specs" for spec
    using that specs(2,3) by (metis in_set_conv_nth)
  have index: "sx_index (specs ! j) = j" if "j < length specs" for j using that specs(2,3) spec_ofD(1) by metis
  obtain g where g: "conflict_graph specs = Some g" by (rule conflict_graph_total [of specs])
  obtain S where S: "validate specs slots (schedule g) = Some S" using validate_total [OF slots(2) each] by blast
  have "stm_inv pre slots specs 0 pre pre slots (stale_from_earlier_writes specs \<union> S)"
    using assms(1) slots(2,3) by (simp add: stm_inv_def same_cells_def)
  from reexec_loop_same [where H = H, OF this assms(1-3) _ _ _ each index assms(4-7) seq] specs(2,3) assms(8)
  obtain st where "reexec_loop H E W 0 ?txs specs pre slots (stale_from_earlier_writes specs \<union> S) = Some (st, rs)"
    "same_cells st sq" "world_ok st" "world_ok sq" by auto
  then show thesis using that seq slots(1) specs(1) g S by (simp add: apply_block_engine_def reexec_sequential_def Let_def)
qed

text \<open>
  C7. Parallel execution is sequential execution. On a well-formed world the
  speculative engine returns for every block: no assertion and no lookup in it can
  fail; its receipts and its application hash are those of applying the
  transactions one after the other, and so are the accounts, the contract storage,
  the staking ledger and the code it leaves. (The tokens must be fewer than
  2^128: otherwise a rejected bond could leave a trace in the operator table that
  speculation does not carry over.)
\<close>

theorem stm_equals_sequential:
  assumes "world_ok pre" "list_all (\<lambda>s. wf_tx (st_tx s)) (bk_txs block)" "\<And>b. length (H b) = 32"
    "finite A" "list_all (\<lambda>s. written_to H E s \<subseteq> A) (bk_txs block)" "token_supply A pre < 2 ^ 128"
    "unat (sk_next_unbond (w_staking pre)) + length (bk_txs block) < 2 ^ 64" "length (bk_txs block) + 1 < 2 ^ 64"
  shows "\<exists>w world receipts app. apply_block H E W pre block = Some (w, receipts, app) \<and>
    stm_apply_block H E W pre block = Some (world, receipts, app) \<and>
    w_accounts world = w_accounts w \<and> w_storage world = w_storage w \<and> w_staking world = w_staking w \<and>
    (\<forall>a. bt_get (w_code world) a = bt_get (w_code w) a)"
proof -
  obtain sq rs st where e: "apply_txs H E W pre (bk_txs block) = Some (rs, sq)" "same_cells st sq" "world_ok st" "world_ok sq"
    "apply_block_engine H E W pre block = Some (st, rs,
      app_hash H (commit_state_root H st) (tx_root_signed H (bk_txs block)) (receipts_root H (map receipt_encode rs)))"
    by (rule engine_same [where H = H and E = E and W = W, OF assms])
  note same = same_cells_state [OF e(2-4)]
  show ?thesis using e(1,5) same by (simp add: apply_block_def stm_apply_block_def Let_def)
qed

theorem stm_equals_sequential_witness:
  "\<exists>w world receipts app.
     apply_block last32 toy_ed toy_engine example_rich (example_block\<lparr>bk_txs := [example_payment, example_payment]\<rparr>) = Some (w, receipts, app) \<and>
     stm_apply_block last32 toy_ed toy_engine example_rich (example_block\<lparr>bk_txs := [example_payment, example_payment]\<rparr>) = Some (world, receipts, app) \<and>
     w_accounts world = w_accounts w"
proof -
  let ?b = "example_block\<lparr>bk_txs := [example_payment, example_payment]\<rparr>"
  have "list_all (\<lambda>s. wf_tx (st_tx s)) (bk_txs ?b)" by (simp add: example_payment_def wf_tx_def)
  moreover have "finite example_addresses" by (simp add: example_addresses_def)
  moreover have "token_supply example_addresses example_rich < 2 ^ 128" by (simp add: example_rich_supply)
  moreover have "unat (sk_next_unbond (w_staking example_rich)) + length (bk_txs ?b) < 2 ^ 64"
    by (simp add: example_rich_def toy_world_def staking_default_def)
  ultimately show ?thesis
    using stm_equals_sequential [where H = last32, OF example_rich_ok _ length_last32, where block = ?b and A = example_addresses and E = toy_ed and W = toy_engine] example_payment_written
    by auto
qed

text \<open>
  C15. The waves of the schedule. For the transactions of a block, numbered in
  order, building the conflict graph and scheduling it returns; every transaction
  is in exactly one wave, and no two transactions of one wave conflict, in either
  direction.
\<close>

theorem schedule_conflict_free:
  assumes "map sx_index specs = [0..<length specs]"
  shows "\<exists>g. conflict_graph specs = Some g \<and> mset (concat (schedule g)) = mset [0..<length specs] \<and>
    (\<forall>wave\<in>set (schedule g). \<forall>i\<in>set wave. \<forall>j\<in>set wave. i = j \<or> sx_writes (specs ! i) \<inter> union_rw (specs ! j) = {})"
proof -
  obtain g where g: "conflict_graph specs = Some g" "length (cg_adj g) = card (sx_index ` set specs)"
    "\<And>i j. j \<in> nbrs g i \<longleftrightarrow> (\<exists>a\<in>set specs. \<exists>b\<in>set specs. conflict a b \<and> {i, j} = {sx_index a, sx_index b})"
    using conflict_graph_total [of specs] by blast
  have "sx_index ` set specs = set (map sx_index specs)" by simp
  then have n: "length (cg_adj g) = length specs" unfolding g(2) assms by simp
  have sym: "j \<in> nbrs g i \<Longrightarrow> i \<in> nbrs g j" for i j unfolding g(3) by (simp add: insert_commute)
  have part: "mset (concat (schedule g)) = mset [0..<length specs]"
    unfolding schedule_def n by (rule schedule_waves_partition) simp
  have "i = j \<or> sx_writes (specs ! i) \<inter> union_rw (specs ! j) = {}"
    if "wave \<in> set (schedule g)" "i \<in> set wave" "j \<in> set wave" for wave i j
  proof (rule disjCI)
    assume hit: "sx_writes (specs ! i) \<inter> union_rw (specs ! j) \<noteq> {}"
    have "{i, j} \<subseteq> set (concat (schedule g))" using that by auto
    also have "\<dots> = set [0..<length specs]" by (rule mset_eq_setD [OF part])
    finally have "{i, j} \<subseteq> {0..<length specs}" by simp
    then have ij: "i < length specs" "j < length specs" by auto
    then have idx: "sx_index (specs ! i) = i" "sx_index (specs ! j) = j"
      using arg_cong [OF assms, of "\<lambda>xs. xs ! i"] arg_cong [OF assms, of "\<lambda>xs. xs ! j"] by simp_all
    show "i = j"
    proof (rule ccontr)
      assume "i \<noteq> j"
      then have "conflict (specs ! i) (specs ! j)" using hit idx by (simp add: conflict_def)
      then have "j \<in> nbrs g i" unfolding g(3) using ij idx nth_mem by metis
      then show False using schedule_waves_independent [OF sym _ that(2,3) \<open>i \<noteq> j\<close>] that(1) unfolding schedule_def by blast
    qed
  qed
  then show ?thesis using g(1) part by blast
qed

definition example_spec :: "nat \<Rightarrow> bytes set \<Rightarrow> SpecTx" where
  "example_spec i keys = \<lparr>sx_index = i, sx_reads = keys, sx_writes = keys, sx_observed = [], sx_spec_world = toy_world [],
    sx_receipt = fail RGas\<rparr>"

theorem schedule_conflict_free_witness:
  "\<exists>g. conflict_graph [example_spec 0 {[1], [2]}, example_spec 1 {[2]}, example_spec 2 {[3]}] = Some g \<and>
     mset (concat (schedule g)) = {#0, 1, 2#} \<and> schedule g = [[0, 2], [1]]"
proof -
  let ?specs = "[example_spec 0 {[1], [2]}, example_spec 1 {[2]}, example_spec 2 {[3]}]"
  have idx: "map sx_index ?specs = [0..<length ?specs]" by (simp add: example_spec_def upt_rec)
  obtain g where g: "conflict_graph ?specs = Some g" "mset (concat (schedule g)) = mset [0..<length ?specs]"
    using schedule_conflict_free [OF idx] by blast
  have "map_option schedule (conflict_graph ?specs) = Some [[0, 2], [1]]" by code_simp
  then show ?thesis using g by (simp add: upt_rec)
qed

end
