(* ===== verification/Exec_Builder.thy ===== *)
theory Exec_Builder
  imports Exec_Seq "HOL-Library.Sublist"
begin

text \<open>
  The local block builder (\<open>builder.rs\<close>) and rent (\<open>rent.rs\<close>) of
  \<open>crates/execution\<close>. The pool is a parameter, a function that hands out candidates.
  The lemmas show that a built block respects the limits of genesis and that its
  header holds the roots that executing it gives.
\<close>

section \<open>The block builder (builder.rs)\<close>

record BuiltBlock =
  bb_block :: Block
  bb_header :: Header
  bb_world :: World
  bb_receipts :: "Receipt list"
  bb_app_hash :: Hash

text \<open>The loop over the candidates; \<open>None\<close> is the panic of encoding.\<close>

fun select_txs :: "u64 \<Rightarrow> u32 \<Rightarrow> u64 \<Rightarrow> u32 \<Rightarrow> SignedTx list \<Rightarrow> SignedTx list option" where
  "select_txs max_gas max_bytes gas_used bytes_used [] = Some []"
| "select_txs max_gas max_bytes gas_used bytes_used (signd # rest) =
    (case gas_meter (st_tx signd) of
       Err _ \<Rightarrow> select_txs max_gas max_bytes gas_used bytes_used rest
     | Ok g \<Rightarrow>
         do {
           enc \<leftarrow> tx_encode (st_tx signd);
           let b = sat_from (length enc);
           if saturating_add gas_used g > max_gas then select_txs max_gas max_bytes gas_used bytes_used rest
           else if saturating_add bytes_used b > max_bytes then select_txs max_gas max_bytes gas_used bytes_used rest
           else do {
             txs \<leftarrow> select_txs max_gas max_bytes (saturating_add gas_used g) (saturating_add bytes_used b) rest;
             Some (signd # txs)
           }
         })"

definition build_local ::
  "(bytes \<Rightarrow> Hash) \<Rightarrow> Ed25519 \<Rightarrow> Wasmtime \<Rightarrow> ('p \<Rightarrow> u64 \<Rightarrow> u32 \<Rightarrow> SignedTx list \<times> 'p) \<Rightarrow> 'p \<Rightarrow> Genesis \<Rightarrow> World \<Rightarrow> HeaderFields
    \<Rightarrow> (BuiltBlock \<times> 'p) option" where
  "build_local H E W take_ready pool genesis pre hfields =
    do {
      max_gas \<leftarrow> params_get (gp_registry (gn_params genesis)) MaxGas;
      max_block \<leftarrow> params_get (gp_registry (gn_params genesis)) MaxBlockBytes;
      let max_bytes = (ucast max_block :: u32);
      let (candidates, pool) = take_ready pool max_gas max_bytes;
      txs \<leftarrow> select_txs max_gas max_bytes 0 0 candidates;
      let block = \<lparr>bk_header_fields = hfields, bk_txs = txs\<rparr>;
      (world, receipts, app) \<leftarrow> apply_block H E W pre block;
      let tx_r = tx_root_signed H (bk_txs block);
      let rec_r = receipts_root H (map receipt_encode receipts);
      let st = commit_state_root H world;
      let header = \<lparr>hd_fields = hfields, hd_tx_root = tx_r, hd_state_root = st, hd_receipts_root = rec_r,
                    hd_validators_hash = validators_hash H (gn_validators genesis), hd_da_root = DA_ROOT_PLACEHOLDER\<rparr>;
      Some (\<lparr>bb_block = block, bb_header = header, bb_world = world, bb_receipts = receipts, bb_app_hash = app\<rparr>, pool)
    }"

section \<open>Rent (rent.rs)\<close>

text \<open>\<open>None\<close> is the overflow check of the addition of the sizes.\<close>

definition rent_gas :: "Account \<Rightarrow> u64 \<Rightarrow> u64 \<Rightarrow> (u64, GasError) result option" where
  "rent_gas account extra_storage_bytes epochs =
    (case gas_meter (tx_transfer 1 0 GAS_TRANSFER 0 (replicate 32 0) 0) of
       Err e \<Rightarrow> Some (Err e)
     | Ok unt \<Rightarrow>
         do {
           size \<leftarrow> checked_add (of_nat (length (account_encode account))) extra_storage_bytes;
           Some (Ok (saturating_mul (saturating_mul size epochs) (unt div max GAS_TRANSFER 1)))
         })"

definition expire_if_unpaid ::
  "(bytes \<Rightarrow> Hash) \<Rightarrow> Trie \<Rightarrow> Address \<Rightarrow> Account \<Rightarrow> u64 \<Rightarrow> u64 \<Rightarrow> u64 \<Rightarrow> ((ExpiryRecord, ExpiryError) result \<times> Trie) option" where
  "expire_if_unpaid H tr address account extra_storage_bytes epochs prepaid =
    do {
      due \<leftarrow> rent_gas account extra_storage_bytes epochs;
      (case due of
         Err _ \<Rightarrow> Some (Err ProofError, tr)
       | Ok d \<Rightarrow> expire H tr address d prepaid)
    }"

section \<open>Built blocks\<close>

definition tx_gas :: "SignedTx \<Rightarrow> nat" where
  "tx_gas s = (case gas_meter (st_tx s) of Ok g \<Rightarrow> unat g | Err _ \<Rightarrow> 0)"

definition tx_size :: "SignedTx \<Rightarrow> nat" where
  "tx_size s = length (tx_bytes (st_tx s))"

lemma unat_not_max:
  assumes "m \<noteq> - 1"
  shows "unat (m :: 'a::len word) < 2 ^ LENGTH('a) - 1"
proof -
  have "unat m \<noteq> unat (- 1 :: 'a word)" using assms by (simp add: word_unat_eq_iff)
  then show ?thesis using unat_lt_pow [of m] unat_minus_one_max [where 'a = 'a] by linarith
qed

lemma saturating_add_le:
  assumes "\<not> m < saturating_add a b" "m \<noteq> - 1"
  shows "unat (saturating_add a b) = unat a + unat b \<and> unat a + unat b \<le> unat (m :: 'a::len word)"
  using assms(1) unat_not_max [OF assms(2)] unat_saturating_add [of a b] by (auto simp: word_less_nat_alt min_def split: if_splits)

lemma select_txs_bounds:
  assumes "select_txs mg mb g b cands = Some txs" "mg \<noteq> - 1" "mb \<noteq> - 1" "g \<le> mg" "b \<le> mb"
  shows "unat g + sum_list (map tx_gas txs) \<le> unat mg \<and> unat b + sum_list (map tx_size txs) \<le> unat mb \<and> subseq txs cands"
  using assms(1,4,5)
proof (induction cands arbitrary: g b txs)
  case Nil
  then show ?case by (simp add: word_le_nat_alt)
next
  case (Cons s rest)
  consider (skip) "select_txs mg mb g b rest = Some txs"
    | (pick) c enc txs' where "gas_meter (st_tx s) = Ok c" "tx_encode (st_tx s) = Some enc" "txs = s # txs'"
      "\<not> mg < saturating_add g c" "\<not> mb < saturating_add b (sat_from (length enc))"
      "select_txs mg mb (saturating_add g c) (saturating_add b (sat_from (length enc))) rest = Some txs'"
    using Cons.prems(1) by (auto simp: bind_eq_Some_conv Let_def split: result.splits if_splits)
  then show ?case
  proof cases
    case skip
    then show ?thesis using Cons.IH [OF skip Cons.prems(2,3)] by auto
  next
    case pick
    note g = saturating_add_le [OF pick(4) assms(2)] and b = saturating_add_le [OF pick(5) assms(3)]
    have "length enc < 2 ^ 32 - 1"
      using b unat_sat_from [of "length enc", where 'a = 32] unat_not_max [OF assms(3)] by (simp add: min_def split: if_splits)
    then have "unat (sat_from (length enc) :: u32) = tx_size s"
      using unat_sat_from [of "length enc", where 'a = 32] pick(2) by (simp add: tx_size_def tx_bytes_def)
    moreover have "unat c = tx_gas s" using pick(1) by (simp add: tx_gas_def)
    ultimately show ?thesis
      using Cons.IH [OF pick(6)] g b pick(3) by (simp add: word_le_nat_alt)
  qed
qed

text \<open>
  C16. A built block is within the limits and its header is true. The transactions
  are candidates of the pool in their order, their gas and their bytes stay within
  the two parameters, and executing the block again on the same world gives the
  world, the receipts, the application hash and the three roots of the header.
\<close>

theorem built_block_valid:
  assumes "build_local H E W take_ready pool genesis pre hfields = Some (bb, pool')"
    "params_get (gp_registry (gn_params genesis)) MaxGas = Some mg" "mg \<noteq> - 1"
    "params_get (gp_registry (gn_params genesis)) MaxBlockBytes = Some mb" "(ucast mb :: u32) \<noteq> - 1"
  shows "sum_list (map tx_gas (bk_txs (bb_block bb))) \<le> unat mg \<and>
    sum_list (map tx_size (bk_txs (bb_block bb))) \<le> unat (ucast mb :: u32) \<and>
    subseq (bk_txs (bb_block bb)) (fst (take_ready pool mg (ucast mb))) \<and>
    apply_block_with_roots H E W pre (bb_block bb) =
      Some (bb_world bb, bb_receipts bb, bb_app_hash bb, hd_state_root (bb_header bb), hd_tx_root (bb_header bb),
        hd_receipts_root (bb_header bb))"
proof -
  obtain txs where t: "select_txs mg (ucast mb) 0 0 (fst (take_ready pool mg (ucast mb))) = Some txs"
    "bk_txs (bb_block bb) = txs"
    using assms(1,2,4) by (auto simp: build_local_def Let_def bind_eq_Some_conv case_prod_beta')
  have "apply_block_with_roots H E W pre (bb_block bb) =
      Some (bb_world bb, bb_receipts bb, bb_app_hash bb, hd_state_root (bb_header bb), hd_tx_root (bb_header bb),
        hd_receipts_root (bb_header bb))"
    using assms(1) by (auto simp: build_local_def apply_block_def apply_block_with_roots_def Let_def bind_eq_Some_conv case_prod_beta')
  then show ?thesis using select_txs_bounds [OF t(1) assms(3,5)] t(2) by simp
qed

definition example_genesis :: Genesis where
  "example_genesis = genesis_new 1"

theorem built_block_valid_witness:
  "\<exists>bb. build_local last32 toy_ed toy_engine (\<lambda>p _ _. (p, [])) [example_payment, example_payment] example_genesis example_rich
       \<lparr>hf_height = 1, hf_round = 0, hf_proposer = replicate 48 0, hf_timestamp_ms = 5\<rparr> = Some (bb, []) \<and>
     sum_list (map tx_gas (bk_txs (bb_block bb))) \<le> unat MAX_GAS"
proof -
  let ?f = "\<lparr>hf_height = 1, hf_round = 0, hf_proposer = replicate 48 0, hf_timestamp_ms = 5\<rparr>"
  have p: "params_get (gp_registry (gn_params example_genesis)) MaxGas = Some MAX_GAS" "MAX_GAS \<noteq> - 1"
    "params_get (gp_registry (gn_params example_genesis)) MaxBlockBytes = Some (ucast MAX_BLOCK_BYTES)"
    "(ucast (ucast MAX_BLOCK_BYTES :: u64) :: u32) \<noteq> - 1" by code_simp+
  have "list_all (\<lambda>s. wf_tx (st_tx s)) [example_payment, example_payment]" by (simp add: example_payment_def wf_tx_def)
  then obtain rs w where "apply_txs last32 toy_ed toy_engine example_rich [example_payment, example_payment] = Some (rs, w)"
    using apply_txs_total [of example_rich "[example_payment, example_payment]" last32 toy_ed toy_engine, OF example_rich_ok _ length_last32] by blast
  moreover have "select_txs MAX_GAS (ucast (ucast MAX_BLOCK_BYTES :: u64)) 0 0 [example_payment, example_payment] =
      Some [example_payment, example_payment]" by code_simp
  ultimately obtain bb where b: "build_local last32 toy_ed toy_engine (\<lambda>p _ _. (p, [])) [example_payment, example_payment] example_genesis
      example_rich ?f = Some (bb, [])"
    using p by (simp add: build_local_def apply_block_def Let_def)
  then show ?thesis using built_block_valid [OF b p] by blast
qed

end
