(* ===== verification/Mempool_Queue.thy ===== *)
theory Mempool_Queue
  imports Exec_Builder
begin

text \<open>
  The local mempool (\<open>crates/mempool\<close>): admission checks (\<open>verify.rs\<close>, \<open>fees.rs\<close>,
  \<open>limits.rs\<close>, \<open>rbf.rs\<close>), the queue of each account by nonce (\<open>queue.rs\<close>), eviction,
  and the choice of ready transactions for a block (\<open>order.rs\<close>). The queue is a map
  from pairs of address and nonce; the lemmas show what insertion keeps and that
  the choice for a block ends, respects nonces and limits and leaves nothing out
  that fits.
\<close>

section \<open>Admission (verify.rs)\<close>

datatype PoolVerifyError =
    VSignature | VWrongNonce | VInsufficientBalance | VGas | VMinFee | VMempoolFull | VRbfTooLow | VTxTooLarge

fun verify_error_of :: "RejectReason \<Rightarrow> PoolVerifyError" where
  "verify_error_of RSignature = VSignature"
| "verify_error_of RWrongNonce = VWrongNonce"
| "verify_error_of RInsufficientBalance = VInsufficientBalance"
| "verify_error_of RGas = VGas"
| "verify_error_of RStakeMinBond = VInsufficientBalance"
| "verify_error_of RStakeTombstone = VInsufficientBalance"
| "verify_error_of RStakeUnbonding = VInsufficientBalance"
| "verify_error_of RStakeInsufficient = VInsufficientBalance"
| "verify_error_of RWasmInvalid = VGas"
| "verify_error_of RWasmGas = VGas"
| "verify_error_of RWasmReentrancy = VGas"
| "verify_error_of RWasmNoCode = VGas"

definition verify_error_of_check :: "CheckError \<Rightarrow> PoolVerifyError" where
  "verify_error_of_check e = verify_error_of (reason_of_check e)"

definition verify_error_of_gas :: "GasError \<Rightarrow> PoolVerifyError" where
  "verify_error_of_gas e = verify_error_of (reason_of_gas e)"

definition pool_sender_address :: "(bytes \<Rightarrow> Hash) \<Rightarrow> Ed25519 \<Rightarrow> SignedTx \<Rightarrow> (Address, PoolVerifyError) result" where
  "pool_sender_address H E signd =
    and_then (map_err (\<lambda>_. VSignature) (public_key_from_bytes E (st_public_key signd))) (\<lambda>pk. Ok (from_ed25519 H E pk))"

definition account_for_nonce_check :: "Tx \<Rightarrow> Account \<Rightarrow> (Account, PoolVerifyError) result" where
  "account_for_nonce_check tx account =
    (if tx_nonce tx < ac_nonce account then
       and_then (map_err verify_error_of_check (nonce_check tx account)) (\<lambda>_. Err VWrongNonce)
     else Ok (account\<lparr>ac_nonce := tx_nonce tx\<rparr>))"

text \<open>The balance part of \<open>verify\<close>.\<close>

definition verify_balance :: "Tx \<Rightarrow> Account \<Rightarrow> (unit, PoolVerifyError) result" where
  "verify_balance tx account =
    (case as_stake tx of
       Some stake \<Rightarrow> map_err verify_error_of_check (value_balance_check tx (stake_debit stake) account)
     | None \<Rightarrow>
         if as_deploy tx \<noteq> None \<or> as_call tx \<noteq> None then map_err verify_error_of_check (value_balance_check tx 0 account)
         else (case as_transfer tx of
                 None \<Rightarrow> Err VGas
               | Some transfer \<Rightarrow> map_err verify_error_of_check (balance_check tx transfer account)))"

text \<open>\<open>None\<close> is the panic of encoding the transaction for the signature check.\<close>

definition pool_verify :: "Ed25519 \<Rightarrow> SignedTx \<Rightarrow> Account \<Rightarrow> (unit, PoolVerifyError) result option" where
  "pool_verify E signd account =
    do {
      _ \<leftarrow> (case public_key_from_bytes E (st_public_key signd) of Err _ \<Rightarrow> Some [] | Ok _ \<Rightarrow> tx_encode (st_tx signd));
      Some (
        and_then (map_err (\<lambda>_. VSignature) (verify_ed25519 E signd)) (\<lambda>_.
        and_then (map_err verify_error_of_gas (gas_meter (st_tx signd))) (\<lambda>_.
        and_then (verify_balance (st_tx signd) account) (\<lambda>_.
        and_then (account_for_nonce_check (st_tx signd) account) (\<lambda>nonce_acct.
        map_err verify_error_of_check (nonce_check (st_tx signd) nonce_acct))))))
    }"

section \<open>The queue (queue.rs)\<close>

record Mempool =
  mp_queued :: "(Address, (Nonce, SignedTx) btree) btree"
  mp_account_nonce :: "(Address, Nonce) btree"
  mp_min_fee :: u128
  mp_max_txs :: nat
  mp_max_bytes :: nat

text \<open>The transactions in the order of the two nested loops over the maps.\<close>

definition pool_entries :: "Mempool \<Rightarrow> (Address \<times> Nonce \<times> SignedTx) list" where
  "pool_entries pool = concat (map (\<lambda>(addr, m). map (\<lambda>(n, tx). (addr, n, tx)) m) (mp_queued pool))"

definition tx_count :: "Mempool \<Rightarrow> nat" where
  "tx_count pool = sum_list (map (length \<circ> snd) (mp_queued pool))"

fun encoded_sizes :: "(Address \<times> Nonce \<times> SignedTx) list \<Rightarrow> nat option" where
  "encoded_sizes [] = Some 0"
| "encoded_sizes ((_, _, s) # es) = do { b \<leftarrow> tx_encode (st_tx s); n \<leftarrow> encoded_sizes es; Some (length b + n) }"

definition byte_size :: "Mempool \<Rightarrow> nat option" where
  "byte_size pool = encoded_sizes (pool_entries pool)"

definition observe_account :: "Mempool \<Rightarrow> Address \<Rightarrow> Nonce \<Rightarrow> Mempool" where
  "observe_account pool addr nonce =
    (let pool = pool\<lparr>mp_account_nonce := bt_insert addr nonce (mp_account_nonce pool)\<rparr>
     in case bt_get (mp_queued pool) addr of
          None \<Rightarrow> pool
        | Some m \<Rightarrow>
            (let m = filter (\<lambda>(n, _). n \<ge> nonce) m
             in if m = [] then pool\<lparr>mp_queued := bt_remove addr (mp_queued pool)\<rparr>
                else pool\<lparr>mp_queued := bt_insert addr m (mp_queued pool)\<rparr>))"

definition next_nonce :: "Mempool \<Rightarrow> Address \<Rightarrow> Nonce" where
  "next_nonce pool addr = unwrap_or 0 (bt_get (mp_account_nonce pool) addr)"

definition pool_get :: "Mempool \<Rightarrow> Address \<times> Nonce \<Rightarrow> SignedTx option" where
  "pool_get pool k = (case bt_get (mp_queued pool) (fst k) of None \<Rightarrow> None | Some m \<Rightarrow> bt_get m (snd k))"

definition ready_for :: "Mempool \<Rightarrow> Address \<Rightarrow> SignedTx option" where
  "ready_for pool addr = pool_get pool (addr, next_nonce pool addr)"

text \<open>\<open>entry(addr).or_default().insert(nonce, signed)\<close>.\<close>

definition queue_put :: "Mempool \<Rightarrow> Address \<times> Nonce \<Rightarrow> SignedTx \<Rightarrow> Mempool" where
  "queue_put pool k signd =
    pool\<lparr>mp_queued := bt_insert (fst k) (bt_insert (snd k) signd (unwrap_or [] (bt_get (mp_queued pool) (fst k)))) (mp_queued pool)\<rparr>"

definition queue_insert ::
  "(bytes \<Rightarrow> Hash) \<Rightarrow> Ed25519 \<Rightarrow> Mempool \<Rightarrow> SignedTx \<Rightarrow> Account \<Rightarrow> ((Address, PoolVerifyError) result \<times> Mempool) option" where
  "queue_insert H E pool signd account =
    do {
      verified \<leftarrow> pool_verify E signd account;
      (case and_then verified (\<lambda>_. pool_sender_address H E signd) of
         Err e \<Rightarrow> Some (Err e, pool)
       | Ok addr \<Rightarrow>
           (let pool = observe_account pool addr (ac_nonce account)
            in Some (Ok addr, queue_put pool (addr, tx_nonce (st_tx signd)) signd)))
    }"

definition pool_remove :: "Mempool \<Rightarrow> Address \<times> Nonce \<Rightarrow> Mempool" where
  "pool_remove pool k =
    (case bt_get (mp_queued pool) (fst k) of
       None \<Rightarrow> pool
     | Some m \<Rightarrow>
         (let m = bt_remove (snd k) m
          in if m = [] then pool\<lparr>mp_queued := bt_remove (fst k) (mp_queued pool)\<rparr>
             else pool\<lparr>mp_queued := bt_insert (fst k) m (mp_queued pool)\<rparr>))"

section \<open>Fee floor and limits (fees.rs, limits.rs, rbf.rs)\<close>

definition with_limits :: "u128 \<Rightarrow> nat \<Rightarrow> nat \<Rightarrow> Mempool" where
  "with_limits min_fee max_txs max_bytes =
    \<lparr>mp_queued = [], mp_account_nonce = [], mp_min_fee = min_fee, mp_max_txs = max_txs, mp_max_bytes = max_bytes\<rparr>"

definition min_fee_floor :: "ParamsRegistry \<Rightarrow> u128 option" where
  "min_fee_floor registry = do { _ \<leftarrow> params_get registry MaxGas; Some MIN_TX_FEE }"

definition check_min_fee :: "Tx \<Rightarrow> u128 \<Rightarrow> (unit, PoolVerifyError) result" where
  "check_min_fee tx min_fee = (if tx_max_fee tx < min_fee then Err VMinFee else Ok ())"

definition mempool_new :: "ParamsRegistry \<Rightarrow> Mempool option" where
  "mempool_new registry =
    do { min_fee \<leftarrow> min_fee_floor registry; Some (with_limits min_fee (unat MEMPOOL_MAX_TXS) (unat MAX_BLOCK_BYTES)) }"

definition check_tx_bytes :: "SignedTx \<Rightarrow> (unit, PoolVerifyError) result option" where
  "check_tx_bytes signd =
    do { b \<leftarrow> tx_encode (st_tx signd); Some (if length b > unat MAX_TX_BYTES then Err VTxTooLarge else Ok ()) }"

text \<open>One entry of the search for the lowest priority.\<close>

definition lowest_step :: "(u128 \<times> Address \<times> Nonce) option \<Rightarrow> Address \<times> Nonce \<times> SignedTx \<Rightarrow> (u128 \<times> Address \<times> Nonce) option" where
  "lowest_step low e =
    (case e of (addr, n, tx) \<Rightarrow>
       (case fee_priority (st_tx tx) of
          Err _ \<Rightarrow> low
        | Ok p \<Rightarrow>
            (case low of
               None \<Rightarrow> Some (p, addr, n)
             | Some (lp, la, ln) \<Rightarrow>
                 if p < lp \<or> p = lp \<and> (addr < la \<or> addr = la \<and> n < ln) then Some (p, addr, n) else low)))"

definition lowest_priority :: "Mempool \<Rightarrow> (Address \<times> Nonce \<times> u128) option" where
  "lowest_priority pool = map_option (\<lambda>(p, a, n). (a, n, p)) (foldl lowest_step None (pool_entries pool))"

definition USIZE_MAX :: nat where
  "USIZE_MAX = 2 ^ 64 - 1"

partial_function (option) room_loop :: "Mempool \<Rightarrow> nat \<Rightarrow> u128 \<Rightarrow> ((unit, PoolVerifyError) result \<times> Mempool) option" where
  [code]: "room_loop pool inc_bytes inc_p =
    do {
      size \<leftarrow> byte_size pool;
      if \<not> tx_count pool \<ge> mp_max_txs pool \<and> \<not> min USIZE_MAX (size + inc_bytes) > mp_max_bytes pool then Some (Ok (), pool)
      else (case lowest_priority pool of
              None \<Rightarrow> Some (Err VMempoolFull, pool)
            | Some low \<Rightarrow>
                if inc_p \<le> snd (snd low) then Some (Err VMempoolFull, pool)
                else room_loop (pool_remove pool (fst low, fst (snd low))) inc_bytes inc_p)
    }"

definition ensure_room :: "Mempool \<Rightarrow> SignedTx \<Rightarrow> ((unit, PoolVerifyError) result \<times> Mempool) option" where
  "ensure_room pool incoming =
    do {
      b \<leftarrow> tx_encode (st_tx incoming);
      (case map_err verify_error_of_gas (fee_priority (st_tx incoming)) of
         Err e \<Rightarrow> Some (Err e, pool)
       | Ok inc_p \<Rightarrow> room_loop pool (length b) inc_p)
    }"

definition rbf_allowed :: "SignedTx \<Rightarrow> SignedTx \<Rightarrow> (unit, PoolVerifyError) result" where
  "rbf_allowed old new =
    and_then (map_err verify_error_of_gas (fee_priority (st_tx old))) (\<lambda>old_p.
    and_then (map_err verify_error_of_gas (fee_priority (st_tx new))) (\<lambda>new_p.
      if old_p = 0 then (if new_p > 0 then Ok () else Err VRbfTooLow)
      else if saturating_mul new_p 10 \<ge> saturating_mul old_p 11 then Ok ()
      else Err VRbfTooLow))"

section \<open>Insertion (lib.rs)\<close>

definition pool_insert ::
  "(bytes \<Rightarrow> Hash) \<Rightarrow> Ed25519 \<Rightarrow> Mempool \<Rightarrow> SignedTx \<Rightarrow> Account \<Rightarrow> ((unit, PoolVerifyError) result \<times> Mempool) option" where
  "pool_insert H E pool signd account =
    do {
      size_ok \<leftarrow> check_tx_bytes signd;
      (case and_then size_ok (\<lambda>_. check_min_fee (st_tx signd) (mp_min_fee pool)) of
         Err e \<Rightarrow> Some (Err e, pool)
       | Ok _ \<Rightarrow>
           do {
             verified \<leftarrow> pool_verify E signd account;
             (case and_then verified (\<lambda>_. pool_sender_address H E signd) of
                Err e \<Rightarrow> Some (Err e, pool)
              | Ok addr \<Rightarrow>
                  (let pool = observe_account pool addr (ac_nonce account); k = (addr, tx_nonce (st_tx signd))
                   in case pool_get pool k of
                        Some old \<Rightarrow>
                          (case rbf_allowed old signd of
                             Err e \<Rightarrow> Some (Err e, pool)
                           | Ok _ \<Rightarrow> Some (Ok (), queue_put pool k signd))
                      | None \<Rightarrow>
                          do {
                            (res, pool) \<leftarrow> ensure_room pool signd;
                            (case res of
                               Err e \<Rightarrow> Some (Err e, pool)
                             | Ok _ \<Rightarrow> Some (Ok (), queue_put pool k signd))
                          }))
           })
    }"

definition admit_preverified :: "Mempool \<Rightarrow> SignedTx \<Rightarrow> Address \<Rightarrow> Mempool" where
  "admit_preverified pool signd addr = queue_put pool (addr, tx_nonce (st_tx signd)) signd"

section \<open>Choice for a block (order.rs)\<close>

definition best_step ::
  "(Address, Nonce) btree \<Rightarrow> (Address \<times> Nonce) set \<Rightarrow> (u128 \<times> Address \<times> SignedTx) option
    \<Rightarrow> Address \<times> (Nonce, SignedTx) btree \<Rightarrow> (u128 \<times> Address \<times> SignedTx) option" where
  "best_step local skip best e =
    (case e of (addr, m) \<Rightarrow>
       (let n = unwrap_or 0 (bt_get local addr)
        in case bt_get m n of
             None \<Rightarrow> best
           | Some tx \<Rightarrow>
               if (addr, n) \<in> skip then best
               else (case fee_priority (st_tx tx) of
                       Err _ \<Rightarrow> best
                     | Ok p \<Rightarrow>
                         (case best of
                            None \<Rightarrow> Some (p, addr, tx)
                          | Some (bp, ba, _) \<Rightarrow> if p > bp \<or> p = bp \<and> addr < ba then Some (p, addr, tx) else best))))"

definition peek_best_ready ::
  "Mempool \<Rightarrow> (Address, Nonce) btree \<Rightarrow> (Address \<times> Nonce) set \<Rightarrow> (Address \<times> SignedTx) option" where
  "peek_best_ready pool local skip = map_option snd (foldl (best_step local skip) None (mp_queued pool))"

partial_function (option) take_loop ::
  "u64 \<Rightarrow> u32 \<Rightarrow> Mempool \<Rightarrow> (Address, Nonce) btree \<Rightarrow> (Address \<times> Nonce) set \<Rightarrow> u64 \<Rightarrow> u32 \<Rightarrow> (SignedTx list \<times> Mempool) option" where
  [code]: "take_loop max_gas max_bytes pool local skip gas bytes =
    (case peek_best_ready pool local skip of
       None \<Rightarrow> Some ([], pool)
     | Some best \<Rightarrow>
         (let addr = fst best; signd = snd best; nonce = tx_nonce (st_tx signd)
          in case gas_meter (st_tx signd) of
               Err _ \<Rightarrow> take_loop max_gas max_bytes pool local (insert (addr, nonce) skip) gas bytes
             | Ok g \<Rightarrow>
                 do {
                   enc \<leftarrow> tx_encode (st_tx signd);
                   let b = (sat_from (length enc) :: u32);
                   if saturating_add gas g > max_gas \<or> saturating_add bytes b > max_bytes
                   then take_loop max_gas max_bytes pool local (insert (addr, nonce) skip) gas bytes
                   else do {
                     res \<leftarrow> take_loop max_gas max_bytes (pool_remove pool (addr, nonce)) (bt_insert addr (bump_nonce nonce) local) skip
                              (saturating_add gas g) (saturating_add bytes b);
                     Some (signd # fst res, snd res)
                   }
                 }))"

definition take_ready :: "Mempool \<Rightarrow> u64 \<Rightarrow> u32 \<Rightarrow> (SignedTx list \<times> Mempool) option" where
  "take_ready pool max_gas max_bytes = take_loop max_gas max_bytes pool (mp_account_nonce pool) {} 0 0"

section \<open>The queue as a map\<close>

definition pool_wf :: "Mempool \<Rightarrow> bool" where
  "pool_wf pool \<longleftrightarrow> bt_wf (mp_queued pool) \<and> (\<forall>a m. bt_get (mp_queued pool) a = Some m \<longrightarrow> bt_wf m)"

lemma pool_wf_sub: "pool_wf pool \<Longrightarrow> bt_wf (unwrap_or [] (bt_get (mp_queued pool) a))"
  by (cases "bt_get (mp_queued pool) a") (auto simp: pool_wf_def)

interpretation pool_map: keyed_map_delete pool_get queue_put pool_wf "\<lambda>_. True" pool_remove
proof
  show "pool_wf (queue_put m k v)" if "pool_wf m" for m k v
    using that pool_wf_sub [OF that, of "fst k"] by (auto simp: pool_wf_def queue_put_def)
  show "pool_get (queue_put m k v) q = (if q = k then Some v else pool_get m q)" for m k v q
    by (cases k; cases q) (auto simp: pool_get_def queue_put_def split: option.split)
  show "pool_wf (pool_remove m k)" if "pool_wf m" for m k
    using that by (auto simp: pool_wf_def pool_remove_def Let_def split: option.split)
  show "pool_get (pool_remove m k) q = (if q = k then None else pool_get m q)" if "pool_wf m" for m k q
  proof (cases "bt_get (mp_queued m) (fst k)")
    case (Some t)
    have gone: "bt_get t i = None" if "bt_remove (snd k) t = []" "i \<noteq> snd k" for i
      using bt_get_remove [of "snd k" t] that by (metis fun_upd_other map_of.simps(1))
    show ?thesis
      using Some gone by (cases k; cases q) (auto simp: pool_get_def pool_remove_def Let_def split: option.split)
  qed (auto simp: pool_get_def pool_remove_def)
qed

lemma observe_account_get:
  assumes "pool_wf pool"
  shows "pool_wf (observe_account pool a n)"
    "pool_get (observe_account pool a n) k = (if fst k = a \<and> snd k < n then None else pool_get pool k)"
proof -
  have f: "bt_get (filter (\<lambda>(i, _). n \<le> i) m) i = (if i < n then None else bt_get m i)" for m :: "(Nonce, SignedTx) btree" and i
    by (induction m) (auto simp: not_less)
  have wf: "bt_wf m \<Longrightarrow> bt_wf (filter (\<lambda>(i, _). n \<le> i) m)" for m :: "(Nonce, SignedTx) btree"
    by (induction m) (auto simp: bt_wf_def)
  show "pool_wf (observe_account pool a n)"
    using assms wf by (auto simp: pool_wf_def observe_account_def Let_def split: option.split)
  show "pool_get (observe_account pool a n) k = (if fst k = a \<and> snd k < n then None else pool_get pool k)"
  proof (cases "bt_get (mp_queued pool) a")
    case (Some m)
    show ?thesis
      using Some f [of m "snd k"]
      by (cases "filter (\<lambda>(i, _). n \<le> i) m = []") (auto simp: pool_get_def observe_account_def Let_def split: option.split)
  qed (auto simp: pool_get_def observe_account_def)
qed

text \<open>The entries are the graph of the map, each listed once.\<close>

lemma pool_entries_get:
  assumes "pool_wf pool"
  shows "(a, n, tx) \<in> set (pool_entries pool) \<longleftrightarrow> pool_get pool (a, n) = Some tx"
proof -
  have "(a, n, tx) \<in> set (pool_entries pool) \<longleftrightarrow> (\<exists>m. (a, m) \<in> set (mp_queued pool) \<and> (n, tx) \<in> set m)"
    by (force simp: pool_entries_def)
  also have "\<dots> \<longleftrightarrow> (\<exists>m. bt_get (mp_queued pool) a = Some m \<and> (n, tx) \<in> set m)"
    using assms by (auto simp: pool_wf_def bt_wf_distinct)
  also have "\<dots> \<longleftrightarrow> (\<exists>m. bt_get (mp_queued pool) a = Some m \<and> bt_get m n = Some tx)"
    using assms by (auto simp: pool_wf_def bt_wf_distinct)
  finally show ?thesis by (auto simp: pool_get_def split: option.split)
qed

lemma pool_entries_distinct:
  assumes "pool_wf pool"
  shows "distinct (map (\<lambda>(a, n, tx). (a, n)) (pool_entries pool))"
proof -
  have "distinct (map fst q) \<Longrightarrow> (\<And>a m. (a, m) \<in> set q \<Longrightarrow> distinct (map fst m)) \<Longrightarrow>
      distinct (map (\<lambda>(a, n, tx). (a, n)) (concat (map (\<lambda>(a, m). map (\<lambda>(n, tx). (a, n, tx)) m) q)))"
    for q :: "(Address, (Nonce, SignedTx) btree) btree"
  proof (induction q)
    case (Cons p q)
    obtain a m where p: "p = (a, m)" by fastforce
    have "distinct (map fst m)" using Cons.prems(2) p by auto
    then have "distinct (map (\<lambda>(a, n, tx). (a, n)) (map (\<lambda>(n, tx). (a, n, tx)) m))"
      by (auto simp: distinct_map inj_on_def case_prod_beta')
    moreover have "a \<notin> fst ` set q" using Cons.prems(1) p by auto
    ultimately show ?case using Cons.IH Cons.prems by (auto simp: p) force+
  qed simp
  moreover have "distinct (map fst m)" if "(a, m) \<in> set (mp_queued pool)" for a m
    using assms that bt_wf_distinct by (metis map_of_is_SomeI pool_wf_def)
  ultimately show ?thesis using assms by (simp add: pool_entries_def pool_wf_def bt_wf_distinct)
qed

lemma finite_pool: "pool_wf pool \<Longrightarrow> finite (dom (pool_get pool))"
proof -
  assume "pool_wf pool"
  then have "dom (pool_get pool) \<subseteq> (\<lambda>(a, n, tx). (a, n)) ` set (pool_entries pool)"
    by (auto simp: pool_entries_get [symmetric] image_iff) force
  then show ?thesis using finite_surj [OF finite_set] by blast
qed

lemma tx_count_card:
  assumes "pool_wf pool"
  shows "tx_count pool = card (dom (pool_get pool))"
proof -
  let ?ks = "map (\<lambda>(a, n, tx). (a, n)) (pool_entries pool)"
  have "tx_count pool = length ?ks"
    by (simp add: tx_count_def pool_entries_def length_concat comp_def case_prod_beta')
  also have "\<dots> = card (set ?ks)" using distinct_card [OF pool_entries_distinct [OF assms]] by simp
  also have "set ?ks = dom (pool_get pool)"
    using pool_entries_get [OF assms] by (force simp: dom_def)
  finally show ?thesis .
qed

section \<open>Sizes and eviction\<close>

definition txs_wf :: "Mempool \<Rightarrow> bool" where
  "txs_wf pool \<longleftrightarrow> pool_wf pool \<and> (\<forall>k tx. pool_get pool k = Some tx \<longrightarrow> wf_tx (st_tx tx))"

definition pool_bytes :: "Mempool \<Rightarrow> nat" where
  "pool_bytes pool = (\<Sum>k\<in>dom (pool_get pool). tx_size (the (pool_get pool k)))"

lemma byte_size_sum:
  assumes "txs_wf pool"
  shows "byte_size pool = Some (pool_bytes pool)"
proof -
  let ?es = "pool_entries pool" and ?g = "\<lambda>k. (fst k, snd k, the (pool_get pool k))"
  have wf: "pool_wf pool" using assms by (simp add: txs_wf_def)
  have "(\<forall>(a, n, s)\<in>set es. wf_tx (st_tx s)) \<Longrightarrow> encoded_sizes es = Some (\<Sum>(a, n, s)\<leftarrow>es. tx_size s)" for es
    by (induction es rule: encoded_sizes.induct) (auto simp: tx_encode_wf tx_size_def)
  moreover have "\<forall>(a, n, s)\<in>set ?es. wf_tx (st_tx s)"
    using assms pool_entries_get [OF wf] by (auto simp: txs_wf_def)
  ultimately have "byte_size pool = Some (\<Sum>(a, n, s)\<leftarrow>?es. tx_size s)" by (simp add: byte_size_def)
  moreover have "distinct ?es" using pool_entries_distinct [OF wf] by (simp add: distinct_map)
  then have "(\<Sum>(a, n, s)\<leftarrow>?es. tx_size s) = (\<Sum>(a, n, s)\<in>set ?es. tx_size s)" by (rule sum_list_distinct_conv_sum_set)
  moreover have "set ?es = ?g ` dom (pool_get pool)" using pool_entries_get [OF wf] by (auto simp: image_iff) force+
  moreover have "inj_on ?g (dom (pool_get pool))" by (auto simp: inj_on_def)
  ultimately show ?thesis by (simp add: sum.reindex pool_bytes_def)
qed

lemma lowest_fold:
  assumes "foldl lowest_step None es = low"
  shows "case low of
      None \<Rightarrow> (\<forall>(a, n, t)\<in>set es. \<not> is_ok (fee_priority (st_tx t)))
    | Some (p, a, n) \<Rightarrow> (\<exists>t. (a, n, t) \<in> set es \<and> fee_priority (st_tx t) = Ok p) \<and>
        (\<forall>(b, m, t)\<in>set es. \<forall>q. fee_priority (st_tx t) = Ok q \<longrightarrow> p \<le> q)"
  using assms
proof (induction es arbitrary: low rule: rev_induct)
  case (snoc e es)
  obtain a n t where e: "e = (a, n, t)" by (cases e)
  define low0 where "low0 = foldl lowest_step None es"
  have low: "low = lowest_step low0 e" using snoc.prems by (simp add: low0_def)
  note IH = snoc.IH [OF low0_def [symmetric]]
  show ?case
  proof (cases low0)
    case None
    then show ?thesis using IH low by (cases "fee_priority (st_tx t)") (auto simp: e lowest_step_def)
  next
    case (Some x)
    obtain lp la ln where x: "x = (lp, la, ln)" by (cases x)
    show ?thesis
    proof (cases "fee_priority (st_tx t)")
      case (Ok p)
      show ?thesis
      proof (cases "p < lp \<or> p = lp \<and> (a < la \<or> a = la \<and> n < ln)")
        case True
        then have "low = Some (p, a, n)" "p \<le> lp" using low Some x Ok by (auto simp: e lowest_step_def)
        then show ?thesis using IH Some x Ok by (force simp: e)
      next
        case False
        then have "low = Some (lp, la, ln)" "lp \<le> p" using low Some x Ok by (auto simp: e lowest_step_def not_less)
        then show ?thesis using IH Some x Ok by (auto simp: e)
      qed
    qed (use IH low Some x in \<open>auto simp: e lowest_step_def\<close>)
  qed
qed simp

lemma lowest_priority_min:
  assumes "lowest_priority pool = Some (a, n, p)" "pool_wf pool"
  obtains t where "pool_get pool (a, n) = Some t" "fee_priority (st_tx t) = Ok p"
proof -
  obtain "foldl lowest_step None (pool_entries pool) = Some (p, a, n)"
    using assms(1) by (auto simp: lowest_priority_def)
  from lowest_fold [OF this] show thesis using that pool_entries_get [OF assms(2)] by auto
qed

lemma txs_wf_remove: "txs_wf pool \<Longrightarrow> txs_wf (pool_remove pool k)"
  by (auto simp: txs_wf_def pool_map.ok_del pool_map.get_del)

lemma pool_remove_fields [simp]:
  "mp_account_nonce (pool_remove pool k) = mp_account_nonce pool" "mp_min_fee (pool_remove pool k) = mp_min_fee pool"
  "mp_max_txs (pool_remove pool k) = mp_max_txs pool" "mp_max_bytes (pool_remove pool k) = mp_max_bytes pool"
  by (simp_all add: pool_remove_def Let_def split: option.split)

lemma tx_count_remove:
  assumes "pool_wf pool" "pool_get pool k = Some t"
  shows "Suc (tx_count (pool_remove pool k)) = tx_count pool"
proof -
  have d: "dom (pool_get (pool_remove pool k)) = dom (pool_get pool) - {k}"
    by (rule set_eqI) (simp add: domIff pool_map.get_del [OF assms(1)])
  have "k \<in> dom (pool_get pool)" using assms(2) by (rule domI)
  then show ?thesis
    using card.remove [OF finite_pool [OF assms(1)]] tx_count_card [OF assms(1)] tx_count_card [OF pool_map.ok_del [OF assms(1)], of k] d
    by simp
qed

text \<open>
  Making room ends. It removes only transactions of lower priority than the incoming
  one, and when it succeeds there is room for one more transaction and its bytes.
\<close>

definition room_made :: "Mempool \<Rightarrow> Mempool \<Rightarrow> u128 \<Rightarrow> bool" where
  "room_made pool pool' p \<longleftrightarrow> txs_wf pool' \<and> mp_account_nonce pool' = mp_account_nonce pool \<and> mp_min_fee pool' = mp_min_fee pool \<and>
    mp_max_txs pool' = mp_max_txs pool \<and> mp_max_bytes pool' = mp_max_bytes pool \<and>
    (\<forall>k t. pool_get pool' k = Some t \<longrightarrow> pool_get pool k = Some t) \<and>
    (\<forall>k t. pool_get pool k = Some t \<longrightarrow> pool_get pool' k = Some t \<or> (\<exists>q. fee_priority (st_tx t) = Ok q \<and> q < p))"

lemma room_made_remove:
  assumes "room_made (pool_remove pool k) pool' p" "txs_wf pool" "pool_get pool k = Some t" "fee_priority (st_tx t) = Ok q" "q < p"
  shows "room_made pool pool' p"
proof -
  have get: "pool_get (pool_remove pool k) j = (if j = k then None else pool_get pool j)" for j
    using assms(2) by (simp add: txs_wf_def pool_map.get_del)
  have "pool_get pool j = Some u" if "pool_get pool' j = Some u" for j u
  proof -
    have "pool_get (pool_remove pool k) j = Some u" using assms(1) that unfolding room_made_def by blast
    then show ?thesis by (simp add: get split: if_splits)
  qed
  moreover have "pool_get pool' j = Some u \<or> (\<exists>q. fee_priority (st_tx u) = Ok q \<and> q < p)" if "pool_get pool j = Some u" for j u
  proof (cases "j = k")
    case True
    then show ?thesis using that assms(3-5) by auto
  next
    case False
    then have "pool_get (pool_remove pool k) j = Some u" using that by (simp add: get)
    then show ?thesis using assms(1) unfolding room_made_def by blast
  qed
  ultimately show ?thesis using assms(1) unfolding room_made_def pool_remove_fields by blast
qed

lemma room_loop_total:
  assumes "txs_wf pool"
  shows "\<exists>r pool'. room_loop pool b p = Some (r, pool') \<and> room_made pool pool' p \<and>
    (r = Err VMempoolFull \<or> r = Ok () \<and> tx_count pool' < mp_max_txs pool \<and> min USIZE_MAX (pool_bytes pool' + b) \<le> mp_max_bytes pool)"
  using assms
proof (induction "tx_count pool" arbitrary: pool rule: less_induct)
  case less
  have wf: "pool_wf pool" using less.prems by (simp add: txs_wf_def)
  have same: "room_made pool pool p" using less.prems by (simp add: room_made_def)
  show ?case
  proof (cases "\<not> tx_count pool \<ge> mp_max_txs pool \<and> \<not> min USIZE_MAX (pool_bytes pool + b) > mp_max_bytes pool")
    case True
    then have "room_loop pool b p = Some (Ok (), pool)" by (subst room_loop.simps) (simp add: byte_size_sum [OF less.prems])
    then show ?thesis using True same by auto
  next
    case full: False
    show ?thesis
    proof (cases "lowest_priority pool")
      case None
      then have "room_loop pool b p = Some (Err VMempoolFull, pool)"
        using full by (subst room_loop.simps) (simp add: byte_size_sum [OF less.prems])
      then show ?thesis using same by auto
    next
      case (Some low)
      obtain a n q where low: "low = (a, n, q)" by (cases low)
      obtain t where t: "pool_get pool (a, n) = Some t" "fee_priority (st_tx t) = Ok q"
        using lowest_priority_min Some wf unfolding low by blast
      show ?thesis
      proof (cases "p \<le> q")
        case True
        then have "room_loop pool b p = Some (Err VMempoolFull, pool)"
          using full Some by (subst room_loop.simps) (simp add: byte_size_sum [OF less.prems] low)
        then show ?thesis using same by auto
      next
        case False
        let ?rest = "pool_remove pool (a, n)"
        have step: "room_loop pool b p = room_loop ?rest b p"
          using full Some False by (subst room_loop.simps) (auto simp: byte_size_sum [OF less.prems] low)
        have "tx_count ?rest < tx_count pool" using tx_count_remove [OF wf t(1)] by simp
        from less.hyps [OF this txs_wf_remove [OF less.prems]]
        obtain r pool' where "room_loop ?rest b p = Some (r, pool')" "room_made ?rest pool' p"
          "r = Err VMempoolFull \<or> r = Ok () \<and> tx_count pool' < mp_max_txs pool \<and> min USIZE_MAX (pool_bytes pool' + b) \<le> mp_max_bytes pool"
          by auto
        then show ?thesis using step room_made_remove [OF _ less.prems t] False by (auto simp: not_le)
      qed
    qed
  qed
qed

section \<open>What the queue holds\<close>

definition entry_ok :: "(bytes \<Rightarrow> Hash) \<Rightarrow> Ed25519 \<Rightarrow> u128 \<Rightarrow> Address \<times> Nonce \<Rightarrow> SignedTx \<Rightarrow> bool" where
  "entry_ok H E min_fee k t \<longleftrightarrow> tx_nonce (st_tx t) = snd k \<and> pool_sender_address H E t = Ok (fst k) \<and> is_ok (verify_ed25519 E t) \<and>
    is_ok (gas_meter (st_tx t)) \<and> min_fee \<le> tx_max_fee (st_tx t) \<and> tx_size t \<le> unat MAX_TX_BYTES"

definition pool_ok :: "(bytes \<Rightarrow> Hash) \<Rightarrow> Ed25519 \<Rightarrow> Mempool \<Rightarrow> bool" where
  "pool_ok H E pool \<longleftrightarrow> txs_wf pool \<and> tx_count pool \<le> mp_max_txs pool \<and>
    (\<forall>k t. pool_get pool k = Some t \<longrightarrow> entry_ok H E (mp_min_fee pool) k t \<and> next_nonce pool (fst k) \<le> snd k)"

lemma tx_count_mono:
  assumes "pool_wf pool" "pool_wf pool'" "\<And>k t. pool_get pool' k = Some t \<Longrightarrow> pool_get pool k \<noteq> None"
  shows "tx_count pool' \<le> tx_count pool"
proof -
  have "dom (pool_get pool') \<subseteq> dom (pool_get pool)" using assms(3) by (auto simp: dom_def)
  then show ?thesis using card_mono [OF finite_pool [OF assms(1)]] assms(1,2) by (simp add: tx_count_card)
qed

lemma tx_count_put:
  assumes "pool_wf pool"
  shows "tx_count (queue_put pool k t) = (if pool_get pool k = None then Suc (tx_count pool) else tx_count pool)"
proof -
  have d: "dom (pool_get (queue_put pool k t)) = insert k (dom (pool_get pool))"
    by (rule set_eqI) (simp add: domIff pool_map.get_put [OF assms])
  show ?thesis
    using tx_count_card [OF assms] tx_count_card [OF pool_map.ok_put [OF assms], of k t] d finite_pool [OF assms]
    by (simp add: card_insert_if domIff)
qed

lemma observe_account_fields [simp]:
  "mp_min_fee (observe_account pool a n) = mp_min_fee pool" "mp_max_txs (observe_account pool a n) = mp_max_txs pool"
  "mp_max_bytes (observe_account pool a n) = mp_max_bytes pool"
  "next_nonce (observe_account pool a n) b = (if b = a then n else next_nonce pool b)"
  by (simp_all add: observe_account_def next_nonce_def Let_def split: option.split)

lemma queue_put_fields [simp]:
  "mp_min_fee (queue_put pool k t) = mp_min_fee pool" "mp_max_txs (queue_put pool k t) = mp_max_txs pool"
  "mp_max_bytes (queue_put pool k t) = mp_max_bytes pool" "mp_account_nonce (queue_put pool k t) = mp_account_nonce pool"
  "next_nonce (queue_put pool k t) b = next_nonce pool b"
  by (simp_all add: queue_put_def next_nonce_def)

lemma observe_account_ok:
  assumes "pool_ok H E pool"
  shows "pool_ok H E (observe_account pool a n)"
proof -
  have wf: "pool_wf pool" using assms by (simp add: pool_ok_def txs_wf_def)
  note get = observe_account_get [OF wf, of a n]
  have "tx_count (observe_account pool a n) \<le> tx_count pool"
    by (rule tx_count_mono [OF wf get(1)]) (simp add: get(2) split: if_splits)
  moreover have "txs_wf (observe_account pool a n)"
    using assms get unfolding pool_ok_def txs_wf_def by (metis option.distinct(1))
  moreover have "entry_ok H E (mp_min_fee pool) k t \<and> next_nonce (observe_account pool a n) (fst k) \<le> snd k"
    if "pool_get (observe_account pool a n) k = Some t" for k t
  proof -
    have "pool_get pool k = Some t" "\<not> (fst k = a \<and> snd k < n)" using that by (simp_all add: get(2) split: if_splits)
    then have "entry_ok H E (mp_min_fee pool) k t" "next_nonce pool (fst k) \<le> snd k" using assms unfolding pool_ok_def by blast+
    then show ?thesis using \<open>\<not> (fst k = a \<and> snd k < n)\<close> by (auto simp: not_less)
  qed
  ultimately show ?thesis using assms by (simp add: pool_ok_def del: split_paired_All)
qed

lemma room_made_ok:
  assumes "room_made pool pool' p" "pool_ok H E pool"
  shows "pool_ok H E pool'"
proof -
  have wf: "pool_wf pool" "pool_wf pool'" "txs_wf pool'" using assms by (simp_all add: room_made_def pool_ok_def txs_wf_def del: split_paired_All)
  have sub: "pool_get pool k = Some t" if "pool_get pool' k = Some t" for k t using assms(1) that unfolding room_made_def by blast
  have f: "mp_min_fee pool' = mp_min_fee pool" "mp_max_txs pool' = mp_max_txs pool" "next_nonce pool' b = next_nonce pool b" for b
    using assms(1) by (simp_all add: room_made_def next_nonce_def)
  have "tx_count pool' \<le> tx_count pool" by (rule tx_count_mono [OF wf(1,2)]) (use sub in simp)
  then have "tx_count pool' \<le> mp_max_txs pool" using assms(2) by (simp add: pool_ok_def)
  then show ?thesis using assms(2) wf(3) sub unfolding pool_ok_def f by blast
qed

lemma queue_put_ok:
  assumes "pool_ok H E pool" "entry_ok H E (mp_min_fee pool) k t" "wf_tx (st_tx t)" "next_nonce pool (fst k) \<le> snd k"
    "pool_get pool k \<noteq> None \<or> tx_count pool < mp_max_txs pool"
  shows "pool_ok H E (queue_put pool k t)"
proof -
  have wf: "pool_wf pool" using assms(1) by (simp add: pool_ok_def txs_wf_def)
  note get = pool_map.get_put [OF wf TrueI, of k t]
  have "txs_wf (queue_put pool k t)"
    using assms(1,3) pool_map.ok_put [OF wf] unfolding pool_ok_def txs_wf_def get by (metis option.inject)
  moreover have "tx_count (queue_put pool k t) \<le> mp_max_txs pool"
    using assms(1,5) by (auto simp: tx_count_put [OF wf] pool_ok_def simp del: split_paired_All)
  ultimately show ?thesis
    using assms(1,2,4) unfolding pool_ok_def get queue_put_fields by (metis option.inject)
qed

lemma pool_verify_Ok:
  assumes "pool_verify E signd account = Some (Ok ())"
  shows "is_ok (verify_ed25519 E signd)" "is_ok (gas_meter (st_tx signd))" "ac_nonce account \<le> tx_nonce (st_tx signd)"
  using assms by (auto simp: pool_verify_def bind_eq_Some_conv result_simps is_ok_iff account_for_nonce_check_def map_err.simps
      split: result.splits if_splits)

text \<open>What one insertion may do to the queue.\<close>

definition inserted :: "Mempool \<Rightarrow> Mempool \<Rightarrow> Address \<times> Nonce \<Rightarrow> SignedTx \<Rightarrow> Account \<Rightarrow> bool" where
  "inserted pool pool' k signd account \<longleftrightarrow>
    (\<forall>j t. pool_get pool' j = Some t \<longrightarrow> pool_get pool j = Some t \<or> j = k \<and> t = signd) \<and>
    (\<forall>j t. pool_get pool j = Some t \<longrightarrow> pool_get pool' j = Some t \<or> j = k \<or> fst j = fst k \<and> snd j < ac_nonce account \<or>
      (\<exists>q p. fee_priority (st_tx t) = Ok q \<and> fee_priority (st_tx signd) = Ok p \<and> q < p))"

lemma inserted_observed:
  assumes "pool_wf pool" "inserted (observe_account pool a (ac_nonce account)) p (a, n) signd account"
  shows "inserted pool p (a, n) signd account"
proof -
  note get = observe_account_get(2) [OF assms(1), of a "ac_nonce account"]
  have "pool_get pool j = Some t \<or> j = (a, n) \<and> t = signd" if "pool_get p j = Some t" for j t
    using assms(2) that unfolding inserted_def get by (metis option.distinct(1))
  moreover have "pool_get p j = Some t \<or> j = (a, n) \<or> fst j = fst (a, n) \<and> snd j < ac_nonce account \<or>
      (\<exists>q p. fee_priority (st_tx t) = Ok q \<and> fee_priority (st_tx signd) = Ok p \<and> q < p)" if "pool_get pool j = Some t" for j t
    using assms(2) that unfolding inserted_def get by (metis fst_conv)
  ultimately show ?thesis unfolding inserted_def by blast
qed

lemma pool_verify_total:
  "wf_tx (st_tx signd) \<Longrightarrow> \<exists>v. pool_verify E signd account = Some v"
  by (simp add: pool_verify_def tx_encode_wf split: result.split)

lemma admit_total:
  assumes "pool_ok H E pool" "wf_tx (st_tx signd)" "entry_ok H E (mp_min_fee pool) k signd" "ac_nonce account \<le> snd k"
    "next_nonce pool (fst k) = ac_nonce account" "pool_get pool k = None"
  shows "\<exists>r pool1. ensure_room pool signd = Some (r, pool1) \<and> inserted pool pool1 k signd account \<and> pool_ok H E pool1 \<and>
    (is_ok r \<longrightarrow> pool_ok H E (queue_put pool1 k signd) \<and> inserted pool (queue_put pool1 k signd) k signd account)"
proof -
  have tw: "txs_wf pool" using assms(1) by (simp add: pool_ok_def)
  obtain p where p: "fee_priority (st_tx signd) = Ok p"
    using assms(3) by (auto simp: entry_ok_def is_ok_iff fee_priority_def Let_def)
  have "\<exists>r pool1. ensure_room pool signd = Some (r, pool1) \<and> room_made pool pool1 p \<and> (is_ok r \<longrightarrow> tx_count pool1 < mp_max_txs pool)"
    using room_loop_total [OF tw, of "length (tx_bytes (st_tx signd))" p] assms(2) p by (auto simp: ensure_room_def tx_encode_wf)
  then obtain r pool1 where r: "ensure_room pool signd = Some (r, pool1)" "room_made pool pool1 p" "is_ok r \<longrightarrow> tx_count pool1 < mp_max_txs pool"
    by blast
  have ok1: "pool_ok H E pool1" by (rule room_made_ok [OF r(2) assms(1)])
  have f: "mp_min_fee pool1 = mp_min_fee pool" "mp_max_txs pool1 = mp_max_txs pool" "next_nonce pool1 (fst k) = ac_nonce account"
    using r(2) assms(5) by (simp_all add: room_made_def next_nonce_def)
  have ins: "inserted pool pool1 k signd account" using r(2) p unfolding room_made_def inserted_def by blast
  have wf1: "pool_wf pool1" using ok1 by (simp add: pool_ok_def txs_wf_def)
  have "inserted pool (queue_put pool1 k signd) k signd account"
    using ins unfolding inserted_def pool_map.get_put [OF wf1 TrueI] by (metis option.inject)
  moreover have "pool_ok H E (queue_put pool1 k signd)" if "is_ok r"
    by (rule queue_put_ok [OF ok1]) (use assms(2-4) f r(3) that in simp_all)
  ultimately show ?thesis using r(1) ok1 ins by blast
qed

lemma pool_insert_checked:
  assumes "pool_ok H E pool" "wf_tx (st_tx signd)" "length (tx_bytes (st_tx signd)) \<le> unat MAX_TX_BYTES"
    "mp_min_fee pool \<le> tx_max_fee (st_tx signd)" "pool_verify E signd account = Some (Ok ())" "pool_sender_address H E signd = Ok addr"
  shows "\<exists>r pool'. pool_insert H E pool signd account = Some (r, pool') \<and> pool_ok H E pool' \<and>
    inserted pool pool' (addr, tx_nonce (st_tx signd)) signd account \<and>
    (is_ok r \<longrightarrow> pool_get pool' (addr, tx_nonce (st_tx signd)) = Some signd)"
proof -
  let ?n = "tx_nonce (st_tx signd)"
  let ?k = "(addr, ?n)" and ?seen = "observe_account pool addr (ac_nonce account)"
  have ver: "is_ok (verify_ed25519 E signd)" "is_ok (gas_meter (st_tx signd))" "ac_nonce account \<le> ?n"
    using pool_verify_Ok [OF assms(5)] .
  have entry: "entry_ok H E (mp_min_fee ?seen) ?k signd" using assms(3,4,6) ver by (simp add: entry_ok_def tx_size_def)
  have ok: "pool_ok H E ?seen" by (rule observe_account_ok [OF assms(1)])
  have wf: "pool_wf pool" "pool_wf ?seen" using assms(1) ok by (simp_all add: pool_ok_def txs_wf_def)
  note seen = inserted_observed [OF wf(1), of addr account _ ?n signd]
  have run: "pool_insert H E pool signd account =
    (case pool_get ?seen ?k of
       Some old \<Rightarrow> (case rbf_allowed old signd of Err e \<Rightarrow> Some (Err e, ?seen) | Ok _ \<Rightarrow> Some (Ok (), queue_put ?seen ?k signd))
     | None \<Rightarrow> do { (res, pool) \<leftarrow> ensure_room ?seen signd;
                   (case res of Err e \<Rightarrow> Some (Err e, pool) | Ok _ \<Rightarrow> Some (Ok (), queue_put pool ?k signd)) })"
    using assms(2-6) by (simp add: pool_insert_def check_tx_bytes_def check_min_fee_def tx_encode_wf Let_def leD)
  show ?thesis
  proof (cases "pool_get ?seen ?k")
    case (Some old)
    have "pool_ok H E (queue_put ?seen ?k signd)"
      by (rule queue_put_ok [OF ok entry assms(2)]) (use ver(3) Some in simp_all)
    moreover have "inserted ?seen ?seen ?k signd account" "inserted ?seen (queue_put ?seen ?k signd) ?k signd account"
      unfolding inserted_def pool_map.get_put [OF wf(2) TrueI] by auto
    ultimately show ?thesis
      using run Some ok seen pool_map.get_put_same [OF wf(2) TrueI, of ?k signd] by (cases "rbf_allowed old signd") auto
  next
    case None
    obtain r pool1 where r: "ensure_room ?seen signd = Some (r, pool1)" "inserted ?seen pool1 ?k signd account" "pool_ok H E pool1"
      "is_ok r \<longrightarrow> pool_ok H E (queue_put pool1 ?k signd) \<and> inserted ?seen (queue_put pool1 ?k signd) ?k signd account"
      using admit_total [OF ok assms(2) entry _ _ None, of account] ver(3) by auto
    have "pool_wf pool1" using r(3) by (simp add: pool_ok_def txs_wf_def)
    then show ?thesis
      using run None r seen pool_map.get_put_same [OF _ TrueI, of pool1 ?k signd] by (cases r) auto
  qed
qed

text \<open>
  C11. What the mempool holds. Inserting a well-formed transaction returns, and
  keeps the queue sound: every queued transaction is signed by the account it is
  filed under, filed under its own nonce, not below the nonce last seen of the
  account, of admissible size, gas and fee, and there are never more than the
  limit. An accepted transaction is found under its sender and nonce; a queued
  one leaves only if the same slot is taken over, its nonce has passed, or its
  priority is lower than that of the new one.
\<close>

theorem mempool_insert_sound:
  assumes "pool_ok H E pool" "wf_tx (st_tx signd)"
  shows "\<exists>r pool'. pool_insert H E pool signd account = Some (r, pool') \<and> pool_ok H E pool' \<and>
    (pool' = pool \<and> \<not> is_ok r \<or>
     (\<exists>addr. pool_sender_address H E signd = Ok addr \<and> inserted pool pool' (addr, tx_nonce (st_tx signd)) signd account \<and>
       (is_ok r \<longrightarrow> pool_get pool' (addr, tx_nonce (st_tx signd)) = Some signd)))"
proof -
  obtain v where v: "pool_verify E signd account = Some v" using pool_verify_total [OF assms(2)] by blast
  show ?thesis
  proof (cases "length (tx_bytes (st_tx signd)) \<le> unat MAX_TX_BYTES \<and> mp_min_fee pool \<le> tx_max_fee (st_tx signd) \<and> v = Ok () \<and>
      is_ok (pool_sender_address H E signd)")
    case False
    have "\<exists>e. pool_insert H E pool signd account = Some (Err e, pool)"
      using False v assms(2)
      by (cases v; cases "pool_sender_address H E signd")
        (auto simp: pool_insert_def check_tx_bytes_def check_min_fee_def tx_encode_wf not_le)
    then show ?thesis using assms(1) by auto
  next
    case True
    then obtain addr where addr: "pool_sender_address H E signd = Ok addr" by (auto simp: is_ok_iff)
    then show ?thesis using pool_insert_checked [OF assms, of account addr] True v by auto
  qed
qed

definition example_holder :: Account where
  "example_holder = account_empty\<lparr>ac_balance := 1000\<rparr>"

theorem mempool_insert_sound_witness:
  "\<exists>pool'. pool_insert last32 toy_ed (with_limits 1 10 1000) example_payment example_holder = Some (Ok (), pool') \<and>
     pool_get pool' (replicate 32 1, 0) = Some example_payment \<and> pool_ok last32 toy_ed pool'"
proof -
  let ?pool = "with_limits 1 10 1000" and ?a = "replicate 32 1 :: bytes"
  have ok: "pool_ok last32 toy_ed ?pool"
    by (simp add: pool_ok_def txs_wf_def pool_wf_def with_limits_def pool_get_def tx_count_def)
  have wf: "wf_tx (st_tx example_payment)" by (simp add: example_payment_def wf_tx_def)
  have tx: "map_option length (tx_encode (st_tx example_payment)) = Some 94" "tx_max_fee (st_tx example_payment) = 7"
    "pool_verify toy_ed example_payment example_holder = Some (Ok ())" "is_ok (fee_priority (st_tx example_payment))"
    "pool_sender_address last32 toy_ed example_payment = Ok ?a" "tx_nonce (st_tx example_payment) = 0" by code_simp+
  obtain enc p where e: "tx_encode (st_tx example_payment) = Some enc" "length enc = 94" "fee_priority (st_tx example_payment) = Ok p"
    using tx(1,4) by (auto simp: is_ok_iff)
  have "room_loop (observe_account ?pool ?a 0) 94 p = Some (Ok (), observe_account ?pool ?a 0)"
    by (subst room_loop.simps) (simp add: byte_size_def pool_entries_def tx_count_def observe_account_def with_limits_def USIZE_MAX_def)
  then have "ensure_room (observe_account ?pool ?a 0) example_payment = Some (Ok (), observe_account ?pool ?a 0)"
    using e by (simp add: ensure_room_def)
  moreover have "ac_nonce example_holder = 0" by (simp add: example_holder_def account_empty_def)
  ultimately have "map_option fst (pool_insert last32 toy_ed ?pool example_payment example_holder) = Some (Ok ())"
    using e tx by (simp add: pool_insert_def check_tx_bytes_def check_min_fee_def MAX_TX_BYTES_def pool_get_def with_limits_def
        observe_account_def)
  then show ?thesis using mempool_insert_sound [OF ok wf, of example_holder] tx(5,6) by auto
qed

section \<open>Eviction without admission\<close>

lemma pool_bytes_remove:
  assumes "pool_wf pool"
  shows "pool_bytes (pool_remove pool k) \<le> pool_bytes pool"
proof -
  have "dom (pool_get (pool_remove pool k)) = dom (pool_get pool) - {k}"
    by (rule set_eqI) (simp add: domIff pool_map.get_del [OF assms])
  then have "pool_bytes (pool_remove pool k) = (\<Sum>j\<in>dom (pool_get pool) - {k}. tx_size (the (pool_get pool j)))"
    unfolding pool_bytes_def by (intro sum.cong) (simp_all add: pool_map.get_del [OF assms])
  also have "\<dots> \<le> pool_bytes pool" unfolding pool_bytes_def using finite_pool [OF assms] by (intro sum_mono2) auto
  finally show ?thesis .
qed

lemma room_loop_refuses:
  assumes "txs_wf pool" "lowest_priority pool = Some (a, n, q)" "p \<le> q"
    and "mp_max_bytes pool < min USIZE_MAX (pool_bytes pool + b)"
  shows "room_loop pool b p = Some (Err VMempoolFull, pool)"
  using assms by (subst room_loop.simps) (simp add: byte_size_sum)

text \<open>
  Making room may evict for nothing. In a sound queue, if the cheapest
  transaction has a lower priority than the incoming one, the next one has not,
  and without the cheapest there is still no room for the bytes of the incoming
  one, then the cheapest transaction is dropped and the incoming one is refused.
\<close>

theorem eviction_without_admission:
  assumes "pool_ok H E pool" "wf_tx (st_tx incoming)" "fee_priority (st_tx incoming) = Ok p"
    and "lowest_priority pool = Some (a, n, q)" "q < p"
    and "lowest_priority (pool_remove pool (a, n)) = Some (a', n', q')" "p \<le> q'"
    and "mp_max_bytes pool < pool_bytes (pool_remove pool (a, n)) + tx_size incoming" "mp_max_bytes pool < USIZE_MAX"
  shows "ensure_room pool incoming = Some (Err VMempoolFull, pool_remove pool (a, n)) \<and>
    pool_get pool (a, n) \<noteq> None \<and> pool_get (pool_remove pool (a, n)) (a, n) = None"
proof -
  let ?rest = "pool_remove pool (a, n)" and ?b = "tx_size incoming"
  have wf: "txs_wf pool" "pool_wf pool" using assms(1) by (simp_all add: pool_ok_def txs_wf_def)
  have full: "mp_max_bytes pool < min USIZE_MAX (pool_bytes ?rest + ?b)" "mp_max_bytes pool < min USIZE_MAX (pool_bytes pool + ?b)"
    using assms(8,9) pool_bytes_remove [OF wf(2), of "(a, n)"] by simp_all
  have "\<not> p \<le> q" using assms(5) by simp
  have "room_loop ?rest ?b p = Some (Err VMempoolFull, ?rest)"
    using room_loop_refuses [OF txs_wf_remove [OF wf(1)] assms(6,7)] full(1) by simp
  moreover have "room_loop pool ?b p = room_loop ?rest ?b p"
    using full(2) assms(4) \<open>\<not> p \<le> q\<close> by (subst room_loop.simps) (simp add: byte_size_sum [OF wf(1)])
  ultimately have "ensure_room pool incoming = Some (Err VMempoolFull, ?rest)"
    using assms(2,3) by (simp add: ensure_room_def tx_encode_wf tx_size_def)
  moreover have "pool_get pool (a, n) \<noteq> None" using lowest_priority_min [OF assms(4) wf(2)] by auto
  ultimately show ?thesis by (simp add: pool_map.get_del [OF wf(2)])
qed

definition example_transfer :: "u8 \<Rightarrow> u128 \<Rightarrow> SignedTx" where
  "example_transfer key fee =
    \<lparr>st_tx = tx_transfer 1 0 30000 fee (replicate 32 2) 1, st_signature = replicate 32 key, st_public_key = replicate 32 key\<rparr>"

definition example_call :: SignedTx where
  "example_call =
    \<lparr>st_tx = tx_call 1 0 30000 30 (replicate 32 2) (replicate 50 0), st_signature = replicate 32 3, st_public_key = replicate 32 3\<rparr>"

text \<open>Two transfers of different senders that fill the queue.\<close>

definition example_full_pool :: Mempool where
  "example_full_pool =
    queue_put (queue_put (with_limits 1 10 188) (replicate 32 1, 0) (example_transfer 1 3)) (replicate 32 2, 0) (example_transfer 2 100)"

lemma example_entries:
  "entry_ok last32 toy_ed 1 (replicate 32 1, 0) (example_transfer 1 3)"
  "entry_ok last32 toy_ed 1 (replicate 32 2, 0) (example_transfer 2 100)"
  "wf_tx (st_tx (example_transfer key fee))" "wf_tx (st_tx example_call)"
  "tx_size (example_transfer 1 3) = 94" "tx_size (example_transfer 2 100) = 94" "tx_size example_call = 132"
proof -
  show size: "tx_size (example_transfer 1 3) = 94" "tx_size (example_transfer 2 100) = 94" "tx_size example_call = 132" by code_simp+
  have 1: "pool_sender_address last32 toy_ed (example_transfer 1 3) = Ok (replicate 32 1)" "is_ok (verify_ed25519 toy_ed (example_transfer 1 3))"
    "is_ok (gas_meter (st_tx (example_transfer 1 3)))" by code_simp+
  have 2: "pool_sender_address last32 toy_ed (example_transfer 2 100) = Ok (replicate 32 2)" "is_ok (verify_ed25519 toy_ed (example_transfer 2 100))"
    "is_ok (gas_meter (st_tx (example_transfer 2 100)))" by code_simp+
  have tx: "tx_nonce (st_tx (example_transfer k f)) = 0" "tx_max_fee (st_tx (example_transfer k f)) = f" for k f
    by (simp_all add: example_transfer_def tx_transfer_def)
  show "entry_ok last32 toy_ed 1 (replicate 32 1, 0) (example_transfer 1 3)"
    "entry_ok last32 toy_ed 1 (replicate 32 2, 0) (example_transfer 2 100)"
    using 1 2 size by (simp_all add: entry_ok_def tx MAX_TX_BYTES_def)
  show "wf_tx (st_tx (example_transfer key fee))" "wf_tx (st_tx example_call)"
    by (simp_all add: example_transfer_def example_call_def tx_transfer_def tx_call_def wf_tx_def)
qed

lemma example_full_pool_ok: "pool_ok last32 toy_ed example_full_pool"
proof -
  let ?empty = "with_limits 1 10 188"
  have ok: "pool_ok last32 toy_ed ?empty" and f: "mp_min_fee ?empty = 1" "mp_max_txs ?empty = 10" "tx_count ?empty = 0" "pool_wf ?empty"
    by (simp_all add: pool_ok_def txs_wf_def pool_wf_def with_limits_def pool_get_def tx_count_def)
  have nn: "next_nonce ?empty x = 0" for x by (simp add: next_nonce_def with_limits_def)
  have one: "pool_ok last32 toy_ed (queue_put ?empty (replicate 32 1, 0) (example_transfer 1 3))"
    by (rule queue_put_ok [OF ok]) (use example_entries f nn in simp_all)
  show ?thesis unfolding example_full_pool_def
    by (rule queue_put_ok [OF one]) (use example_entries f nn in \<open>simp_all add: tx_count_put\<close>)
qed

theorem eviction_without_admission_witness:
  "\<exists>pool'. ensure_room example_full_pool example_call = Some (Err VMempoolFull, pool') \<and>
     tx_count example_full_pool = 2 \<and> tx_count pool' = 1"
proof -
  let ?rest = "pool_remove example_full_pool (replicate 32 1, 0)"
  have p: "fee_priority (st_tx example_call) = Ok 26352491533870788" by code_simp
  have low: "lowest_priority example_full_pool = Some (replicate 32 1, 0, 2635249153387078)"
    "lowest_priority ?rest = Some (replicate 32 2, 0, 87841638446235960)" by code_simp+
  have count: "tx_count example_full_pool = 2" "tx_count ?rest = 1" "byte_size ?rest = Some 94" "mp_max_bytes example_full_pool = 188" by code_simp+
  have "txs_wf ?rest" using example_full_pool_ok by (intro txs_wf_remove) (simp add: pool_ok_def)
  then have bytes: "pool_bytes ?rest = 94" using byte_size_sum [of ?rest] count(3) by simp
  have less: "(2635249153387078 :: u128) < 26352491533870788" "(26352491533870788 :: u128) \<le> 87841638446235960" by simp_all
  have "mp_max_bytes example_full_pool < pool_bytes ?rest + tx_size example_call" "mp_max_bytes example_full_pool < USIZE_MAX"
    using bytes count(4) example_entries(7) by (simp_all add: USIZE_MAX_def)
  then show ?thesis
    using eviction_without_admission [OF example_full_pool_ok example_entries(4) p low(1) less(1) low(2) less(2)] count by simp
qed

section \<open>Choosing transactions for a block\<close>

definition nonce_in :: "(Address, Nonce) btree \<Rightarrow> Address \<Rightarrow> Nonce" where
  "nonce_in local a = unwrap_or 0 (bt_get local a)"

definition ready_tx :: "Mempool \<Rightarrow> (Address, Nonce) btree \<Rightarrow> (Address \<times> Nonce) set \<Rightarrow> Address \<Rightarrow> SignedTx \<Rightarrow> u128 \<Rightarrow> bool" where
  "ready_tx pool local skip a t p \<longleftrightarrow>
    pool_get pool (a, nonce_in local a) = Some t \<and> (a, nonce_in local a) \<notin> skip \<and> fee_priority (st_tx t) = Ok p"

text \<open>The candidate an account offers.\<close>

definition best_cand ::
  "(Address, Nonce) btree \<Rightarrow> (Address \<times> Nonce) set \<Rightarrow> Address \<times> (Nonce, SignedTx) btree \<Rightarrow> (u128 \<times> Address \<times> SignedTx) option" where
  "best_cand local skip e =
    (let n = nonce_in local (fst e)
     in case bt_get (snd e) n of
          None \<Rightarrow> None
        | Some tx \<Rightarrow>
            if (fst e, n) \<in> skip then None
            else (case fee_priority (st_tx tx) of Err _ \<Rightarrow> None | Ok p \<Rightarrow> Some (p, fst e, tx)))"

lemma best_step_cand:
  "best_step local skip best e =
    (case best_cand local skip e of
       None \<Rightarrow> best
     | Some c \<Rightarrow> if best = None \<or> fst c > fst (the best) \<or> fst c = fst (the best) \<and> fst (snd c) < fst (snd (the best)) then Some c else best)"
  by (cases e) (auto simp: best_step_def best_cand_def nonce_in_def Let_def split: option.split result.split)

lemma best_fold:
  assumes "foldl (best_step local skip) None q = best"
  shows "(best = None \<longrightarrow> (\<forall>e\<in>set q. best_cand local skip e = None)) \<and>
    (\<forall>c. best = Some c \<longrightarrow> (\<exists>e\<in>set q. best_cand local skip e = Some c) \<and>
      (\<forall>e\<in>set q. \<forall>d. best_cand local skip e = Some d \<longrightarrow> fst d \<le> fst c))"
  using assms
proof (induction q arbitrary: best rule: rev_induct)
  case (snoc e q)
  define best0 where "best0 = foldl (best_step local skip) None q"
  have best: "best = best_step local skip best0 e" using snoc.prems by (simp add: best0_def)
  note IH = snoc.IH [OF best0_def [symmetric]]
  show ?case
  proof (cases "best_cand local skip e")
    case None
    then have "best = best0" by (simp add: best best_step_cand)
    then show ?thesis using IH None by auto
  next
    case (Some c)
    show ?thesis
    proof (cases best0)
      case None
      then have "best = Some c" using Some by (simp add: best best_step_cand)
      then show ?thesis using IH None Some by auto
    next
      case best0: (Some b)
      have old: "fst d \<le> fst b" if "e' \<in> set q" "best_cand local skip e' = Some d" for e' d using IH best0 that by blast
      have "best = Some c \<and> fst b \<le> fst c \<or> best = Some b \<and> fst c \<le> fst b" using Some best0 by (auto simp: best best_step_cand)
      then show ?thesis
      proof
        assume "best = Some c \<and> fst b \<le> fst c"
        moreover from this have "fst d \<le> fst c" if "e' \<in> set q" "best_cand local skip e' = Some d" for e' d
          using old [OF that] by (blast intro: order_trans)
        ultimately show ?thesis using Some by auto
      next
        assume "best = Some b \<and> fst c \<le> fst b"
        then show ?thesis using IH Some best0 old by auto
      qed
    qed
  qed
qed simp

lemma ready_cand:
  assumes "pool_wf pool"
  shows "ready_tx pool local skip a t p \<longleftrightarrow> (\<exists>e\<in>set (mp_queued pool). best_cand local skip e = Some (p, a, t))"
proof -
  have "(a, m) \<in> set (mp_queued pool) \<longleftrightarrow> bt_get (mp_queued pool) a = Some m" for m
    using assms by (auto simp: pool_wf_def bt_wf_distinct)
  moreover have "best_cand local skip e = Some (p, a, t) \<longleftrightarrow> fst e = a \<and> bt_get (snd e) (nonce_in local a) = Some t \<and>
      (a, nonce_in local a) \<notin> skip \<and> fee_priority (st_tx t) = Ok p" for e
    by (auto simp: best_cand_def Let_def split: option.splits result.splits)
  ultimately show ?thesis by (auto simp: ready_tx_def pool_get_def Bex_def split: option.splits)
qed

lemma peek_best_ready_None: "pool_wf pool \<Longrightarrow> peek_best_ready pool local skip = None \<Longrightarrow> \<not> ready_tx pool local skip a t p"
  using best_fold [of local skip "mp_queued pool", OF refl] by (auto simp: peek_best_ready_def ready_cand)

lemma peek_best_ready_Some:
  assumes "pool_wf pool" "peek_best_ready pool local skip = Some (a, t)"
  obtains p where "ready_tx pool local skip a t p" "\<And>b u r. ready_tx pool local skip b u r \<Longrightarrow> r \<le> p"
proof -
  obtain p where "foldl (best_step local skip) None (mp_queued pool) = Some (p, a, t)"
    using assms(2) by (auto simp: peek_best_ready_def)
  from best_fold [OF this] show thesis using that [of p] by (auto simp: ready_cand [OF assms(1)])
qed

definition tx_sender :: "(bytes \<Rightarrow> Hash) \<Rightarrow> Ed25519 \<Rightarrow> SignedTx \<Rightarrow> Address" where
  "tx_sender H E t = (case pool_sender_address H E t of Ok a \<Rightarrow> a | Err _ \<Rightarrow> [])"

definition tx_key :: "(bytes \<Rightarrow> Hash) \<Rightarrow> Ed25519 \<Rightarrow> SignedTx \<Rightarrow> Address \<times> Nonce" where
  "tx_key H E t = (tx_sender H E t, tx_nonce (st_tx t))"

definition taken_of :: "(bytes \<Rightarrow> Hash) \<Rightarrow> Ed25519 \<Rightarrow> Address \<Rightarrow> SignedTx list \<Rightarrow> SignedTx list" where
  "taken_of H E a out = filter (\<lambda>t. tx_sender H E t = a) out"

definition keyed_pool :: "(bytes \<Rightarrow> Hash) \<Rightarrow> Ed25519 \<Rightarrow> Mempool \<Rightarrow> bool" where
  "keyed_pool H E pool \<longleftrightarrow> pool_wf pool \<and> (\<forall>k t. pool_get pool k = Some t \<longrightarrow> wf_tx (st_tx t) \<and> tx_key H E t = k)"

definition fits :: "nat \<Rightarrow> nat \<Rightarrow> nat \<Rightarrow> nat \<Rightarrow> SignedTx \<Rightarrow> bool" where
  "fits mg mb g b t \<longleftrightarrow> g + tx_gas t \<le> mg \<and> b + tx_size t \<le> mb"

text \<open>
  A choice \<open>out\<close> from \<open>pool\<close> that leaves \<open>pool'\<close>, started at the nonces \<open>local\<close> with the
  slots \<open>skip\<close> passed over and \<open>g\<close> gas and \<open>b\<close> bytes used: its transactions are those
  taken from the queue, within the limits, each account's with the nonces counted
  up from its own; what is then at the next nonce of an account does not fit; and
  no ready transaction that fits has a higher priority than the first one chosen.
\<close>

definition chosen ::
  "(bytes \<Rightarrow> Hash) \<Rightarrow> Ed25519 \<Rightarrow> nat \<Rightarrow> nat \<Rightarrow> Mempool \<Rightarrow> (Address, Nonce) btree \<Rightarrow> (Address \<times> Nonce) set \<Rightarrow> nat \<Rightarrow> nat
    \<Rightarrow> SignedTx list \<Rightarrow> Mempool \<Rightarrow> bool" where
  "chosen H E mg mb pool local skip g b out pool' \<longleftrightarrow>
    (\<forall>t\<in>set out. pool_get pool (tx_key H E t) = Some t) \<and> distinct (map (tx_key H E) out) \<and>
    (\<forall>k. pool_get pool' k = (if k \<in> tx_key H E ` set out then None else pool_get pool k)) \<and>
    g + sum_list (map tx_gas out) \<le> mg \<and> b + sum_list (map tx_size out) \<le> mb \<and>
    (\<forall>a. map (tx_nonce \<circ> st_tx) (taken_of H E a out) =
      map (\<lambda>i. (bump_nonce ^^ i) (nonce_in local a)) [0..<length (taken_of H E a out)]) \<and>
    (\<forall>a t p. pool_get pool' (a, (bump_nonce ^^ length (taken_of H E a out)) (nonce_in local a)) = Some t \<longrightarrow>
      (a, (bump_nonce ^^ length (taken_of H E a out)) (nonce_in local a)) \<notin> skip \<longrightarrow> fee_priority (st_tx t) = Ok p \<longrightarrow>
      \<not> fits mg mb (g + sum_list (map tx_gas out)) (b + sum_list (map tx_size out)) t) \<and>
    (\<forall>a t p. ready_tx pool local skip a t p \<longrightarrow> fits mg mb g b t \<longrightarrow> out \<noteq> [] \<and> (\<exists>q. fee_priority (st_tx (hd out)) = Ok q \<and> p \<le> q))"

lemma fits_mono: "fits mg mb g b t \<Longrightarrow> g' \<le> g \<Longrightarrow> b' \<le> b \<Longrightarrow> fits mg mb g' b' t"
  by (simp add: fits_def)

lemma chosen_none:
  assumes "\<And>a t p. \<not> ready_tx pool local skip a t p" "g \<le> mg" "b \<le> mb"
  shows "chosen H E mg mb pool local skip g b [] pool"
  using assms by (auto simp: chosen_def taken_of_def ready_tx_def)

lemma chosen_skip:
  assumes "chosen H E mg mb pool local (insert (a, nonce_in local a) skip) g b out pool'"
    "pool_get pool (a, nonce_in local a) = Some t" "\<not> fits mg mb g b t"
  shows "chosen H E mg mb pool local skip g b out pool'"
proof -
  let ?n = "\<lambda>c. (bump_nonce ^^ length (taken_of H E c out)) (nonce_in local c)"
  let ?g = "g + sum_list (map tx_gas out)" and ?b = "b + sum_list (map tx_size out)"
  have sub: "pool_get pool k = Some u" if "pool_get pool' k = Some u" for k u
    using assms(1) that unfolding chosen_def by (metis option.distinct(1))
  have late: "\<not> fits mg mb ?g ?b t" using assms(3) fits_mono [of mg mb ?g ?b t g b] by auto
  have "\<not> fits mg mb ?g ?b u" if "pool_get pool' (c, ?n c) = Some u" "(c, ?n c) \<notin> skip" "fee_priority (st_tx u) = Ok p" for c u p
  proof (cases "(c, ?n c) = (a, nonce_in local a)")
    case True
    then have "Some u = Some t" using sub [OF that(1)] assms(2) by metis
    then have "u = t" by simp
    then show ?thesis using late by simp
  next
    case False
    then show ?thesis using assms(1) that unfolding chosen_def by blast
  qed
  moreover have "out \<noteq> [] \<and> (\<exists>q. fee_priority (st_tx (hd out)) = Ok q \<and> p \<le> q)"
    if "ready_tx pool local skip c u p" "fits mg mb g b u" for c u p
  proof -
    have "(c, nonce_in local c) \<noteq> (a, nonce_in local a)" using that assms(2,3) by (auto simp: ready_tx_def)
    then have "ready_tx pool local (insert (a, nonce_in local a) skip) c u p" using that(1) by (auto simp: ready_tx_def)
    then show ?thesis using assms(1) that(2) unfolding chosen_def by blast
  qed
  ultimately show ?thesis using assms(1) unfolding chosen_def by blast
qed

lemma funpow_bump_Suc: "(bump_nonce ^^ Suc i) n = (bump_nonce ^^ i) (bump_nonce n)"
  by (simp add: funpow_swap1)

lemma nonce_in_insert [simp]: "nonce_in (bt_insert a n local) c = (if c = a then n else nonce_in local c)"
  by (simp add: nonce_in_def)

lemma taken_of_Cons: "taken_of H E c (t # out) = (if tx_sender H E t = c then t # taken_of H E c out else taken_of H E c out)"
  by (simp add: taken_of_def)

lemma chosen_take:
  assumes "chosen H E mg mb (pool_remove pool (a, n)) (bt_insert a (bump_nonce n) local) skip (g + tx_gas t) (b + tx_size t) out pool'"
    "keyed_pool H E pool" "n = nonce_in local a" "ready_tx pool local skip a t p" "\<And>c u q. ready_tx pool local skip c u q \<Longrightarrow> q \<le> p"
  shows "chosen H E mg mb pool local skip g b (t # out) pool'"
proof -
  let ?local = "bt_insert a (bump_nonce n) local"
  have wf: "pool_wf pool" using assms(2) by (simp add: keyed_pool_def)
  have get: "pool_get (pool_remove pool (a, n)) k = (if k = (a, n) then None else pool_get pool k)" for k by (rule pool_map.get_del [OF wf])
  have t: "pool_get pool (a, n) = Some t" "fee_priority (st_tx t) = Ok p" using assms(3,4) by (simp_all add: ready_tx_def)
  have key: "tx_key H E t = (a, n)" using t(1) assms(2) unfolding keyed_pool_def by blast
  have a: "tx_sender H E t = a" "tx_nonce (st_tx t) = n" using key by (simp_all add: tx_key_def)
  have c: "\<And>u. u \<in> set out \<Longrightarrow> pool_get (pool_remove pool (a, n)) (tx_key H E u) = Some u" "distinct (map (tx_key H E) out)"
    "\<And>k. pool_get pool' k = (if k \<in> tx_key H E ` set out then None else pool_get (pool_remove pool (a, n)) k)"
    "g + tx_gas t + sum_list (map tx_gas out) \<le> mg" "b + tx_size t + sum_list (map tx_size out) \<le> mb"
    "\<And>c. map (tx_nonce \<circ> st_tx) (taken_of H E c out) =
      map (\<lambda>i. (bump_nonce ^^ i) (nonce_in ?local c)) [0..<length (taken_of H E c out)]"
    "\<And>c u p. pool_get pool' (c, (bump_nonce ^^ length (taken_of H E c out)) (nonce_in ?local c)) = Some u \<Longrightarrow>
      (c, (bump_nonce ^^ length (taken_of H E c out)) (nonce_in ?local c)) \<notin> skip \<Longrightarrow> fee_priority (st_tx u) = Ok p \<Longrightarrow>
      \<not> fits mg mb (g + tx_gas t + sum_list (map tx_gas out)) (b + tx_size t + sum_list (map tx_size out)) u"
    using assms(1) unfolding chosen_def by blast+
  have fresh: "(a, n) \<notin> tx_key H E ` set out" using c(1) get [of "(a, n)"] by (metis imageE option.distinct(1))
  have nxt: "(bump_nonce ^^ length (taken_of H E c (t # out))) (nonce_in local c) = (bump_nonce ^^ length (taken_of H E c out)) (nonce_in ?local c)" for c
    by (simp add: taken_of_Cons a(1) assms(3) funpow_bump_Suc del: funpow.simps)
  have "map (tx_nonce \<circ> st_tx) (taken_of H E c (t # out)) =
      map (\<lambda>i. (bump_nonce ^^ i) (nonce_in local c)) [0..<length (taken_of H E c (t # out))]" for c
  proof (cases "c = a")
    case True
    have "[0..<Suc m] = 0 # map Suc [0..<m]" for m by (simp add: upt_conv_Cons map_Suc_upt del: upt_Suc)
    then show ?thesis using c(6) [of c] True a assms(3)
      by (simp add: taken_of_Cons comp_def funpow_bump_Suc del: upt_Suc funpow.simps(2))
  next
    case False
    then show ?thesis using c(6) [of c] a(1) by (simp add: taken_of_Cons)
  qed
  moreover have "pool_get pool (tx_key H E u) = Some u" if "u \<in> set out" for u
    using c(1) [OF that] get by (metis option.distinct(1))
  then have "\<forall>u\<in>set (t # out). pool_get pool (tx_key H E u) = Some u" using t(1) key by simp
  moreover have "distinct (map (tx_key H E) (t # out))" using c(2) fresh key by simp
  moreover have "\<forall>k. pool_get pool' k = (if k \<in> tx_key H E ` set (t # out) then None else pool_get pool k)"
    using c(3) key by (simp add: get del: split_paired_All)
  moreover have "\<forall>c u q. ready_tx pool local skip c u q \<longrightarrow> fits mg mb g b u \<longrightarrow> t # out \<noteq> [] \<and>
      (\<exists>r. fee_priority (st_tx (hd (t # out))) = Ok r \<and> q \<le> r)" using t(2) assms(5) by auto
  moreover have "\<forall>c u q. pool_get pool' (c, (bump_nonce ^^ length (taken_of H E c (t # out))) (nonce_in local c)) = Some u \<longrightarrow>
      (c, (bump_nonce ^^ length (taken_of H E c (t # out))) (nonce_in local c)) \<notin> skip \<longrightarrow> fee_priority (st_tx u) = Ok q \<longrightarrow>
      \<not> fits mg mb (g + sum_list (map tx_gas (t # out))) (b + sum_list (map tx_size (t # out))) u"
    unfolding nxt using c(7) by (simp add: add.assoc)
  ultimately show ?thesis unfolding chosen_def using c(4,5) by simp
qed

lemma fits_iff:
  assumes "mg \<noteq> - 1" "mb \<noteq> - 1" "gas_meter (st_tx t) = Ok g" "tx_encode (st_tx t) = Some enc"
  shows "saturating_add gas g > mg \<or> saturating_add bytes (sat_from (length enc)) > mb \<longleftrightarrow>
      \<not> fits (unat mg) (unat mb) (unat gas) (unat (bytes :: u32)) t"
    "fits (unat mg) (unat mb) (unat gas) (unat bytes) t \<Longrightarrow> unat (saturating_add gas g) = unat gas + tx_gas t \<and>
      unat (saturating_add bytes (sat_from (length enc))) = unat bytes + tx_size t"
proof -
  have m: "unat mg < 2 ^ 64 - 1" "unat mb < 2 ^ 32 - 1" using unat_not_max [OF assms(1)] unat_not_max [OF assms(2)] by simp_all
  have s: "tx_gas t = unat g" "tx_size t = length enc" using assms(3,4) by (simp_all add: tx_gas_def tx_size_def tx_bytes_def)
  note u = unat_saturating_add [of gas g] unat_saturating_add [of bytes "sat_from (length enc)"] unat_sat_from [of "length enc", where 'a = 32]
  show "saturating_add gas g > mg \<or> saturating_add bytes (sat_from (length enc)) > mb \<longleftrightarrow>
      \<not> fits (unat mg) (unat mb) (unat gas) (unat bytes) t"
    using m unfolding word_less_nat_alt u fits_def s by (auto simp: min_def)
  show "unat (saturating_add gas g) = unat gas + tx_gas t \<and> unat (saturating_add bytes (sat_from (length enc))) = unat bytes + tx_size t"
    if "fits (unat mg) (unat mb) (unat gas) (unat bytes) t"
    using that m unfolding u fits_def s by (auto simp: min_def)
qed

lemma keyed_pool_remove: "keyed_pool H E pool \<Longrightarrow> keyed_pool H E (pool_remove pool k)"
  unfolding keyed_pool_def using pool_map.ok_del pool_map.get_del by (metis option.distinct(1))

lemma take_loop_total:
  assumes "keyed_pool H E pool" "mg \<noteq> - 1" "mb \<noteq> - 1" "unat gas \<le> unat mg" "unat bytes \<le> unat mb"
  shows "\<exists>out pool'. take_loop mg mb pool local skip gas bytes = Some (out, pool') \<and>
    chosen H E (unat mg) (unat mb) pool local skip (unat gas) (unat bytes) out pool'"
  using assms(1,4,5)
proof (induction "card (dom (pool_get pool) - skip)" arbitrary: pool local skip gas bytes rule: less_induct)
  case less
  have wf: "pool_wf pool" using less.prems(1) by (simp add: keyed_pool_def)
  show ?case
  proof (cases "peek_best_ready pool local skip")
    case None
    then have "chosen H E (unat mg) (unat mb) pool local skip (unat gas) (unat bytes) [] pool"
      using peek_best_ready_None [OF wf None] less.prems(2,3) by (intro chosen_none)
    moreover have "take_loop mg mb pool local skip gas bytes = Some ([], pool)" using None by (subst take_loop.simps) simp
    ultimately show ?thesis by blast
  next
    case (Some best)
    obtain a t where best: "best = (a, t)" by fastforce
    obtain p where p: "ready_tx pool local skip a t p" "\<And>c u q. ready_tx pool local skip c u q \<Longrightarrow> q \<le> p"
      using peek_best_ready_Some [OF wf] Some best by metis
    define n where "n = nonce_in local a"
    have t: "pool_get pool (a, n) = Some t" "(a, n) \<notin> skip" "fee_priority (st_tx t) = Ok p" using p(1) by (simp_all add: ready_tx_def n_def)
    have "tx_key H E t = (a, n)" "wf_tx (st_tx t)" using t(1) less.prems(1) unfolding keyed_pool_def by blast+
    then have nonce: "tx_nonce (st_tx t) = n" and enc: "tx_encode (st_tx t) = Some (tx_bytes (st_tx t))"
      by (simp_all add: tx_key_def tx_encode_wf)
    obtain g where g: "gas_meter (st_tx t) = Ok g" using t(3) by (auto simp: fee_priority_def result_simps)
    note fit = fits_iff [OF assms(2,3) g enc, of gas bytes]
    have slot: "(a, n) \<in> dom (pool_get pool) - skip" "finite (dom (pool_get pool) - skip)" using t(1,2) finite_pool [OF wf] by auto
    show ?thesis
    proof (cases "fits (unat mg) (unat mb) (unat gas) (unat bytes) t")
      case False
      have "dom (pool_get pool) - insert (a, n) skip = (dom (pool_get pool) - skip) - {(a, n)}" by blast
      then have "card (dom (pool_get pool) - insert (a, n) skip) < card (dom (pool_get pool) - skip)"
        using slot by (metis card_Diff1_less)
      from less.hyps [OF this less.prems]
      obtain out pool' where 1: "take_loop mg mb pool local (insert (a, n) skip) gas bytes = Some (out, pool')"
        "chosen H E (unat mg) (unat mb) pool local (insert (a, n) skip) (unat gas) (unat bytes) out pool'" by blast
      have "take_loop mg mb pool local skip gas bytes = Some (out, pool')"
        using Some g enc fit(1) False 1(1) by (subst take_loop.simps) (simp add: best nonce Let_def)
      then show ?thesis using chosen_skip [of H E _ _ pool local a skip _ _ out pool' t] 1(2) t(1) False unfolding n_def by blast
    next
      case True
      let ?pool = "pool_remove pool (a, n)" and ?local = "bt_insert a (bump_nonce n) local"
      let ?gas = "saturating_add gas g" and ?bytes = "saturating_add bytes (sat_from (length (tx_bytes (st_tx t)))) :: u32"
      note u = fit(2) [OF True]
      have "dom (pool_get ?pool) = dom (pool_get pool) - {(a, n)}"
        by (rule set_eqI) (simp add: domIff pool_map.get_del [OF wf])
      then have "dom (pool_get ?pool) - skip = (dom (pool_get pool) - skip) - {(a, n)}" by blast
      then have less_card: "card (dom (pool_get ?pool) - skip) < card (dom (pool_get pool) - skip)"
        using slot by (metis card_Diff1_less)
      have "unat ?gas \<le> unat mg" "unat ?bytes \<le> unat mb" using u True by (simp_all add: fits_def)
      from less.hyps [OF less_card keyed_pool_remove [OF less.prems(1)] this, of ?local]
      obtain out pool' where 1: "take_loop mg mb ?pool ?local skip ?gas ?bytes = Some (out, pool')"
        "chosen H E (unat mg) (unat mb) ?pool ?local skip (unat ?gas) (unat ?bytes) out pool'" by blast
      have "take_loop mg mb pool local skip gas bytes = Some (t # out, pool')"
        using Some g enc fit(1) True 1(1) by (subst take_loop.simps) (simp add: best nonce Let_def)
      moreover have "chosen H E (unat mg) (unat mb) pool local skip (unat gas) (unat bytes) (t # out) pool'"
        using 1(2) u by (intro chosen_take [OF _ less.prems(1) n_def p]) simp_all
      ultimately show ?thesis by blast
    qed
  qed
qed

lemma pool_ok_keyed: "pool_ok H E pool \<Longrightarrow> keyed_pool H E pool"
  unfolding pool_ok_def txs_wf_def keyed_pool_def entry_ok_def tx_key_def tx_sender_def
  by (metis result.simps(5) prod.collapse)

text \<open>
  C12. The choice for a block. From a sound queue, choosing transactions for a block
  ends. What it returns has been taken out of the queue and the rest is still
  there; gas and bytes stay within the limits; the transactions of each account
  come with consecutive nonces from the one the account expects; nothing that fits
  is left at the next nonce of any account; and no ready transaction that fits
  pays more than the first one chosen.
\<close>

theorem take_ready_complete:
  assumes "pool_ok H E pool" "max_gas \<noteq> - 1" "max_bytes \<noteq> - 1"
  shows "\<exists>out pool'. take_ready pool max_gas max_bytes = Some (out, pool') \<and>
    chosen H E (unat max_gas) (unat max_bytes) pool (mp_account_nonce pool) {} 0 0 out pool'"
  using take_loop_total [OF pool_ok_keyed [OF assms(1)] assms(2,3), of 0 0 "mp_account_nonce pool" "{}"] by (simp add: take_ready_def)

definition example_pool :: Mempool where
  "example_pool = queue_put (with_limits 1 10 1000) (replicate 32 1, 0) example_payment"

lemma example_pool_ok: "pool_ok last32 toy_ed example_pool"
proof -
  have ok: "pool_ok last32 toy_ed (with_limits 1 10 1000)"
    by (simp add: pool_ok_def txs_wf_def pool_wf_def with_limits_def pool_get_def tx_count_def)
  have "pool_sender_address last32 toy_ed example_payment = Ok (replicate 32 1)" "is_ok (verify_ed25519 toy_ed example_payment)"
    "is_ok (gas_meter (st_tx example_payment))" "tx_nonce (st_tx example_payment) = 0" "tx_max_fee (st_tx example_payment) = 7"
    "length (tx_bytes (st_tx example_payment)) = 94" by code_simp+
  then have "entry_ok last32 toy_ed (mp_min_fee (with_limits 1 10 1000)) (replicate 32 1, 0) example_payment"
    by (simp add: entry_ok_def with_limits_def tx_size_def MAX_TX_BYTES_def)
  from queue_put_ok [OF ok this] show ?thesis
    by (simp add: example_pool_def example_payment_def wf_tx_def next_nonce_def with_limits_def tx_count_def)
qed

theorem take_ready_complete_witness:
  "\<exists>pool'. take_ready example_pool 100000 100000 = Some ([example_payment], pool') \<and> pool_get pool' (replicate 32 1, 0) = None"
proof -
  have run: "map_option fst (take_ready example_pool 100000 100000) = Some [example_payment]"
    "tx_key last32 toy_ed example_payment = (replicate 32 1, 0)" by code_simp+
  obtain out pool' where "take_ready example_pool 100000 100000 = Some (out, pool')"
    "chosen last32 toy_ed (unat (100000 :: u64)) (unat (100000 :: u32)) example_pool (mp_account_nonce example_pool) {} 0 0 out pool'"
    using take_ready_complete [OF example_pool_ok, of 100000 100000] by auto
  then show ?thesis using run by (auto simp: chosen_def)
qed

end
