(* ===== verification/Light_Client.thy ===== *)
theory Light_Client
  imports Consensus_Steps State_Accounts
begin

text \<open>
  The light client of \<open>crates/light\<close>: header certificates (\<open>header.rs\<close>), account
  proofs from an untrusted source (\<open>account.rs\<close>, with the decoding of \<open>rpc/src/state.rs\<close>),
  header chains from a checkpoint (\<open>sync.rs\<close>) and packet commitments (\<open>ibc.rs\<close>).
  The JSON values and the hexadecimal codec are those of serde and hex and enter
  as a record of operations. The lemmas show what a client knows after each
  check: the chain passes through its checkpoint, the account is the one of the
  committed trie, the packet is the committed one. \<open>None\<close> is a panic.
\<close>

section \<open>Definitions\<close>

datatype LightError = LQc | LHeaderMismatch | LProof | LSource | LCheckpoint | LGap

subsection \<open>Certificates (header.rs)\<close>

definition light_verify_qc ::
  "(bytes \<Rightarrow> Hash) \<Rightarrow> Blst \<Rightarrow> Header \<Rightarrow> QuorumCertificate \<Rightarrow> ValidatorSet \<Rightarrow> (unit, LightError) result option" where
  "light_verify_qc H B header qc validators =
    (let hash = header_hash H header in
     if qc_block qc \<noteq> VBlock hash then Some (Err LHeaderMismatch)
     else if qc_height qc \<noteq> hf_height (hd_fields header) \<or> qc_round qc \<noteq> hf_round (hd_fields header)
       then Some (Err LHeaderMismatch)
     else map_option (map_err (\<lambda>_. LQc)) (qc_verify B qc validators))"

subsection \<open>Chains of headers (sync.rs)\<close>

record AnnouncedHeader =
  ah_header :: Header
  ah_qc :: QuorumCertificate

abbreviation ah_height :: "AnnouncedHeader \<Rightarrow> Height" where
  "ah_height item \<equiv> hf_height (hd_fields (ah_header item))"

text \<open>The first loop; the position counts from \<open>i\<close>.\<close>

fun find_anchor ::
  "(bytes \<Rightarrow> Hash) \<Rightarrow> Checkpoint \<Rightarrow> nat \<Rightarrow> AnnouncedHeader list \<Rightarrow> (nat option, LightError) result" where
  "find_anchor H cp i [] = Ok None"
| "find_anchor H cp i (item # rest) =
    (if ah_height item = cp_height cp then
       if header_hash H (ah_header item) \<noteq> cp_header_hash cp then Err LCheckpoint else Ok (Some i)
     else find_anchor H cp (Suc i) rest)"

text \<open>The second loop; \<open>None\<close> is a panic of the certificate check or the overflow of \<open>ph + 1\<close>.\<close>

fun sync_loop ::
  "(bytes \<Rightarrow> Hash) \<Rightarrow> Blst \<Rightarrow> ValidatorSet \<Rightarrow> u64 option \<Rightarrow> Header option \<Rightarrow> AnnouncedHeader list
    \<Rightarrow> (Header option, LightError) result option" where
  "sync_loop H B validators prev_height lst [] = Some (Ok lst)"
| "sync_loop H B validators prev_height lst (item # rest) =
    (case light_verify_qc H B (ah_header item) (ah_qc item) validators of
       None \<Rightarrow> None
     | Some (Err e) \<Rightarrow> Some (Err e)
     | Some (Ok _) \<Rightarrow>
         (case prev_height of
            None \<Rightarrow> sync_loop H B validators (Some (ah_height item)) (Some (ah_header item)) rest
          | Some ph \<Rightarrow>
              (case checked_add ph 1 of
                 None \<Rightarrow> None
               | Some n \<Rightarrow>
                   if ah_height item \<noteq> n then Some (Err LGap)
                   else sync_loop H B validators (Some (ah_height item)) (Some (ah_header item)) rest)))"

definition sync_checkpoints ::
  "(bytes \<Rightarrow> Hash) \<Rightarrow> Blst \<Rightarrow> Checkpoint \<Rightarrow> AnnouncedHeader list \<Rightarrow> ValidatorSet \<Rightarrow> (Header, LightError) result option" where
  "sync_checkpoints H B cp headers validators =
    (case and_then (find_anchor H cp 0 headers) (ok_or LCheckpoint) of
       Err e \<Rightarrow> Some (Err e)
     | Ok start \<Rightarrow>
         map_option (\<lambda>r. and_then r (ok_or LCheckpoint))
           (sync_loop H B validators None None (drop start headers)))"

subsection \<open>Accounts (account.rs)\<close>

record 'j Json =
  js_get :: "'j \<Rightarrow> string \<Rightarrow> 'j option"
  js_as_str :: "'j \<Rightarrow> string option"
  js_as_array :: "'j \<Rightarrow> 'j list option"
  js_as_u64 :: "'j \<Rightarrow> u64 option"
  js_is_null :: "'j \<Rightarrow> bool"
  hex_decode :: "string \<Rightarrow> bytes option"
  hex_encode :: "bytes \<Rightarrow> string"

datatype StateRpcError = Params | Unknown | ProofMissing

text \<open>\<open>server.rs\<close>; the error of the decoder is dropped by every caller modelled here.\<close>

definition decode_hex :: "'j Json \<Rightarrow> string \<Rightarrow> bytes option" where
  "decode_hex J s = hex_decode J (if take 2 s = ''0x'' then drop 2 s else s)"

definition encode_hex :: "'j Json \<Rightarrow> bytes \<Rightarrow> string" where
  "encode_hex J b = ''0x'' @ hex_encode J b"

text \<open>A member that is a string, decoded; the chain of \<open>get\<close>, \<open>as_str\<close> and \<open>decode_hex\<close>.\<close>

definition hex_value :: "'j Json \<Rightarrow> 'j \<Rightarrow> (bytes, StateRpcError) result" where
  "hex_value J v = and_then (ok_or Params (js_as_str J v)) (\<lambda>s. ok_or Params (decode_hex J s))"

fun hex_values :: "'j Json \<Rightarrow> 'j list \<Rightarrow> (bytes list, StateRpcError) result" where
  "hex_values J [] = Ok []"
| "hex_values J (v # vs) = and_then (hex_value J v) (\<lambda>b. and_then (hex_values J vs) (\<lambda>bs. Ok (b # bs)))"

fun hex_hashes :: "'j Json \<Rightarrow> 'j list \<Rightarrow> (Hash list, StateRpcError) result" where
  "hex_hashes J [] = Ok []"
| "hex_hashes J (v # vs) =
    and_then (hex_value J v) (\<lambda>b.
      if length b \<noteq> 32 then Err Params
      else and_then (hex_hashes J vs) (\<lambda>bs. Ok (b # bs)))"

definition proof_from_json :: "'j Json \<Rightarrow> 'j \<Rightarrow> (MptProof, StateRpcError) result" where
  "proof_from_json J v =
    and_then (ok_or Params (Option.bind (js_get J v ''nodes'') (js_as_array J))) (\<lambda>nodes.
    and_then (hex_values J nodes) (\<lambda>out_nodes.
    and_then (case js_get J v ''value'' of
        None \<Rightarrow> Ok None
      | Some x \<Rightarrow> if js_is_null J x then Ok None else and_then (hex_value J x) (\<lambda>b. Ok (Some b))) (\<lambda>value.
    and_then (ok_or Params (js_get J v ''chainMerkleRoot'')) (\<lambda>rv.
    and_then (hex_value J rv) (\<lambda>rb.
    if length rb \<noteq> 32 then Err Params
    else
    and_then (ok_or Params (js_get J v ''chainMerkle'')) (\<lambda>cm.
    and_then (ok_or Params (Option.bind (js_get J cm ''leafIndex'') (js_as_u64 J))) (\<lambda>leaf_index.
    and_then (ok_or Params (Option.bind (js_get J cm ''siblings'') (js_as_array J))) (\<lambda>sibs.
    and_then (hex_hashes J sibs) (\<lambda>siblings.
      Ok \<lparr>pf_nodes = out_nodes, pf_value = value,
          pf_chain_merkle = \<lparr>mp_leaf_index = unat leaf_index, mp_siblings = siblings\<rparr>,
          pf_chain_merkle_root = rb\<rparr>)))))))))"

definition parse_root32 :: "'j Json \<Rightarrow> 'j \<Rightarrow> string \<Rightarrow> (Hash, LightError) result" where
  "parse_root32 J v key =
    and_then (ok_or LSource (Option.bind (js_get J v key) (js_as_str J))) (\<lambda>s.
    and_then (ok_or LSource (decode_hex J s)) (\<lambda>b.
      if length b \<noteq> 32 then Err LSource else Ok b))"

text \<open>The source gets the two members of the request, the encoded address and the height.\<close>

definition verify_account ::
  "'j Json \<Rightarrow> (bytes \<Rightarrow> Hash) \<Rightarrow> Blst \<Rightarrow> Header \<Rightarrow> QuorumCertificate \<Rightarrow> ValidatorSet
    \<Rightarrow> (string \<Rightarrow> u64 \<Rightarrow> ('j, StateRpcError) result) \<Rightarrow> Address \<Rightarrow> (Account, LightError) result option" where
  "verify_account J H B header qc validators get_proof address =
    map_option (\<lambda>checked.
      and_then checked (\<lambda>_.
      and_then (map_err (\<lambda>_. LSource) (get_proof (encode_hex J address) (hf_height (hd_fields header)))) (\<lambda>resp.
      and_then (parse_root32 J resp ''accountRoot'') (\<lambda>account_root.
      and_then (parse_root32 J resp ''storageRoot'') (\<lambda>storage_root.
      if state_root H account_root storage_root \<noteq> hd_state_root header then Err LProof
      else
      and_then (ok_or LSource (js_get J resp ''proof'')) (\<lambda>proof_val.
      and_then (map_err (\<lambda>_. LSource) (proof_from_json J proof_val)) (\<lambda>pf.
      if \<not> mpt_verify H (account_key address) pf account_root then Err LProof
      else
      and_then (ok_or LProof (pf_value pf)) (\<lambda>raw.
        map_err (\<lambda>_. LProof) (account_decode raw)))))))))
      (light_verify_qc H B header qc validators)"

subsection \<open>Packets (ibc.rs)\<close>

record IbcCommitment =
  ib_header_hash :: Hash
  ib_height :: Height
  ib_merkle_root :: Hash
  ib_mpt_root :: Hash

definition packet_key :: "u32 \<Rightarrow> bytes" where
  "packet_key index = ascii ''ibc/pkt/'' @ u32_be index"

fun put_packets :: "(bytes \<Rightarrow> Hash) \<Rightarrow> Trie \<Rightarrow> nat \<Rightarrow> bytes list \<Rightarrow> Trie option" where
  "put_packets H tr i [] = Some tr"
| "put_packets H tr i (p # ps) =
    do { tr \<leftarrow> trie_put H tr (packet_key (of_nat i)) p; put_packets H tr (Suc i) ps }"

definition ibc_commitment ::
  "(bytes \<Rightarrow> Hash) \<Rightarrow> Blst \<Rightarrow> Header \<Rightarrow> QuorumCertificate \<Rightarrow> ValidatorSet \<Rightarrow> bytes list
    \<Rightarrow> (IbcCommitment \<times> Trie, LightError) result option" where
  "ibc_commitment H B header qc validators packets =
    (case light_verify_qc H B header qc validators of
       None \<Rightarrow> None
     | Some (Err e) \<Rightarrow> Some (Err e)
     | Some (Ok _) \<Rightarrow>
         do {
           tr \<leftarrow> put_packets H (trie_new H) 0 packets;
           Some (Ok (\<lparr>ib_header_hash = header_hash H header, ib_height = hf_height (hd_fields header),
             ib_merkle_root = compute_root H packets, ib_mpt_root = tr_root tr\<rparr>, tr))
         })"

definition verify_packet ::
  "(bytes \<Rightarrow> Hash) \<Rightarrow> IbcCommitment \<Rightarrow> u32 \<Rightarrow> MptProof \<Rightarrow> bytes \<Rightarrow> (unit, LightError) result" where
  "verify_packet H com index pf expected =
    (if \<not> mpt_verify H (packet_key index) pf (ib_mpt_root com) then Err LProof
     else case pf_value pf of
       Some v \<Rightarrow> if v = expected then Ok () else Err LProof
     | None \<Rightarrow> Err LProof)"

section \<open>Chains through the checkpoint\<close>

lemma light_verify_qc_iff:
  "light_verify_qc H B header qc validators = Some (Ok ()) \<longleftrightarrow>
    qc_block qc = VBlock (header_hash H header) \<and> qc_height qc = hf_height (hd_fields header) \<and>
    qc_round qc = hf_round (hd_fields header) \<and> qc_verify B qc validators = Some (Ok ())"
  by (auto simp: light_verify_qc_def Let_def map_err_Ok_iff)

lemma find_anchor_Some:
  "find_anchor H cp i hs = Ok (Some k) \<Longrightarrow>
    \<exists>pre f rest. hs = pre @ f # rest \<and> k = i + length pre \<and> cp_height cp \<notin> ah_height ` set pre \<and>
      ah_height f = cp_height cp \<and> header_hash H (ah_header f) = cp_header_hash cp"
proof (induction hs arbitrary: i)
  case (Cons item hs)
  show ?case
  proof (cases "ah_height item = cp_height cp")
    case True
    then show ?thesis using Cons.prems by (intro exI [of _ "[]"]) (simp split: if_splits)
  next
    case False
    then obtain pre f rest where "hs = pre @ f # rest" "k = Suc i + length pre" "cp_height cp \<notin> ah_height ` set pre"
      "ah_height f = cp_height cp" "header_hash H (ah_header f) = cp_header_hash cp"
      using Cons.IH [of "Suc i"] Cons.prems by auto
    then show ?thesis using False by (intro exI [of _ "item # pre"] exI [of _ f] exI [of _ rest]) auto
  qed
qed simp

lemma find_anchor_first:
  "cp_height cp \<notin> ah_height ` set pre \<Longrightarrow> ah_height f = cp_height cp \<Longrightarrow> header_hash H (ah_header f) = cp_header_hash cp \<Longrightarrow>
    find_anchor H cp i (pre @ f # rest) = Ok (Some (i + length pre))"
  by (induction pre arbitrary: i) auto

lemma height_step:
  "checked_add ph 1 = Some h \<longleftrightarrow> unat h = unat (ph :: u64) + 1"
proof -
  have "unat h < 2 ^ 64" using unat_lt_pow [of h] by simp
  moreover have "unat (ph + 1) = unat ph + 1" if "unat ph + 1 < 2 ^ 64" using that by (simp add: unat_word_ariths)
  ultimately show ?thesis by (auto simp: checked_add_def word_unat_eq_iff)
qed

abbreviation heights :: "AnnouncedHeader list \<Rightarrow> nat list" where
  "heights chain \<equiv> map (\<lambda>item. unat (ah_height item)) chain"

lemma upt_next: "[n..<n + length (x # xs)] = n # [Suc n..<Suc n + length xs]"
  by (simp add: upt_conv_Cons del: upt_Suc)

lemma sync_loop_iff:
  "sync_loop H B vs (Some ph) l hs = Some (Ok l') \<longleftrightarrow>
    (\<forall>item\<in>set hs. light_verify_qc H B (ah_header item) (ah_qc item) vs = Some (Ok ())) \<and>
    heights hs = [Suc (unat ph)..<Suc (unat ph) + length hs] \<and>
    l' = (if hs = [] then l else Some (ah_header (last hs)))"
proof (induction hs arbitrary: ph l)
  case (Cons item hs)
  have "sync_loop H B vs (Some ph) l (item # hs) = Some (Ok l') \<longleftrightarrow>
    light_verify_qc H B (ah_header item) (ah_qc item) vs = Some (Ok ()) \<and>
    checked_add ph 1 = Some (ah_height item) \<and>
    sync_loop H B vs (Some (ah_height item)) (Some (ah_header item)) hs = Some (Ok l')"
    by (auto split: option.splits result.splits)
  then show ?case unfolding Cons.IH height_step upt_next by (auto simp del: sync_loop.simps upt_Suc)
qed auto

text \<open>A chain of announced headers that starts at the checkpoint, each certified and one above the one before.\<close>

definition certified_chain :: "(bytes \<Rightarrow> Hash) \<Rightarrow> Blst \<Rightarrow> ValidatorSet \<Rightarrow> Checkpoint \<Rightarrow> AnnouncedHeader list \<Rightarrow> bool" where
  "certified_chain H B validators cp chain \<longleftrightarrow>
    chain \<noteq> [] \<and> header_hash H (ah_header (hd chain)) = cp_header_hash cp \<and>
    heights chain = [unat (cp_height cp)..<unat (cp_height cp) + length chain] \<and>
    (\<forall>item\<in>set chain. qc_block (ah_qc item) = VBlock (header_hash H (ah_header item)) \<and>
      qc_height (ah_qc item) = ah_height item \<and> qc_round (ah_qc item) = hf_round (hd_fields (ah_header item)) \<and>
      qc_verify B (ah_qc item) validators = Some (Ok ()))"

lemma sync_from_anchor:
  assumes "ah_height f = cp_height cp" "header_hash H (ah_header f) = cp_header_hash cp"
  shows "sync_loop H B vs None None (f # rest) = Some (Ok l) \<longleftrightarrow>
    certified_chain H B vs cp (f # rest) \<and> l = Some (ah_header (last (f # rest)))"
proof -
  have "sync_loop H B vs None None (f # rest) = Some (Ok l) \<longleftrightarrow>
    light_verify_qc H B (ah_header f) (ah_qc f) vs = Some (Ok ()) \<and>
    sync_loop H B vs (Some (ah_height f)) (Some (ah_header f)) rest = Some (Ok l)"
    by (auto split: option.splits result.splits)
  then show ?thesis
    unfolding sync_loop_iff certified_chain_def light_verify_qc_iff upt_next using assms by (auto simp del: sync_loop.simps upt_Suc)
qed

declare sync_loop.simps(2) [simp del]

text \<open>
  C30. Synchronisation from a checkpoint. The client accepts a list of announced
  headers with a tip exactly when the list, from the first header at the height of
  the checkpoint on, starts with the header whose hash is the checkpoint, goes up
  by one height at a time, and each of its headers has a certificate that names its
  hash, height and round and verifies; the tip is then the last header. No other
  history is accepted, whatever certificates it carries.
\<close>

theorem sync_through_checkpoint:
  "sync_checkpoints H B cp headers validators = Some (Ok tip) \<longleftrightarrow>
    (\<exists>pre chain. headers = pre @ chain \<and> cp_height cp \<notin> ah_height ` set pre \<and>
      certified_chain H B validators cp chain \<and> tip = ah_header (last chain))"
proof
  assume "sync_checkpoints H B cp headers validators = Some (Ok tip)"
  then obtain start l where start: "find_anchor H cp 0 headers = Ok (Some start)"
    and loop: "sync_loop H B validators None None (drop start headers) = Some (Ok (Some tip))"
    by (auto simp: sync_checkpoints_def result_simps ok_or_def split: result.splits option.splits)
  obtain pre f rest where h: "headers = pre @ f # rest" "start = 0 + length pre" "cp_height cp \<notin> ah_height ` set pre"
    and anchor: "ah_height f = cp_height cp" "header_hash H (ah_header f) = cp_header_hash cp"
    using find_anchor_Some [OF start] by blast
  have "drop start headers = f # rest" using h(1,2) by simp
  then have "sync_loop H B validators None None (f # rest) = Some (Ok (Some tip))" using loop by (simp only:)
  then have "certified_chain H B validators cp (f # rest) \<and> Some tip = Some (ah_header (last (f # rest)))"
    by (rule sync_from_anchor [OF anchor, THEN iffD1])
  then show "\<exists>pre chain. headers = pre @ chain \<and> cp_height cp \<notin> ah_height ` set pre \<and>
      certified_chain H B validators cp chain \<and> tip = ah_header (last chain)"
    using h by blast
next
  assume "\<exists>pre chain. headers = pre @ chain \<and> cp_height cp \<notin> ah_height ` set pre \<and>
      certified_chain H B validators cp chain \<and> tip = ah_header (last chain)"
  then obtain pre chain where p: "headers = pre @ chain" "cp_height cp \<notin> ah_height ` set pre"
    "certified_chain H B validators cp chain" "tip = ah_header (last chain)" by blast
  then obtain f rest where "chain = f # rest" unfolding certified_chain_def by (cases chain) blast+
  with p have h: "headers = pre @ f # rest" "cp_height cp \<notin> ah_height ` set pre"
    and c: "certified_chain H B validators cp (f # rest)" "tip = ah_header (last (f # rest))" by blast+
  have "unat (ah_height f) = unat (cp_height cp)" using c(1) unfolding certified_chain_def upt_next by simp
  then have anchor: "ah_height f = cp_height cp" "header_hash H (ah_header f) = cp_header_hash cp"
    using c(1) by (auto simp: certified_chain_def word_unat_eq_iff)
  then have "find_anchor H cp 0 headers = Ok (Some (length pre))" using find_anchor_first [OF h(2) anchor, of 0] h(1) by simp
  then show "sync_checkpoints H B cp headers validators = Some (Ok tip)"
    using sync_from_anchor [OF anchor, THEN iffD2, OF conjI, OF c(1) refl] h(1) c(2)
    by (simp add: sync_checkpoints_def ok_or_def)
qed

text \<open>A header over a given state root with a certificate of two of the example validators.\<close>

definition light_header :: "Hash \<Rightarrow> Header" where
  "light_header root = toy_header\<lparr>hd_state_root := root\<rparr>"

definition light_message :: "Hash \<Rightarrow> bytes" where
  "light_message root = signed_message 5 0 Precommit (VBlock (header_hash poly32 (light_header root)))"

definition light_qc :: "Hash \<Rightarrow> QuorumCertificate" where
  "light_qc root = \<lparr>qc_height = 5, qc_round = 0, qc_block = VBlock (header_hash poly32 (light_header root)),
    qc_signers = [replicate 48 1, replicate 48 2],
    qc_agg_sig = replicate 48 2 @ replicate 48 1 @ light_message root, qc_power = 30\<rparr>"

definition light_blst :: "Hash \<Rightarrow> Blst" where
  "light_blst root = toy_blst [light_message root]"

theorem sync_through_checkpoint_witness:
  "certified_chain poly32 (light_blst (replicate 32 0)) example_validators
    \<lparr>cp_height = 5, cp_header_hash = header_hash poly32 (light_header (replicate 32 0))\<rparr>
    [\<lparr>ah_header = light_header (replicate 32 0), ah_qc = light_qc (replicate 32 0)\<rparr>]"
proof -
  let ?hs = "[\<lparr>ah_header = light_header (replicate 32 0), ah_qc = light_qc (replicate 32 0)\<rparr>]"
  let ?cp = "\<lparr>cp_height = 5, cp_header_hash = header_hash poly32 (light_header (replicate 32 0))\<rparr>"
  have "sync_checkpoints poly32 (light_blst (replicate 32 0)) ?cp ?hs example_validators =
      Some (Ok (light_header (replicate 32 0)))" by code_simp
  then obtain pre chain where "?hs = pre @ chain"
    "certified_chain poly32 (light_blst (replicate 32 0)) example_validators ?cp chain"
    unfolding sync_through_checkpoint by blast
  moreover from this(2) have "chain \<noteq> []" by (simp add: certified_chain_def)
  ultimately show ?thesis by (cases pre) simp_all
qed

section \<open>Accounts of the committed state\<close>

lemma state_root_inputs:
  "state_root H a b = H (branch_input (H (leaf_input a)) (H (leaf_input b)))"
  "set (tree_inputs H [a, b]) = {leaf_input a, leaf_input b, branch_input (H (leaf_input a)) (H (leaf_input b))}"
proof -
  have layers: "compute_layers H [x, y] = [merkle_branch H x y]" for x y
    by (simp add: compute_layers.simps next_layer_def pad_even_def)
  show "state_root H a b = H (branch_input (H (leaf_input a)) (H (leaf_input b)))"
    by (simp add: state_root_def compute_root_eq [symmetric] compute_root_def layers hash_inputs)
  show "set (tree_inputs H [a, b]) = {leaf_input a, leaf_input b, branch_input (H (leaf_input a)) (H (leaf_input b))}"
    by (simp add: tree_inputs_def layer_inputs.simps next_layer_def pad_even_def hash_inputs)
qed

lemma state_root_binds:
  assumes "\<forall>b. length (H b) = 32" "inj_on H (set (tree_inputs H [a, b]) \<union> set (tree_inputs H [c, d]))"
    and "state_root H a b = state_root H c d"
  shows "a = c \<and> b = d"
proof -
  let ?S = "set (tree_inputs H [a, b]) \<union> set (tree_inputs H [c, d])"
  have "branch_input (H (leaf_input a)) (H (leaf_input b)) = branch_input (H (leaf_input c)) (H (leaf_input d))"
    using assms(3) inj_onD [OF assms(2)] unfolding state_root_inputs by blast
  then have "H (leaf_input a) = H (leaf_input c)" "H (leaf_input b) = H (leaf_input d)"
    using inputs_eq(4) assms(1) by metis+
  then have "leaf_input a = leaf_input c" "leaf_input b = leaf_input d"
    using inj_onD [OF assms(2)] unfolding state_root_inputs by blast+
  then show ?thesis by (simp add: inputs_eq)
qed

text \<open>What a response says, when it can be read.\<close>

definition answer :: "'j Json \<Rightarrow> 'j \<Rightarrow> Hash \<Rightarrow> Hash \<Rightarrow> MptProof \<Rightarrow> bool" where
  "answer J resp account_root storage_root pf \<longleftrightarrow>
    parse_root32 J resp ''accountRoot'' = Ok account_root \<and> parse_root32 J resp ''storageRoot'' = Ok storage_root \<and>
    (\<exists>v. js_get J resp ''proof'' = Some v \<and> proof_from_json J v = Ok pf)"

lemma verify_account_Ok:
  assumes "verify_account J H B header qc validators get_proof address = Some (Ok acc)"
  obtains resp ar sr pf raw where "light_verify_qc H B header qc validators = Some (Ok ())"
    "get_proof (encode_hex J address) (hf_height (hd_fields header)) = Ok resp" "answer J resp ar sr pf"
    "state_root H ar sr = hd_state_root header" "mpt_verify H address pf ar"
    "pf_value pf = Some raw" "account_decode raw = Ok acc"
  using assms that unfolding verify_account_def answer_def account_key_def
  by (auto simp: result_simps ok_or_def map_err_Ok_iff split: if_splits option.splits)

lemma answer_unique: "answer J resp ar sr p \<Longrightarrow> answer J resp ar' sr' p' \<Longrightarrow> ar = ar' \<and> sr = sr' \<and> p = p'"
  by (auto simp: answer_def)

text \<open>
  C29. An account from an untrusted source. Let a header carry the state root of an
  account trie reached by a sequence of updates. Whatever the source answers, if
  the client returns an account, then the certificate of the header verified and
  the account is the one the trie has at the address, provided the answer does not
  contain a hash collision with the trie.
\<close>

theorem light_account_genuine:
  assumes "\<forall>b. length (H b) = 32" "list_all op_fits xs" "trie_run H (trie_new H) xs = Some tr"
    and "hd_state_root header = state_root H (tr_root tr) storage"
    and "get_proof (encode_hex J address) (hf_height (hd_fields header)) = Ok resp" "answer J resp ar sr pf"
    and "inj_on H (set (tree_inputs H [ar, sr]) \<union> set (tree_inputs H [tr_root tr, storage]))"
    and "inj_on (hash_encoded H) (payload H ` set (run_trees [xs]) \<union> set (pf_nodes pf))"
    and "verify_account J H B header qc validators get_proof address = Some (Ok acc)"
  shows "light_verify_qc H B header qc validators = Some (Ok ()) \<and>
    (\<exists>raw. fold map_op xs Map.empty address = Some raw \<and> account_decode raw = Ok acc)"
proof -
  obtain resp' ar' sr' pf' raw where v: "light_verify_qc H B header qc validators = Some (Ok ())"
    "get_proof (encode_hex J address) (hf_height (hd_fields header)) = Ok resp'" "answer J resp' ar' sr' pf'"
    "state_root H ar' sr' = hd_state_root header" "mpt_verify H address pf' ar'"
    "pf_value pf' = Some raw" "account_decode raw = Ok acc"
    using assms(9) by (rule verify_account_Ok)
  then have same: "ar' = ar" "sr' = sr" "pf' = pf" using answer_unique [OF _ assms(6)] assms(5) by auto
  then have "ar = tr_root tr" using state_root_binds [OF assms(1,7)] v(4) assms(4) by simp
  then have "pf_value pf = fold map_op xs Map.empty address"
    using run_verify_sound [OF assms(1,2,8,3)] v(5) same by simp
  then show ?thesis using v same by simp
qed

text \<open>JSON values and a hexadecimal codec small enough to compute with.\<close>

datatype toy_json = JStr string | JNum u64 | JArr "toy_json list" | JObj "(string \<times> toy_json) list"

definition toy_js :: "toy_json Json" where
  "toy_js = \<lparr>js_get = (\<lambda>v k. case v of JObj ms \<Rightarrow> map_of ms k | _ \<Rightarrow> None),
    js_as_str = (\<lambda>v. case v of JStr s \<Rightarrow> Some s | _ \<Rightarrow> None), js_as_array = (\<lambda>v. case v of JArr vs \<Rightarrow> Some vs | _ \<Rightarrow> None),
    js_as_u64 = (\<lambda>v. case v of JNum n \<Rightarrow> Some n | _ \<Rightarrow> None), js_is_null = (\<lambda>_. False),
    hex_decode = (\<lambda>s. Some (map of_char s)), hex_encode = map (\<lambda>b. char_of (unat b))\<rparr>"

definition light_account :: Account where
  "light_account = \<lparr>ac_balance = 42, ac_nonce = 3, ac_code_hash = replicate 32 0\<rparr>"

definition light_ops :: "TrieOp list" where
  "light_ops = [TPut (replicate 32 7) (account_encode light_account)]"

definition light_nodes :: "bytes list" where
  "light_nodes = [payload poly32 (TLeaf (bytes_to_nibbles (replicate 32 7)) (account_encode light_account))]"

definition light_proof :: MptProof where
  "light_proof = \<lparr>pf_nodes = light_nodes, pf_value = Some (account_encode light_account),
    pf_chain_merkle = \<lparr>mp_leaf_index = 0, mp_siblings = []\<rparr>, pf_chain_merkle_root = compute_root poly32 light_nodes\<rparr>"

definition light_account_root :: Hash where
  "light_account_root = hash_encoded poly32 (hd light_nodes)"

definition light_state_root :: Hash where
  "light_state_root = state_root poly32 light_account_root (replicate 32 0)"

definition light_response :: toy_json where
  "light_response =
    (let hex = (\<lambda>b. JStr (encode_hex toy_js b))
     in JObj [(''accountRoot'', hex light_account_root), (''storageRoot'', hex (replicate 32 0)),
        (''proof'', JObj [(''nodes'', JArr (map hex light_nodes)), (''value'', hex (account_encode light_account)),
          (''chainMerkleRoot'', hex (compute_root poly32 light_nodes)),
          (''chainMerkle'', JObj [(''leafIndex'', JNum 0), (''siblings'', JArr [])])])])"

lemma light_response_answer: "answer toy_js light_response light_account_root (replicate 32 0) light_proof"
proof -
  have "parse_root32 toy_js light_response ''accountRoot'' = Ok light_account_root"
    "parse_root32 toy_js light_response ''storageRoot'' = Ok (replicate 32 0)"
    "map_option (proof_from_json toy_js) (js_get toy_js light_response ''proof'') = Some (Ok light_proof)" by code_simp+
  then show ?thesis by (auto simp: answer_def)
qed

theorem light_account_genuine_witness:
  "verify_account toy_js poly32 (light_blst light_state_root) (light_header light_state_root) (light_qc light_state_root)
      example_validators (\<lambda>_ _. Ok light_response) (replicate 32 7) = Some (Ok light_account) \<and>
   light_verify_qc poly32 (light_blst light_state_root) (light_header light_state_root) (light_qc light_state_root)
      example_validators = Some (Ok ())"
proof -
  have run: "verify_account toy_js poly32 (light_blst light_state_root) (light_header light_state_root) (light_qc light_state_root)
      example_validators (\<lambda>_ _. Ok light_response) (replicate 32 7) = Some (Ok light_account)" by code_simp
  have "map_option tr_root (trie_run poly32 (trie_new poly32) light_ops) = Some light_account_root" by code_simp
  then obtain tr where tr: "trie_run poly32 (trie_new poly32) light_ops = Some tr" "tr_root tr = light_account_root" by auto
  have "length (account_encode light_account) < 100" by code_simp
  then have fits: "list_all op_fits light_ops" by (simp add: light_ops_def)
  have "distinct (map (hash_encoded poly32)
      (remdups (map (payload poly32) (run_trees [light_ops]) @ pf_nodes light_proof)))" by code_simp
  then have inj: "inj_on (hash_encoded poly32) (payload poly32 ` set (run_trees [light_ops]) \<union> set (pf_nodes light_proof))"
    unfolding distinct_map by simp
  have "distinct (map poly32 (remdups (tree_inputs poly32 [light_account_root, replicate 32 0])))" by code_simp
  then have inj2: "inj_on poly32 (set (tree_inputs poly32 [light_account_root, replicate 32 0]) \<union>
      set (tree_inputs poly32 [tr_root tr, replicate 32 0]))"
    unfolding distinct_map tr(2) by simp
  have root: "hd_state_root (light_header light_state_root) = state_root poly32 (tr_root tr) (replicate 32 0)"
    by (simp add: light_header_def light_state_root_def tr(2))
  show ?thesis using run light_account_genuine [OF _ fits tr(1) root _ light_response_answer inj2 inj run] by simp
qed

section \<open>Packets\<close>

definition packet_ops :: "nat \<Rightarrow> bytes list \<Rightarrow> TrieOp list" where
  "packet_ops i ps = map (\<lambda>(j, p). TPut (packet_key (of_nat j)) p) (zip [i..<i + length ps] ps)"

lemma packet_ops_simps [simp]: "packet_ops i [] = []"
  "packet_ops i (p # ps) = TPut (packet_key (of_nat i)) p # packet_ops (Suc i) ps"
  by (simp_all add: packet_ops_def upt_conv_Cons del: upt_Suc)

lemma put_packets_run: "put_packets H tr i ps = trie_run H tr (packet_ops i ps)"
  by (induction ps arbitrary: i tr) simp_all

lemma packet_key_eq: "packet_key a = packet_key b \<longleftrightarrow> a = b"
  by (simp add: packet_key_def)

lemma packet_ops_map:
  "i + length ps \<le> 2 ^ 32 \<Longrightarrow> fold map_op (packet_ops i ps) m (packet_key idx) =
    (if i \<le> unat idx \<and> unat idx < i + length ps then Some (ps ! (unat idx - i)) else m (packet_key idx))"
proof (induction ps arbitrary: i m)
  case (Cons p ps)
  have "idx = of_nat i \<longleftrightarrow> unat idx = i"
    using Cons.prems by (auto simp: word_unat_eq_iff unat_of_nat)
  then show ?case using Cons by (auto simp: packet_key_eq nth_Cons')
qed auto

lemma packet_ops_fit: "list_all (\<lambda>p. length p < 2 ^ 32) ps \<Longrightarrow> list_all op_fits (packet_ops i ps)"
  by (induction ps arbitrary: i) (simp_all add: packet_key_def)

text \<open>
  Packet commitments. Over a header whose certificate verifies, a commitment
  can be made to any list of packets, at most as many as there are indices. Each
  packet then has a proof with which it is accepted at its index, and a proof that
  is accepted at an index, as long as it contains no collision, carries the packet
  committed to at that index.
\<close>

theorem ibc_packets_exact:
  assumes "\<forall>b. length (H b) = 32" "light_verify_qc H B header qc validators = Some (Ok ())"
    and "length packets \<le> 2 ^ 32" "list_all (\<lambda>p. length p < 2 ^ 32) packets"
    and "collision_free H [packet_ops 0 packets]"
  shows "\<exists>com tr. ibc_commitment H B header qc validators packets = Some (Ok (com, tr)) \<and>
    ib_header_hash com = header_hash H header \<and> ib_merkle_root com = compute_root H packets \<and>
    (\<forall>i < length packets. \<exists>p. mpt_prove H tr (packet_key (of_nat i)) = Some (Some p) \<and>
      verify_packet H com (of_nat i) p (packets ! i) = Ok ()) \<and>
    (\<forall>idx p e. inj_on (hash_encoded H) (payload H ` set (run_trees [packet_ops 0 packets]) \<union> set (pf_nodes p)) \<longrightarrow>
      verify_packet H com idx p e = Ok () \<longrightarrow> unat idx < length packets \<and> e = packets ! unat idx)"
proof -
  note fits = packet_ops_fit [OF assms(4), of 0]
  obtain tr where tr: "trie_run H (trie_new H) (packet_ops 0 packets) = Some tr"
    using run_refines [OF assms(1) _ assms(5), of "packet_ops 0 packets"] fits by auto
  define com where "com = \<lparr>ib_header_hash = header_hash H header, ib_height = hf_height (hd_fields header),
    ib_merkle_root = compute_root H packets, ib_mpt_root = tr_root tr\<rparr>"
  have content: "fold map_op (packet_ops 0 packets) Map.empty (packet_key idx) =
      (if unat idx < length packets then Some (packets ! unat idx) else None)" for idx
    using packet_ops_map [of 0 packets Map.empty idx] assms(3) by simp
  have "ibc_commitment H B header qc validators packets = Some (Ok (com, tr))"
    by (simp add: ibc_commitment_def assms(2) put_packets_run tr com_def)
  moreover have "\<exists>p. mpt_prove H tr (packet_key (of_nat i)) = Some (Some p) \<and>
      verify_packet H com (of_nat i) p (packets ! i) = Ok ()" if i: "i < length packets" for i
  proof -
    have "unat (of_nat i :: u32) = i" using i assms(3) by (simp add: unat_of_nat)
    then show ?thesis using run_prove [OF assms(1) fits assms(5) tr, of "packet_key (of_nat i)"] content [of "of_nat i"] i
      by (auto simp: verify_packet_def com_def)
  qed
  moreover have "unat idx < length packets \<and> e = packets ! unat idx"
    if inj: "inj_on (hash_encoded H) (payload H ` set (run_trees [packet_ops 0 packets]) \<union> set (pf_nodes p))"
      and ver: "verify_packet H com idx p e = Ok ()" for idx p e
  proof -
    have "mpt_verify H (packet_key idx) p (tr_root tr)" "pf_value p = Some e"
      using ver by (auto simp: verify_packet_def com_def split: if_splits option.splits)
    then show ?thesis using run_verify_sound [OF assms(1) fits inj tr] content [of idx] by (auto split: if_splits)
  qed
  moreover have "ib_header_hash com = header_hash H header" "ib_merkle_root com = compute_root H packets"
    by (simp_all add: com_def)
  ultimately show ?thesis by blast
qed

theorem ibc_packets_exact_witness:
  "\<exists>com tr p. ibc_commitment poly32 (light_blst (replicate 32 0)) (light_header (replicate 32 0)) (light_qc (replicate 32 0))
      example_validators [[1, 2], [3]] = Some (Ok (com, tr)) \<and>
    mpt_prove poly32 tr (packet_key 1) = Some (Some p) \<and> verify_packet poly32 com 1 p [3] = Ok ()"
proof -
  have qc: "light_verify_qc poly32 (light_blst (replicate 32 0)) (light_header (replicate 32 0)) (light_qc (replicate 32 0))
      example_validators = Some (Ok ())" by code_simp
  have "distinct (map (hash_encoded poly32) (remdups (map (payload poly32) (run_trees [packet_ops 0 [[1, 2], [3]]]))))"
    by code_simp
  then have cf: "collision_free poly32 [packet_ops 0 [[1, 2], [3]]]" by (rule collision_freeI)
  have nth: "[[1, 2], [3]] ! 1 = ([3] :: bytes)" "(1 :: nat) < length [[1, 2], [3 :: u8]]" by simp_all
  show ?thesis using ibc_packets_exact [OF _ qc _ _ cf] nth by fastforce
qed

end
