(* ===== verification/Crypto_Kzg.thy ===== *)
theory Crypto_Kzg
  imports Prelude "HOL-Library.Countable"
begin

text \<open>
  The polynomial commitment of \<open>crates/crypto\<close> (\<open>kzg.rs\<close>): setup, commitment,
  opening and verification. The scalar field is any field; the curve groups, their
  serialisation and the pairing are those of arkworks and enter as a record of
  operations, with the laws the code relies on as \<open>curve_laws\<close>. The lemmas show that
  openings are accepted exactly for the value of the polynomial.
\<close>

section \<open>Curve operations\<close>

record ('f, 'g, 'h, 't) Curve =
  cv_fr_from_le :: "bytes \<Rightarrow> 'f"
  cv_g1 :: 'g
  cv_g1_zero :: 'g
  cv_g1_add :: "'g \<Rightarrow> 'g \<Rightarrow> 'g"
  cv_g1_sub :: "'g \<Rightarrow> 'g \<Rightarrow> 'g"
  cv_g1_mul :: "'g \<Rightarrow> 'f \<Rightarrow> 'g"
  cv_g1_ser :: "'g \<Rightarrow> bytes"
  cv_g1_de :: "bytes \<Rightarrow> 'g option"
  cv_g2 :: 'h
  cv_g2_sub :: "'h \<Rightarrow> 'h \<Rightarrow> 'h"
  cv_g2_mul :: "'h \<Rightarrow> 'f \<Rightarrow> 'h"
  cv_g2_ser :: "'h \<Rightarrow> bytes"
  cv_g2_de :: "bytes \<Rightarrow> 'h option"
  cv_pairing :: "'g \<Rightarrow> 'h \<Rightarrow> 't"

section \<open>Definitions\<close>

datatype KzgError = KzgDegree | KzgTooLong | KzgPoint

record KzgSetup =
  kz_degree :: nat
  kz_g1_powers :: "bytes list"
  kz_g2_tau :: bytes

text \<open>The loop over the powers: \<open>acc\<close> is the power reached, \<open>n\<close> how many are left.\<close>

fun setup_powers :: "('f::field, 'g, 'h, 't) Curve \<Rightarrow> 'f \<Rightarrow> 'f \<Rightarrow> nat \<Rightarrow> bytes list" where
  "setup_powers C tau acc 0 = []"
| "setup_powers C tau acc (Suc n) = cv_g1_ser C (cv_g1_mul C (cv_g1 C) acc) # setup_powers C tau (acc * tau) n"

definition kzg_tau :: "('f, 'g, 'h, 't) Curve \<Rightarrow> (bytes \<Rightarrow> bytes) \<Rightarrow> bytes \<Rightarrow> 'f" where
  "kzg_tau C H seed = cv_fr_from_le C (H seed)"

definition kzg_setup :: "('f::field, 'g, 'h, 't) Curve \<Rightarrow> (bytes \<Rightarrow> bytes) \<Rightarrow> nat \<Rightarrow> bytes \<Rightarrow> (KzgSetup, KzgError) result" where
  "kzg_setup C H degree seed =
    (if degree < 1 then Err KzgDegree
     else let tau = kzg_tau C H seed
          in Ok \<lparr>kz_degree = degree, kz_g1_powers = setup_powers C tau 1 (Suc degree),
                 kz_g2_tau = cv_g2_ser C (cv_g2_mul C (cv_g2 C) tau)\<rparr>)"

record 'f KzgOpening =
  ko_z :: 'f
  ko_y :: 'f
  ko_proof :: bytes

definition g1_from_bytes :: "('f, 'g, 'h, 't) Curve \<Rightarrow> bytes \<Rightarrow> ('g, KzgError) result" where
  "g1_from_bytes C b = ok_or KzgPoint (cv_g1_de C b)"

definition g2_from_bytes :: "('f, 'g, 'h, 't) Curve \<Rightarrow> bytes \<Rightarrow> ('h, KzgError) result" where
  "g2_from_bytes C b = ok_or KzgPoint (cv_g2_de C b)"

text \<open>The loop of \<open>msm\<close>; powers and coefficients are passed in step.\<close>

fun msm_loop :: "('f::field, 'g, 'h, 't) Curve \<Rightarrow> 'g \<Rightarrow> (bytes \<times> 'f) list \<Rightarrow> ('g, KzgError) result" where
  "msm_loop C acc [] = Ok acc"
| "msm_loop C acc ((pw, c) # ps) =
    (if c = 0 then msm_loop C acc ps
     else and_then (g1_from_bytes C pw) (\<lambda>g. msm_loop C (cv_g1_add C acc (cv_g1_mul C g c)) ps))"

definition msm :: "('f::field, 'g, 'h, 't) Curve \<Rightarrow> KzgSetup \<Rightarrow> 'f list \<Rightarrow> ('g, KzgError) result" where
  "msm C setup coeffs =
    (if length coeffs > length (kz_g1_powers setup) then Err KzgTooLong
     else msm_loop C (cv_g1_zero C) (zip (kz_g1_powers setup) coeffs))"

definition kzg_commit :: "('f::field, 'g, 'h, 't) Curve \<Rightarrow> KzgSetup \<Rightarrow> 'f list \<Rightarrow> (bytes, KzgError) result" where
  "kzg_commit C setup coeffs = and_then (msm C setup coeffs) (\<lambda>c. Ok (cv_g1_ser C c))"

definition eval_poly :: "'f::field list \<Rightarrow> 'f \<Rightarrow> 'f" where
  "eval_poly coeffs z = foldl (\<lambda>acc c. acc * z + c) 0 (rev coeffs)"

text \<open>The loop of \<open>quotient\<close> runs from the last coefficient down; each entry uses the one after it.\<close>

fun quotient_tail :: "'f::field list \<Rightarrow> 'f \<Rightarrow> 'f list" where
  "quotient_tail [] z = []"
| "quotient_tail [c] z = [c]"
| "quotient_tail (c # d # ps) z = (let q = quotient_tail (d # ps) z in (c + z * hd q) # q)"

definition quotient :: "'f::field list \<Rightarrow> 'f \<Rightarrow> 'f list" where
  "quotient p z = (if length p \<le> 1 then [] else quotient_tail (tl p) z)"

definition kzg_open :: "('f::field, 'g, 'h, 't) Curve \<Rightarrow> KzgSetup \<Rightarrow> 'f list \<Rightarrow> 'f \<Rightarrow> ('f KzgOpening, KzgError) result" where
  "kzg_open C setup coeffs z =
    (let y = eval_poly coeffs z; q = quotient coeffs z
     in and_then (kzg_commit C setup q) (\<lambda>pi. Ok \<lparr>ko_z = z, ko_y = y, ko_proof = pi\<rparr>))"

definition kzg_verify :: "('f::field, 'g, 'h, 't) Curve \<Rightarrow> KzgSetup \<Rightarrow> bytes \<Rightarrow> 'f KzgOpening \<Rightarrow> (bool, KzgError) result" where
  "kzg_verify C setup commitment opn =
    and_then (g1_from_bytes C commitment) (\<lambda>c.
    and_then (g1_from_bytes C (ko_proof opn)) (\<lambda>pi.
    and_then (g2_from_bytes C (kz_g2_tau setup)) (\<lambda>tau_g2.
      let lhs_g1 = cv_g1_sub C c (cv_g1_mul C (cv_g1 C) (ko_y opn));
          rhs_g2 = cv_g2_sub C tau_g2 (cv_g2_mul C (cv_g2 C) (ko_z opn))
      in Ok (cv_pairing C lhs_g1 (cv_g2 C) = cv_pairing C pi rhs_g2))))"

section \<open>Laws of the curve\<close>

text \<open>
  On the multiples of the generators the group operations are those of the
  scalars, serialised points are read back, and the pairing is bilinear and does not
  degenerate.
\<close>

definition curve_laws :: "('f::field, 'g, 'h, 't) Curve \<Rightarrow> bool" where
  "curve_laws C \<longleftrightarrow>
    cv_g1_zero C = cv_g1_mul C (cv_g1 C) 0 \<and> cv_g2_mul C (cv_g2 C) 1 = cv_g2 C \<and>
    (\<forall>a b. cv_g1_add C (cv_g1_mul C (cv_g1 C) a) (cv_g1_mul C (cv_g1 C) b) = cv_g1_mul C (cv_g1 C) (a + b)) \<and>
    (\<forall>a b. cv_g1_sub C (cv_g1_mul C (cv_g1 C) a) (cv_g1_mul C (cv_g1 C) b) = cv_g1_mul C (cv_g1 C) (a - b)) \<and>
    (\<forall>a b. cv_g1_mul C (cv_g1_mul C (cv_g1 C) a) b = cv_g1_mul C (cv_g1 C) (a * b)) \<and>
    (\<forall>a b. cv_g2_sub C (cv_g2_mul C (cv_g2 C) a) (cv_g2_mul C (cv_g2 C) b) = cv_g2_mul C (cv_g2 C) (a - b)) \<and>
    (\<forall>a. cv_g1_de C (cv_g1_ser C (cv_g1_mul C (cv_g1 C) a)) = Some (cv_g1_mul C (cv_g1 C) a)) \<and>
    (\<forall>a. cv_g2_de C (cv_g2_ser C (cv_g2_mul C (cv_g2 C) a)) = Some (cv_g2_mul C (cv_g2 C) a)) \<and>
    (\<forall>a b c d. cv_pairing C (cv_g1_mul C (cv_g1 C) a) (cv_g2_mul C (cv_g2 C) b) =
        cv_pairing C (cv_g1_mul C (cv_g1 C) c) (cv_g2_mul C (cv_g2 C) d) \<longleftrightarrow> a * b = c * d)"

section \<open>Polynomials\<close>

lemma eval_poly_simps [simp]: "eval_poly [] x = 0" "eval_poly (c # cs) x = c + x * eval_poly cs x"
  by (simp_all add: eval_poly_def mult.commute)

lemma quotient_tail_hd: "ps \<noteq> [] \<Longrightarrow> quotient_tail ps z \<noteq> [] \<and> hd (quotient_tail ps z) = eval_poly ps z"
  by (induction ps z rule: quotient_tail.induct) (simp_all add: Let_def)

lemma length_quotient: "length (quotient p z) \<le> length p"
proof -
  have "length (quotient_tail ps z) = length ps" for ps by (induction ps z rule: quotient_tail.induct) (simp_all add: Let_def)
  then show ?thesis by (simp add: quotient_def)
qed

lemma quotient_tail_eval: "eval_poly ps x = eval_poly ps z + (x - z) * eval_poly (tl (quotient_tail ps z)) x"
proof (induction ps z rule: quotient_tail.induct)
  case (3 c d ps z)
  have q: "quotient_tail (d # ps) z = eval_poly (d # ps) z # tl (quotient_tail (d # ps) z)"
    using quotient_tail_hd [of "d # ps" z] by (metis list.collapse list.discI)
  have "eval_poly (quotient_tail (d # ps) z) x = eval_poly (d # ps) z + x * eval_poly (tl (quotient_tail (d # ps) z)) x"
    by (subst q) simp
  moreover have "tl (quotient_tail (c # d # ps) z) = quotient_tail (d # ps) z" by (simp add: Let_def)
  ultimately show ?case using 3
    by (simp only: eval_poly_simps(2) [of c]) (simp add: algebra_simps del: eval_poly_simps)
qed simp_all

lemma quotient_eval: "eval_poly p x - eval_poly p z = (x - z) * eval_poly (quotient p z) x"
proof (cases p)
  case (Cons c ps)
  have "quotient p z = tl (quotient_tail p z)"
    using Cons by (cases ps) (simp_all add: quotient_def Let_def)
  then show ?thesis using quotient_tail_eval [of p x z] by simp
qed (simp add: quotient_def)

section \<open>Commitments in the exponent\<close>

lemma length_setup_powers: "length (setup_powers C tau a n) = n"
  by (induction n arbitrary: a) simp_all

lemma msm_loop_powers:
  assumes "curve_laws C" "length cs \<le> n"
  shows "msm_loop C (cv_g1_mul C (cv_g1 C) b) (zip (setup_powers C tau a n) cs) =
    Ok (cv_g1_mul C (cv_g1 C) (b + a * eval_poly cs tau))"
  using assms(2)
proof (induction cs arbitrary: a b n)
  case (Cons c cs)
  then obtain m where n: "n = Suc m" "length cs \<le> m" by (cases n) auto
  show ?case using assms(1) n Cons.IH [of m "b + a * c" "a * tau"] Cons.IH [of m b "a * tau"]
    by (auto simp: curve_laws_def g1_from_bytes_def ok_or_def mult.assoc add.assoc distrib_left)
qed simp

lemma commit_setup:
  assumes "curve_laws C" "kzg_setup C H degree seed = Ok S" "length cs \<le> Suc degree"
  shows "kzg_commit C S cs = Ok (cv_g1_ser C (cv_g1_mul C (cv_g1 C) (eval_poly cs (kzg_tau C H seed))))"
proof -
  have S: "kz_g1_powers S = setup_powers C (kzg_tau C H seed) 1 (Suc degree)"
    using assms(2) by (auto simp: kzg_setup_def Let_def split: if_splits)
  have "cv_g1_zero C = cv_g1_mul C (cv_g1 C) 0" using assms(1) by (simp add: curve_laws_def)
  then have "msm C S cs = Ok (cv_g1_mul C (cv_g1 C) (eval_poly cs (kzg_tau C H seed)))"
    using msm_loop_powers [OF assms(1,3), of 0 "kzg_tau C H seed" 1] S assms(3)
    by (simp add: msm_def length_setup_powers del: setup_powers.simps)
  then show ?thesis by (simp add: kzg_commit_def)
qed

lemma verify_exponents:
  assumes "curve_laws C" "kzg_setup C H degree seed = Ok S"
  shows "kzg_verify C S (cv_g1_ser C (cv_g1_mul C (cv_g1 C) c))
      \<lparr>ko_z = z, ko_y = y, ko_proof = cv_g1_ser C (cv_g1_mul C (cv_g1 C) q)\<rparr> =
    Ok (c - y = q * (kzg_tau C H seed - z))"
proof -
  have S: "kz_g2_tau S = cv_g2_ser C (cv_g2_mul C (cv_g2 C) (kzg_tau C H seed))"
    using assms(2) by (auto simp: kzg_setup_def Let_def split: if_splits)
  have L: "cv_g2_mul C (cv_g2 C) 1 = cv_g2 C"
    "\<And>a b. cv_g1_sub C (cv_g1_mul C (cv_g1 C) a) (cv_g1_mul C (cv_g1 C) b) = cv_g1_mul C (cv_g1 C) (a - b)"
    "\<And>a b. cv_g2_sub C (cv_g2_mul C (cv_g2 C) a) (cv_g2_mul C (cv_g2 C) b) = cv_g2_mul C (cv_g2 C) (a - b)"
    "\<And>a. cv_g1_de C (cv_g1_ser C (cv_g1_mul C (cv_g1 C) a)) = Some (cv_g1_mul C (cv_g1 C) a)"
    "\<And>a. cv_g2_de C (cv_g2_ser C (cv_g2_mul C (cv_g2 C) a)) = Some (cv_g2_mul C (cv_g2 C) a)"
    and P: "\<And>a b c d. cv_pairing C (cv_g1_mul C (cv_g1 C) a) (cv_g2_mul C (cv_g2 C) b) =
        cv_pairing C (cv_g1_mul C (cv_g1 C) c) (cv_g2_mul C (cv_g2 C) d) \<longleftrightarrow> a * b = c * d"
    using assms(1) by (simp_all add: curve_laws_def)
  show ?thesis using P [of "c - y" 1 q "kzg_tau C H seed - z"]
    by (simp add: kzg_verify_def g1_from_bytes_def g2_from_bytes_def ok_or_def Let_def S L)
qed

lemma opening_exact:
  assumes "curve_laws C" "kzg_setup C H degree seed = Ok S" and len: "length cs \<le> Suc degree"
  shows "\<exists>com opn. kzg_commit C S cs = Ok com \<and> kzg_open C S cs z = Ok opn \<and>
      ko_z opn = z \<and> ko_y opn = eval_poly cs z \<and>
      (\<forall>y. kzg_verify C S com (opn\<lparr>ko_y := y\<rparr>) = Ok (y = eval_poly cs z))"
proof -
  let ?t = "kzg_tau C H seed" and ?q = "quotient cs z"
  have "length ?q \<le> Suc degree" using len length_quotient [of cs z] by linarith
  then have q: "kzg_commit C S ?q = Ok (cv_g1_ser C (cv_g1_mul C (cv_g1 C) (eval_poly ?q ?t)))"
    by (rule commit_setup [OF assms(1,2)])
  have "eval_poly cs ?t - eval_poly cs z = eval_poly ?q ?t * (?t - z)"
    using quotient_eval [of cs ?t z] by (simp add: mult.commute)
  then have eq: "eval_poly cs ?t - y = eval_poly ?q ?t * (?t - z) \<longleftrightarrow> y = eval_poly cs z" for y
    by (metis diff_right_commute eq_iff_diff_eq_0 diff_self)
  show ?thesis
    using commit_setup [OF assms] verify_exponents [OF assms(1,2), of "eval_poly cs ?t" z _ "eval_poly ?q ?t"]
    by (simp add: kzg_open_def Let_def q eq)
qed

section \<open>Properties\<close>

text \<open>
  C33. Polynomial openings. Over a curve with the group, serialisation and pairing
  laws, a polynomial that fits the setup commits and opens at every point, with the
  value of the polynomial there, and the verifier accepts that opening with the
  value and with no other: changing the claimed value makes it answer no. A longer
  polynomial and a degree below one are refused with their errors.
\<close>

theorem kzg_opening_exact:
  assumes "curve_laws C"
  shows "case kzg_setup C H degree seed of Err e \<Rightarrow> degree = 0 \<and> e = KzgDegree
    | Ok S \<Rightarrow> degree \<ge> 1 \<and>
        (if length cs \<le> Suc degree
         then \<exists>com opn. kzg_commit C S cs = Ok com \<and> kzg_open C S cs z = Ok opn \<and>
           ko_z opn = z \<and> ko_y opn = eval_poly cs z \<and>
           (\<forall>y. kzg_verify C S com (opn\<lparr>ko_y := y\<rparr>) = Ok (y = eval_poly cs z))
         else kzg_commit C S cs = Err KzgTooLong)"
proof (cases "kzg_setup C H degree seed")
  case (Ok S)
  then have deg: "degree \<ge> 1" by (simp add: kzg_setup_def split: if_splits)
  show ?thesis
  proof (cases "length cs \<le> Suc degree")
    case True
    then show ?thesis using opening_exact [OF assms Ok True, of z] deg Ok by simp
  next
    case False
    moreover have "length (kz_g1_powers S) = Suc degree"
      using Ok by (auto simp: kzg_setup_def Let_def length_setup_powers split: if_splits simp del: setup_powers.simps)
    ultimately show ?thesis using deg Ok by (simp add: kzg_commit_def msm_def)
  qed
qed (simp add: kzg_setup_def Let_def split: if_splits)

definition toy_curve :: "(rat, rat, rat, rat) Curve" where
  "toy_curve = \<lparr>cv_fr_from_le = (\<lambda>b. of_nat (length b)), cv_g1 = 1, cv_g1_zero = 0, cv_g1_add = (+), cv_g1_sub = (-),
    cv_g1_mul = (*), cv_g1_ser = (\<lambda>x. replicate (to_nat x) 0), cv_g1_de = (\<lambda>b. Some (from_nat (length b))),
    cv_g2 = 1, cv_g2_sub = (-), cv_g2_mul = (*), cv_g2_ser = (\<lambda>x. replicate (to_nat x) 0),
    cv_g2_de = (\<lambda>b. Some (from_nat (length b))), cv_pairing = (*)\<rparr>"

lemma toy_curve_laws: "curve_laws toy_curve"
  by (simp add: curve_laws_def toy_curve_def)

theorem kzg_opening_exact_witness:
  "\<exists>S com opn. kzg_setup toy_curve id 2 [1, 2] = Ok S \<and> kzg_commit toy_curve S [3, 5, 7] = Ok com \<and>
    kzg_open toy_curve S [3, 5, 7] 11 = Ok opn \<and> ko_y opn = 905 \<and>
    kzg_verify toy_curve S com (opn\<lparr>ko_y := 906\<rparr>) = Ok False \<and> kzg_commit toy_curve S [1, 1, 1, 1] = Err KzgTooLong"
proof -
  obtain S where S: "kzg_setup toy_curve id 2 [1, 2] = Ok S" by (simp add: kzg_setup_def Let_def)
  have val: "eval_poly [3, 5, 7] 11 = (905 :: rat)" by simp
  obtain com opn where run: "kzg_commit toy_curve S [3, 5, 7] = Ok com" "kzg_open toy_curve S [3, 5, 7] 11 = Ok opn"
    "ko_y opn = eval_poly [3, 5, 7] 11"
    and ver: "\<And>y. kzg_verify toy_curve S com (opn\<lparr>ko_y := y\<rparr>) = Ok (y = eval_poly [3, 5, 7] 11)"
    using kzg_opening_exact [OF toy_curve_laws, where H = id and degree = 2 and seed = "[1, 2]" and cs = "[3, 5, 7]" and z = 11]
    unfolding S by (auto simp del: eval_poly_simps)
  have "kzg_verify toy_curve S com (opn\<lparr>ko_y := 906\<rparr>) = Ok False" unfolding ver val by simp
  moreover have "kzg_commit toy_curve S [1, 1, 1, 1] = Err KzgTooLong"
    using kzg_opening_exact [OF toy_curve_laws, where H = id and degree = 2 and seed = "[1, 2]" and cs = "[1, 1, 1, 1]" and z = 11]
    unfolding S by simp
  ultimately show ?thesis using S run unfolding val by blast
qed

end
