(* ===== verification/Da_Sampling.thy ===== *)
theory Da_Sampling
  imports Crypto_Kzg State_Merkle Storage_Blocks
begin

unbundle bit_operations_syntax

text \<open>
  Data availability (\<open>crates/da\<close>): padding and erasure coding (\<open>rs.rs\<close>), chunks of a
  block body (\<open>chunk.rs\<close>), the commitment to the chunks (\<open>root.rs\<close>) and sampling by
  light nodes (\<open>das.rs\<close>). The Reed-Solomon code is that of its crate and enters as
  a record of operations with the laws \<open>rs_laws\<close>. The lemmas show that any four of
  the six chunks give the block back, and that sampling answers available only
  for three distinct chunks of the commitment.
\<close>

section \<open>Definitions\<close>

subsection \<open>Erasure coding (rs.rs)\<close>

type_synonym u16 = "16 word"

text \<open>The operations of the crate for \<open>k\<close> data and \<open>m\<close> parity shards; \<open>None\<close> is its error.\<close>

record RsCode =
  rs_new :: "nat \<Rightarrow> nat \<Rightarrow> bool"
  rs_fill :: "nat \<Rightarrow> nat \<Rightarrow> bytes list \<Rightarrow> bytes list option"
  rs_recover :: "nat \<Rightarrow> nat \<Rightarrow> bytes option list \<Rightarrow> bytes option list option"

datatype RsError = RsParams | RsReconstruct

definition pad_len :: "nat \<Rightarrow> nat \<Rightarrow> nat" where
  "pad_len data_len k =
    (let body = 8 + data_len; rem = body mod k in if rem = 0 then body else body + (k - rem))"

definition rs_encode :: "RsCode \<Rightarrow> bytes \<Rightarrow> nat \<Rightarrow> nat \<Rightarrow> (bytes list, RsError) result" where
  "rs_encode R data k m =
    (if k = 0 \<or> m = 0 then Err RsParams
     else let total = pad_len (length data) k; shard_len = total div k;
              buf = u64_be (of_nat (length data)) @ data @ replicate (total - (8 + length data)) 0;
              shards = map (\<lambda>i. slice (i * shard_len) ((i + 1) * shard_len) buf) [0..<k] @
                replicate m (replicate shard_len 0)
          in if \<not> rs_new R k m then Err RsParams else ok_or RsReconstruct (rs_fill R k m shards))"

definition rs_decode :: "RsCode \<Rightarrow> bytes option list \<Rightarrow> nat \<Rightarrow> nat \<Rightarrow> (bytes, RsError) result" where
  "rs_decode R shards k m =
    (if k = 0 \<or> m = 0 then Err RsParams
     else if \<not> rs_new R k m then Err RsParams
     else and_then (ok_or RsReconstruct (rs_recover R k m shards)) (\<lambda>working.
       if None \<in> set (take k working) then Err RsReconstruct
       else let buf = concat (map the (take k working)) in
         if length buf < 8 then Err RsReconstruct
         else let len = unat (u64_from_be (slice 0 8 buf)); rest = drop 8 buf in
           if len > length rest then Err RsReconstruct else Ok (take len rest)))"

subsection \<open>Chunks (chunk.rs)\<close>

definition DATA_SHARDS :: nat where "DATA_SHARDS = 4"
definition PARITY_SHARDS :: nat where "PARITY_SHARDS = 2"

record DaShard =
  sh_index :: u16
  sh_payload :: bytes

datatype ChunkError = ChunkRs RsError | BadBody | Width nat nat

definition da_split :: "RsCode \<Rightarrow> Block \<Rightarrow> (DaShard list, ChunkError) result" where
  "da_split R block =
    and_then (map_err ChunkRs (rs_encode R (encode_block_body block) DATA_SHARDS PARITY_SHARDS)) (\<lambda>shards.
      Ok (map (\<lambda>(i, payload). \<lparr>sh_index = of_nat i, sh_payload = payload\<rparr>) (enumerate 0 shards)))"

definition da_reconstruct :: "RsCode \<Rightarrow> bytes option list \<Rightarrow> (Block, ChunkError) result" where
  "da_reconstruct R slots =
    (let n = DATA_SHARDS + PARITY_SHARDS in
     if length slots \<noteq> n then Err (Width n (length slots))
     else and_then (map_err ChunkRs (rs_decode R slots DATA_SHARDS PARITY_SHARDS)) (\<lambda>bytes.
       map_err (\<lambda>_. BadBody) (decode_block_body bytes)))"

definition leaf_bytes :: "DaShard \<Rightarrow> bytes" where
  "leaf_bytes shard = be_nat 2 (unat (sh_index shard)) @ sh_payload shard"

subsection \<open>The commitment (root.rs)\<close>

definition KZG_SRS_DEGREE :: nat where "KZG_SRS_DEGREE = 16"
definition KZG_SRS_SEED :: bytes where "KZG_SRS_SEED = ascii ''l1-da-kzg-toy-srs''"

record DaRoot =
  dr_merkle :: Hash
  dr_kzg :: bytes
  dr_data_shards :: nat
  dr_parity_shards :: nat

record ProvenChunk =
  pc_shard :: DaShard
  pc_proof :: MerkleProof

datatype RootError = RChunk ChunkError | RKzg KzgError | RProof

definition da_leaves :: "DaShard list \<Rightarrow> bytes list" where
  "da_leaves shards = map leaf_bytes shards"

definition chunk_hash_fr :: "('f, 'g, 'h, 't) Curve \<Rightarrow> (bytes \<Rightarrow> Hash) \<Rightarrow> bytes \<Rightarrow> 'f" where
  "chunk_hash_fr C H leaf = cv_fr_from_le C (hash_to_array H leaf)"

text \<open>The loop that attaches the proofs.\<close>

fun prove_chunks ::
  "(bytes \<Rightarrow> Hash) \<Rightarrow> bytes list \<Rightarrow> nat \<Rightarrow> DaShard list \<Rightarrow> (ProvenChunk list, RootError) result" where
  "prove_chunks H leaf_set i [] = Ok []"
| "prove_chunks H leaf_set i (shard # shards) =
    and_then (ok_or RProof (merkle_prove H leaf_set i)) (\<lambda>p.
    and_then (prove_chunks H leaf_set (Suc i) shards) (\<lambda>rest.
      Ok (\<lparr>pc_shard = shard, pc_proof = p\<rparr> # rest)))"

definition da_commit ::
  "('f::field, 'g, 'h, 't) Curve \<Rightarrow> (bytes \<Rightarrow> Hash) \<Rightarrow> RsCode \<Rightarrow> Block \<Rightarrow> (DaRoot \<times> ProvenChunk list, RootError) result" where
  "da_commit C H R block =
    and_then (map_err RChunk (da_split R block)) (\<lambda>shards.
      let leaf_set = da_leaves shards;
          merkle = compute_root H leaf_set;
          coeffs = map (chunk_hash_fr C H) leaf_set
      in and_then (map_err RKzg (kzg_setup C H KZG_SRS_DEGREE KZG_SRS_SEED)) (\<lambda>srs.
         and_then (map_err RKzg (kzg_commit C srs coeffs)) (\<lambda>kzg.
         and_then (prove_chunks H leaf_set 0 shards) (\<lambda>proven.
           Ok (\<lparr>dr_merkle = merkle, dr_kzg = kzg, dr_data_shards = DATA_SHARDS, dr_parity_shards = PARITY_SHARDS\<rparr>,
               proven)))))"

definition verify_chunk :: "(bytes \<Rightarrow> Hash) \<Rightarrow> DaRoot \<Rightarrow> ProvenChunk \<Rightarrow> bool" where
  "verify_chunk H root proven = merkle_verify H (leaf_bytes (pc_shard proven)) (pc_proof proven) (dr_merkle root)"

subsection \<open>Sampling (das.rs)\<close>

definition SAMPLE_COUNT :: nat where "SAMPLE_COUNT = 3"

record SampleReport =
  sr_successes :: nat
  sr_queried :: "u16 list"
  sr_required :: nat

datatype Availability = Available | NotAvailable

definition rotate_left7 :: "u64 \<Rightarrow> u64" where
  "rotate_left7 x = push_bit 7 x OR drop_bit 57 x"

definition swap :: "nat \<Rightarrow> nat \<Rightarrow> 'a list \<Rightarrow> 'a list" where
  "swap i j xs = xs[i := xs ! j, j := xs ! i]"

text \<open>The loop from the last position \<open>i\<close> down to the second.\<close>

fun shuffle_loop :: "u64 \<Rightarrow> u64 \<Rightarrow> nat \<Rightarrow> u16 list \<Rightarrow> u16 list" where
  "shuffle_loop s0 s1 0 idx = idx"
| "shuffle_loop s0 s1 (Suc i) idx =
    (let s0 = s0 * 0x9e3779b97f4a7c15 + s1;
         s1 = rotate_left7 s1 XOR s0;
         j = unat s0 mod (Suc i + 1)
     in shuffle_loop s0 s1 i (swap (Suc i) j idx))"

definition shuffle_indices :: "nat \<Rightarrow> Hash \<Rightarrow> u16 list" where
  "shuffle_indices n seed =
    (let idx = map of_nat [0..<n mod 65536];
         s0 = u64_from_be (rev (slice 0 8 seed));
         s1 = u64_from_be (rev (slice 8 16 seed));
         s0 = (if s0 = 0 \<and> s1 = 0 then 1 else s0)
     in shuffle_loop s0 s1 (length idx - 1) idx)"

definition sample_indices :: "DaRoot \<Rightarrow> u16 list" where
  "sample_indices root =
    (let n = dr_data_shards root + dr_parity_shards root;
         idx = shuffle_indices n (dr_merkle root)
     in sort (take (min SAMPLE_COUNT n) idx))"

text \<open>\<open>sample\<close>; the trait \<open>ChunkFetch\<close> is the function \<open>fetch\<close>.\<close>

definition da_sample :: "(bytes \<Rightarrow> Hash) \<Rightarrow> DaRoot \<Rightarrow> (u16 \<Rightarrow> ProvenChunk option) \<Rightarrow> SampleReport" where
  "da_sample H root fetch =
    (let queried = sample_indices root;
         successes = foldl (\<lambda>n i. case fetch i of
             Some chunk \<Rightarrow> if sh_index (pc_shard chunk) = i \<and> verify_chunk H root chunk then n + 1 else n
           | None \<Rightarrow> n) 0 queried
     in \<lparr>sr_successes = successes, sr_queried = queried, sr_required = SAMPLE_COUNT\<rparr>)"

definition fail_closed :: "SampleReport \<Rightarrow> Availability" where
  "fail_closed report = (if sr_successes report \<ge> sr_required report then Available else NotAvailable)"

text \<open>\<open>MemoryChunks\<close>, the chunks by index.\<close>

definition from_proven :: "ProvenChunk list \<Rightarrow> ProvenChunk option list" where
  "from_proven chunks =
    (let n = DATA_SHARDS + PARITY_SHARDS
     in foldl (\<lambda>inner c. let i = unat (sh_index (pc_shard c)) in if i < n then inner[i := Some c] else inner)
          (replicate n None) chunks)"

definition withhold :: "ProvenChunk option list \<Rightarrow> u16 list \<Rightarrow> ProvenChunk option list" where
  "withhold inner indices = foldl (\<lambda>inner i. inner[unat i := None]) inner indices"

definition tamper :: "ProvenChunk option list \<Rightarrow> u16 \<Rightarrow> ProvenChunk option list" where
  "tamper inner index =
    (if unat index < length inner then
       case inner ! unat index of
         None \<Rightarrow> inner
       | Some c \<Rightarrow>
           (case sh_payload (pc_shard c) of
              [] \<Rightarrow> inner
            | x # xs \<Rightarrow> inner[unat index := Some (c\<lparr>pc_shard := (pc_shard c)\<lparr>sh_payload := (x XOR 0x5a) # xs\<rparr>\<rparr>)])
     else inner)"

definition mem_fetch :: "ProvenChunk option list \<Rightarrow> u16 \<Rightarrow> ProvenChunk option" where
  "mem_fetch inner index = (if unat index < length inner then inner ! unat index else None)"

section \<open>Laws of the code\<close>

text \<open>
  Filling shards of one positive length keeps the data shards. From any \<open>k\<close>
  shards of the result all come back, and from fewer none do.
\<close>

definition rs_laws :: "RsCode \<Rightarrow> nat \<Rightarrow> nat \<Rightarrow> bool" where
  "rs_laws R k m \<longleftrightarrow> rs_new R k m \<and>
    (\<forall>slots. length (filter (\<lambda>s. s \<noteq> None) slots) < k \<longrightarrow> rs_recover R k m slots = None) \<and>
    (\<forall>shards n. 0 < n \<longrightarrow> length shards = k + m \<longrightarrow> (\<forall>s\<in>set shards. length s = n) \<longrightarrow>
      (\<exists>cw. rs_fill R k m shards = Some cw \<and> length cw = k + m \<and> take k cw = take k shards \<and>
        (\<forall>slots. length slots = k + m \<longrightarrow> (\<forall>i < k + m. slots ! i = None \<or> slots ! i = Some (cw ! i)) \<longrightarrow>
          k \<le> length (filter (\<lambda>s. s \<noteq> None) slots) \<longrightarrow> rs_recover R k m slots = Some (map Some cw))))"

lemma rs_laws_fill:
  assumes "rs_laws R k m" "0 < n" "length shards = k + m" "\<forall>s\<in>set shards. length s = n"
  obtains cw where "rs_fill R k m shards = Some cw" "length cw = k + m" "take k cw = take k shards"
    "\<And>slots. length slots = k + m \<Longrightarrow> \<forall>i < k + m. slots ! i = None \<or> slots ! i = Some (cw ! i) \<Longrightarrow>
      k \<le> length (filter (\<lambda>s. s \<noteq> None) slots) \<Longrightarrow> rs_recover R k m slots = Some (map Some cw)"
  using assms unfolding rs_laws_def by blast

section \<open>Padding and coding\<close>

lemma concat_slices: "k * n \<le> length buf \<Longrightarrow> concat (map (\<lambda>i. slice (i * n) ((i + 1) * n) buf) [0..<k]) = take (k * n) buf"
proof (induction k)
  case (Suc k)
  then have "concat (map (\<lambda>i. slice (i * n) ((i + 1) * n) buf) [0..<k]) = take (k * n) buf" by simp
  moreover have "take (Suc k * n) buf = take (k * n) buf @ take n (drop (k * n) buf)"
    by (simp add: take_add add.commute [of n])
  ultimately show ?case by (simp add: slice_def)
qed simp

lemma pad_len: "0 < k \<Longrightarrow> k * (pad_len n k div k) = pad_len n k \<and> 8 + n \<le> pad_len n k \<and> 0 < pad_len n k div k"
proof -
  assume k: "0 < k"
  have "k dvd pad_len n k"
  proof (cases "(8 + n) mod k = 0")
    case False
    have "(8 + n) mod k \<le> 8 + n" "(8 + n) mod k < k" using k by simp_all
    then have "8 + n + (k - (8 + n) mod k) = (8 + n - (8 + n) mod k) + k" by linarith
    moreover have "k dvd (8 + n - (8 + n) mod k) + k" by (intro dvd_add dvd_minus_mod dvd_refl)
    ultimately show ?thesis using False by (simp add: pad_len_def Let_def)
  qed (auto simp: pad_len_def Let_def)
  then have "k * (pad_len n k div k) = pad_len n k" by simp
  moreover have le: "8 + n \<le> pad_len n k" by (simp add: pad_len_def Let_def)
  moreover from calculation have "0 < pad_len n k div k" by (cases "pad_len n k div k") auto
  ultimately show ?thesis by blast
qed

text \<open>The shards before coding.\<close>

definition plain_shards :: "bytes \<Rightarrow> nat \<Rightarrow> bytes list" where
  "plain_shards data k =
    (let total = pad_len (length data) k; n = total div k
     in map (\<lambda>i. slice (i * n) ((i + 1) * n) (u64_be (of_nat (length data)) @ data @ replicate (total - (8 + length data)) 0)) [0..<k])"

lemma plain_shards:
  assumes "0 < k"
  shows "length (plain_shards data k) = k" "\<forall>s\<in>set (plain_shards data k). length s = pad_len (length data) k div k"
    "concat (plain_shards data k) =
      u64_be (of_nat (length data)) @ data @ replicate (pad_len (length data) k - (8 + length data)) 0"
proof -
  let ?n = "pad_len (length data) k div k"
  let ?buf = "u64_be (of_nat (length data)) @ data @ replicate (pad_len (length data) k - (8 + length data)) 0"
  have len: "length ?buf = k * ?n" using pad_len [OF assms, of "length data"] by simp
  show "length (plain_shards data k) = k" by (simp add: plain_shards_def Let_def)
  have "length (slice (i * ?n) ((i + 1) * ?n) ?buf) = ?n" if "i < k" for i
  proof -
    have "(i + 1) * ?n \<le> k * ?n" using that by (intro mult_right_mono) simp_all
    then show ?thesis unfolding slice_def length_take length_drop len by simp
  qed
  then show "\<forall>s\<in>set (plain_shards data k). length s = ?n" by (auto simp: plain_shards_def Let_def)
  show "concat (plain_shards data k) = ?buf"
    unfolding plain_shards_def Let_def using concat_slices [of k ?n ?buf] len by simp
qed

lemma rs_roundtrip:
  assumes laws: "rs_laws R k m" and k: "0 < k" "0 < m" and len: "length data < 2 ^ 64"
  obtains cw where "rs_encode R data k m = Ok cw" "length cw = k + m"
    "\<And>slots. length slots = k + m \<Longrightarrow> \<forall>i < k + m. slots ! i = None \<or> slots ! i = Some (cw ! i) \<Longrightarrow>
      k \<le> length (filter (\<lambda>s. s \<noteq> None) slots) \<Longrightarrow> rs_decode R slots k m = Ok data"
proof -
  let ?n = "pad_len (length data) k div k"
  let ?shards = "plain_shards data k @ replicate m (replicate ?n 0)"
  note P = plain_shards [OF k(1), of data]
  have all: "length ?shards = k + m" "\<forall>s\<in>set ?shards. length s = ?n" using P(1,2) by auto
  have pos: "0 < ?n" using pad_len [OF k(1)] by blast
  obtain cw where cw: "rs_fill R k m ?shards = Some cw" "length cw = k + m" "take k cw = plain_shards data k"
    "\<And>slots. length slots = k + m \<Longrightarrow> \<forall>i < k + m. slots ! i = None \<or> slots ! i = Some (cw ! i) \<Longrightarrow>
      k \<le> length (filter (\<lambda>s. s \<noteq> None) slots) \<Longrightarrow> rs_recover R k m slots = Some (map Some cw)"
    using rs_laws_fill [OF laws pos all] P(1) by auto
  have "rs_encode R data k m = Ok cw"
    using laws k cw(1) by (simp add: rs_encode_def rs_laws_def plain_shards_def Let_def ok_or_def)
  moreover have "rs_decode R slots k m = Ok data" if "rs_recover R k m slots = Some (map Some cw)" for slots
  proof -
    have "map the (take k (map Some cw)) = plain_shards data k" "None \<notin> set (take k (map Some cw))"
      using cw(3) by (auto simp: take_map comp_def)
    moreover have "unat (u64_from_be (u64_be (of_nat (length data)))) = length data"
      using len by (simp add: unat_of_nat)
    ultimately show ?thesis
      using laws k that by (simp add: rs_decode_def rs_laws_def ok_or_def Let_def P(3) slice_def)
  qed
  ultimately show thesis using that cw(2,4) by blast
qed

section \<open>Reconstruction\<close>

lemma shard_counts: "DATA_SHARDS + PARITY_SHARDS = 6" "0 < DATA_SHARDS" "0 < PARITY_SHARDS"
  by (simp_all add: DATA_SHARDS_def PARITY_SHARDS_def)

lemma length_encode_block_body: "wf_body b \<Longrightarrow> length (encode_block_body b) < 2 ^ 64"
  by (simp add: encode_block_body_def Let_def length_canonical_encode wf_body_def)

lemma split_reconstruct:
  assumes laws: "rs_laws R DATA_SHARDS PARITY_SHARDS" and b: "wf_body b"
  obtains shards where "da_split R b = Ok shards" "length shards = 6" "\<And>i. i < 6 \<Longrightarrow> sh_index (shards ! i) = of_nat i"
    "\<And>slots. length slots = 6 \<Longrightarrow> \<forall>i < 6. slots ! i = None \<or> slots ! i = Some (sh_payload (shards ! i)) \<Longrightarrow>
      DATA_SHARDS \<le> length (filter (\<lambda>s. s \<noteq> None) slots) \<Longrightarrow> da_reconstruct R slots = Ok b"
proof -
  obtain cw where cw: "rs_encode R (encode_block_body b) DATA_SHARDS PARITY_SHARDS = Ok cw" "length cw = 6"
    "\<And>slots. length slots = 6 \<Longrightarrow> \<forall>i < 6. slots ! i = None \<or> slots ! i = Some (cw ! i) \<Longrightarrow>
      DATA_SHARDS \<le> length (filter (\<lambda>s. s \<noteq> None) slots) \<Longrightarrow>
      rs_decode R slots DATA_SHARDS PARITY_SHARDS = Ok (encode_block_body b)"
    using rs_roundtrip [OF laws shard_counts(2,3) length_encode_block_body [OF b]] unfolding shard_counts(1) by metis
  define shards where "shards = map (\<lambda>(i, payload). \<lparr>sh_index = of_nat i, sh_payload = payload\<rparr>) (enumerate 0 cw)"
  have nth: "shards ! i = \<lparr>sh_index = of_nat i, sh_payload = cw ! i\<rparr>" if "i < 6" for i
    using that cw(2) by (simp add: shards_def nth_enumerate_eq)
  show thesis
  proof (rule that)
    show "da_split R b = Ok shards" using cw(1) by (simp add: da_split_def shards_def)
    show "length shards = 6" using cw(2) by (simp add: shards_def)
    show "sh_index (shards ! i) = of_nat i" if "i < 6" for i using nth [OF that] by simp
    show "da_reconstruct R slots = Ok b"
      if "length slots = 6" "\<forall>i < 6. slots ! i = None \<or> slots ! i = Some (sh_payload (shards ! i))"
        "DATA_SHARDS \<le> length (filter (\<lambda>s. s \<noteq> None) slots)" for slots
      using cw(3) [OF that(1) _ that(3)] that(1,2) nth decode_block_body_encode [OF b]
      by (simp add: da_reconstruct_def shard_counts)
  qed
qed

text \<open>
  C31. Reconstruction of a block from its chunks. Any block with a well-formed body
  is cut into six shards numbered from 0. From any four of them, in their slots,
  the block is reconstructed exactly. From fewer than four shards reconstruction
  fails, and a list that does not have six slots is refused with both widths.
\<close>

theorem da_reconstruct_any_four:
  assumes "rs_laws R DATA_SHARDS PARITY_SHARDS" "wf_body b"
  shows "\<exists>shards. da_split R b = Ok shards \<and> map sh_index shards = map of_nat [0..<6] \<and>
    (\<forall>slots.
      (length slots \<noteq> 6 \<longrightarrow> da_reconstruct R slots = Err (Width 6 (length slots))) \<and>
      (length slots = 6 \<and> length (filter (\<lambda>s. s \<noteq> None) slots) < 4 \<longrightarrow>
        da_reconstruct R slots = Err (ChunkRs RsReconstruct)) \<and>
      (length slots = 6 \<and> length (filter (\<lambda>s. s \<noteq> None) slots) \<ge> 4 \<and>
        (\<forall>i < 6. slots ! i = None \<or> slots ! i = Some (sh_payload (shards ! i))) \<longrightarrow>
        da_reconstruct R slots = Ok b))"
proof -
  obtain shards where S: "da_split R b = Ok shards" "length shards = 6" "\<And>i. i < 6 \<Longrightarrow> sh_index (shards ! i) = of_nat i"
    "\<And>slots. length slots = 6 \<Longrightarrow> \<forall>i < 6. slots ! i = None \<or> slots ! i = Some (sh_payload (shards ! i)) \<Longrightarrow>
      DATA_SHARDS \<le> length (filter (\<lambda>s. s \<noteq> None) slots) \<Longrightarrow> da_reconstruct R slots = Ok b"
    by (rule split_reconstruct [OF assms]) blast
  have few: "da_reconstruct R slots = Err (ChunkRs RsReconstruct)"
    if "length slots = 6" "length (filter (\<lambda>s. s \<noteq> None) slots) < 4" for slots
    using assms(1) that shard_counts
    by (simp add: da_reconstruct_def rs_decode_def rs_laws_def ok_or_def DATA_SHARDS_def)
  have "map sh_index shards = map of_nat [0..<6]" using S(2,3) by (intro nth_equalityI) simp_all
  moreover have "da_reconstruct R slots = Err (Width 6 (length slots))" if "length slots \<noteq> 6" for slots
    using that shard_counts by (simp add: da_reconstruct_def)
  ultimately show ?thesis using S(1,4) few unfolding DATA_SHARDS_def by (intro exI [of _ shards]) (simp add: not_less)
qed

text \<open>A code whose parity shards repeat all the data.\<close>

definition toy_rs :: RsCode where
  "toy_rs = \<lparr>rs_new = (\<lambda>k m. True),
    rs_fill = (\<lambda>k m shards. Some (take k shards @ replicate m (concat (take k shards)))),
    rs_recover = (\<lambda>k m slots.
      if length (filter (\<lambda>s. s \<noteq> None) slots) < k then None
      else let data = (if None \<notin> set (take k slots) then map the (take k slots)
             else let p = the (hd (filter (\<lambda>s. s \<noteq> None) (drop k slots))); n = length p div k
               in map (\<lambda>i. slice (i * n) ((i + 1) * n) p) [0..<k])
        in Some (map Some (data @ replicate m (concat data))))\<rparr>"

lemma concat_equal_lengths:
  assumes "\<forall>x\<in>set xs. length x = n" "i < length xs"
  shows "slice (i * n) ((i + 1) * n) (concat xs) = xs ! i" "length (concat xs) = length xs * n"
proof -
  have len: "length (concat ys) = length ys * n" if "\<forall>x\<in>set ys. length x = n" for ys :: "'a list list"
    using that by (induction ys) auto
  then show "length (concat xs) = length xs * n" using assms(1) by blast
  have "concat xs = concat (take i xs) @ xs ! i @ concat (drop (Suc i) xs)"
    using arg_cong [OF id_take_nth_drop [OF assms(2)], of concat] unfolding concat_append concat.simps .
  moreover have "length (concat (take i xs)) = i * n"
    using len [of "take i xs"] assms by (auto dest: in_set_takeD)
  moreover have "length (xs ! i) = n" "(i + 1) * n - i * n = n" using assms by simp_all
  ultimately show "slice (i * n) ((i + 1) * n) (concat xs) = xs ! i" unfolding slice_def by simp
qed

lemma toy_rs_recover:
  assumes n: "0 < n" and d: "length d = 4" "\<forall>x\<in>set d. length x = n"
    and slots: "length slots = 6" "\<forall>i < 6. slots ! i = None \<or> slots ! i = Some ((d @ replicate 2 (concat d)) ! i)"
    and count: "4 \<le> length (filter (\<lambda>s. s \<noteq> None) slots)"
  shows "rs_recover toy_rs 4 2 slots = Some (map Some (d @ replicate 2 (concat d)))"
proof (cases "None \<in> set (take 4 slots)")
  case False
  have "map the (take 4 slots) = d"
  proof (rule nth_equalityI)
    fix i assume "i < length (map the (take 4 slots))"
    then have i: "i < 4" by simp
    then have "slots ! i \<in> set (take 4 slots)" using slots(1) nth_mem [of i "take 4 slots"] by simp
    then have "slots ! i \<noteq> None" using False by metis
    moreover have "slots ! i = None \<or> slots ! i = Some (d ! i)" using slots(2) [rule_format, of i] i d(1) by (simp add: nth_append)
    ultimately show "map the (take 4 slots) ! i = d ! i" using i slots(1) by auto
  qed (use slots(1) d(1) in simp)
  then show ?thesis using False count by (simp add: toy_rs_def)
next
  case True
  have all: "filter (\<lambda>s. s \<noteq> None) slots = filter (\<lambda>s. s \<noteq> None) (take 4 slots) @ filter (\<lambda>s. s \<noteq> None) (drop 4 slots)"
    by (metis append_take_drop_id filter_append)
  have "length (filter (\<lambda>s. s \<noteq> None) (take 4 slots)) < length (take 4 slots)"
    using True by (intro length_filter_less [of None]) auto
  then have ne: "filter (\<lambda>s. s \<noteq> None) (drop 4 slots) \<noteq> []" using count slots(1) unfolding all by auto
  have "x = Some (concat d)" if "x \<in> set (filter (\<lambda>s. s \<noteq> None) (drop 4 slots))" for x
  proof -
    have "x \<in> set (drop 4 slots)" "x \<noteq> None" using that unfolding set_filter by blast+
    moreover from this(1) obtain i where "i < 2" "x = slots ! (4 + i)"
      unfolding in_set_conv_nth using slots(1) by auto
    moreover from this have "slots ! (4 + i) = None \<or> slots ! (4 + i) = Some (concat d)"
      using slots(2) [rule_format, of "4 + i"] d(1) by (simp add: nth_append)
    ultimately show ?thesis by auto
  qed
  then have p: "hd (filter (\<lambda>s. s \<noteq> None) (drop 4 slots)) = Some (concat d)" using ne list.set_sel(1) by blast
  have len: "length (concat d) div 4 = n" using concat_equal_lengths(2) [OF d(2), of 0] d(1) by simp
  have "map (\<lambda>i. slice (i * n) ((i + 1) * n) (concat d)) [0..<4] = d"
    using concat_equal_lengths(1) [OF d(2)] d(1) by (intro nth_equalityI) simp_all
  then show ?thesis using True count p len by (simp add: toy_rs_def Let_def)
qed

lemma toy_rs_laws: "rs_laws toy_rs DATA_SHARDS PARITY_SHARDS"
proof -
  have "\<exists>cw. rs_fill toy_rs 4 2 shards = Some cw \<and> length cw = 4 + 2 \<and> take 4 cw = take 4 shards \<and>
      (\<forall>slots. length slots = 4 + 2 \<longrightarrow> (\<forall>i < 4 + 2. slots ! i = None \<or> slots ! i = Some (cw ! i)) \<longrightarrow>
        4 \<le> length (filter (\<lambda>s. s \<noteq> None) slots) \<longrightarrow> rs_recover toy_rs 4 2 slots = Some (map Some cw))"
    if "0 < n" "length shards = 4 + 2" "\<forall>s\<in>set shards. length s = n" for shards n
  proof -
    have "rs_fill toy_rs 4 2 shards = Some (take 4 shards @ replicate 2 (concat (take 4 shards)))" by (simp add: toy_rs_def)
    moreover have "length (take 4 shards) = 4" "\<forall>s\<in>set (take 4 shards). length s = n"
      using that by (auto dest: in_set_takeD)
    ultimately show ?thesis using toy_rs_recover [OF that(1), of "take 4 shards"] by simp
  qed
  moreover have "rs_new toy_rs 4 2" "\<forall>slots. length (filter (\<lambda>s. s \<noteq> None) slots) < 4 \<longrightarrow> rs_recover toy_rs 4 2 slots = None"
    by (simp_all add: toy_rs_def)
  ultimately show ?thesis unfolding rs_laws_def DATA_SHARDS_def PARITY_SHARDS_def by blast
qed

theorem da_reconstruct_any_four_witness:
  "\<exists>shards. da_split toy_rs (example_block 4) = Ok shards \<and>
    da_reconstruct toy_rs [None, Some (sh_payload (shards ! 1)), None, Some (sh_payload (shards ! 3)),
      Some (sh_payload (shards ! 4)), Some (sh_payload (shards ! 5))] = Ok (example_block 4) \<and>
    da_reconstruct toy_rs [Some [1], None, None, None, None, Some [2]] = Err (ChunkRs RsReconstruct) \<and>
    da_reconstruct toy_rs [] = Err (Width 6 0)"
proof -
  obtain shards where S: "da_split toy_rs (example_block 4) = Ok shards"
    "\<And>slots. length slots \<noteq> 6 \<Longrightarrow> da_reconstruct toy_rs slots = Err (Width 6 (length slots))"
    "\<And>slots. length slots = 6 \<and> length (filter (\<lambda>s. s \<noteq> None) slots) < 4 \<Longrightarrow>
      da_reconstruct toy_rs slots = Err (ChunkRs RsReconstruct)"
    "\<And>slots. length slots = 6 \<and> length (filter (\<lambda>s. s \<noteq> None) slots) \<ge> 4 \<and>
      (\<forall>i < 6. slots ! i = None \<or> slots ! i = Some (sh_payload (shards ! i))) \<Longrightarrow>
      da_reconstruct toy_rs slots = Ok (example_block 4)"
    using da_reconstruct_any_four [OF toy_rs_laws example_wf(2) [of 4]] by blast
  have six: "(\<forall>i < 6. P i) = (P 0 \<and> P 1 \<and> P 2 \<and> P 3 \<and> P 4 \<and> P (5 :: nat))" for P
    by (auto simp: numeral_eq_Suc All_less_Suc)
  show ?thesis
    using S(1) S(2) [of "[]"] S(3) [of "[Some [1], None, None, None, None, Some [2]]"]
      S(4) [of "[None, Some (sh_payload (shards ! 1)), None, Some (sh_payload (shards ! 3)),
        Some (sh_payload (shards ! 4)), Some (sh_payload (shards ! 5))]"]
    by (simp add: six)
qed

section \<open>Sampling\<close>

lemma shuffle_loop_same:
  "i < length idx \<or> i = 0 \<Longrightarrow> set (shuffle_loop s0 s1 i idx) = set idx \<and>
    length (shuffle_loop s0 s1 i idx) = length idx \<and> (distinct (shuffle_loop s0 s1 i idx) \<longleftrightarrow> distinct idx)"
proof (induction s0 s1 i idx rule: shuffle_loop.induct)
  case (2 s0 s1 i idx)
  define t where "t = s0 * 0x9e3779b97f4a7c15 + s1"
  let ?j = "unat t mod (Suc i + 1)"
  have "?j < Suc i + 1" by (rule mod_less_divisor) simp
  then have j: "Suc i < length idx" "?j < length idx" using 2(2) by linarith+
  have "set (swap (Suc i) ?j idx) = set idx" "distinct (swap (Suc i) ?j idx) = distinct idx"
    unfolding swap_def by (rule set_swap [OF j], rule distinct_swap [OF j])
  moreover have "length (swap (Suc i) ?j idx) = length idx" by (simp add: swap_def)
  ultimately show ?case
    using 2(1) [OF t_def refl refl] 2(2) by (simp only: shuffle_loop.simps Let_def t_def [symmetric]) simp
qed simp

lemma sample_indices_spec:
  assumes "dr_data_shards root + dr_parity_shards root = 6"
  shows "distinct (sample_indices root) \<and> length (sample_indices root) = 3 \<and> (\<forall>i\<in>set (sample_indices root). unat i < 6)"
proof -
  let ?idx = "map of_nat [0..<6] :: u16 list"
  have "distinct ?idx" "length ?idx = 6" "\<forall>i\<in>set ?idx. unat i < 6" by (simp_all add: upt_rec)
  moreover obtain s0 s1 where shuffled: "shuffle_indices 6 (dr_merkle root) = shuffle_loop s0 s1 5 ?idx"
    by (simp add: shuffle_indices_def Let_def)
  ultimately have "distinct (shuffle_indices 6 (dr_merkle root))" "length (shuffle_indices 6 (dr_merkle root)) = 6"
    "\<forall>i\<in>set (shuffle_indices 6 (dr_merkle root)). unat i < 6"
    using shuffle_loop_same [of 5 ?idx s0 s1] by simp_all
  then show ?thesis
    using assms by (auto simp: sample_indices_def Let_def SAMPLE_COUNT_def dest: in_set_takeD)
qed

text \<open>The check a sampled chunk passes.\<close>

definition sampled_ok :: "(bytes \<Rightarrow> Hash) \<Rightarrow> DaRoot \<Rightarrow> (u16 \<Rightarrow> ProvenChunk option) \<Rightarrow> u16 \<Rightarrow> bool" where
  "sampled_ok H root fetch i \<longleftrightarrow>
    (case fetch i of None \<Rightarrow> False | Some c \<Rightarrow> sh_index (pc_shard c) = i \<and> verify_chunk H root c)"

lemma count_samples:
  "foldl (\<lambda>n i. case fetch i of
       Some chunk \<Rightarrow> if sh_index (pc_shard chunk) = i \<and> verify_chunk H root chunk then n + 1 else n
     | None \<Rightarrow> n) n queried = n + length (filter (sampled_ok H root fetch) queried)"
  by (induction queried arbitrary: n) (simp_all add: sampled_ok_def split: option.split)

lemma available_iff:
  assumes "dr_data_shards root + dr_parity_shards root = 6"
  shows "fail_closed (da_sample H root fetch) = Available \<longleftrightarrow> (\<forall>i\<in>set (sample_indices root). sampled_ok H root fetch i)"
proof -
  have len: "length (sample_indices root) = 3" using sample_indices_spec [OF assms] by blast
  have "3 \<le> length (filter P xs) \<longleftrightarrow> (\<forall>x\<in>set xs. P x)" if "length xs = 3" for P and xs :: "u16 list"
  proof
    assume "3 \<le> length (filter P xs)"
    then show "\<forall>x\<in>set xs. P x" using that length_filter_less [of _ xs P] by force
  qed (use that in simp)
  from this [OF len] show ?thesis by (simp add: fail_closed_def da_sample_def Let_def count_samples SAMPLE_COUNT_def)
qed

lemma prove_chunks_Ok:
  "i + length shards \<le> length leaf_set \<Longrightarrow> \<exists>proven. prove_chunks H leaf_set i shards = Ok proven \<and>
    map pc_shard proven = shards \<and> (\<forall>k < length shards. merkle_prove H leaf_set (i + k) = Some (pc_proof (proven ! k)))"
proof (induction shards arbitrary: i)
  case (Cons shard shards)
  obtain proven where "prove_chunks H leaf_set (Suc i) shards = Ok proven" "map pc_shard proven = shards"
    "\<forall>k < length shards. merkle_prove H leaf_set (Suc i + k) = Some (pc_proof (proven ! k))"
    using Cons.IH [of "Suc i"] Cons.prems by auto
  moreover obtain p where "merkle_prove H leaf_set i = Some p"
    using merkle_complete [of i leaf_set H] Cons.prems by auto
  ultimately show ?case by (auto simp: ok_or_def nth_Cons split: nat.split)
qed simp

lemma leaf_bytes_inject: "leaf_bytes s = leaf_bytes t \<Longrightarrow> s = t"
proof -
  assume "leaf_bytes s = leaf_bytes t"
  then have "be_nat 2 (unat (sh_index s)) = be_nat 2 (unat (sh_index t))" "sh_payload s = sh_payload t"
    by (simp_all add: leaf_bytes_def)
  moreover from this(1) have "unat (sh_index s) mod 256 ^ 2 = unat (sh_index t) mod 256 ^ 2"
    using from_be_be_nat by metis
  moreover have "unat (w :: u16) < 256 ^ 2" for w using unsigned_less [of w, where 'a = nat] by simp
  ultimately show "s = t" by (intro DaShard.equality) (simp_all add: word_unat_eq_iff)
qed

text \<open>What a commitment to a block consists of.\<close>

lemma commit_Ok:
  assumes "rs_laws R DATA_SHARDS PARITY_SHARDS" "curve_laws C" "wf_body b"
  obtains root proven where "da_commit C H R b = Ok (root, proven)" "da_split R b = Ok (map pc_shard proven)"
    "length proven = 6" "\<And>i. i < 6 \<Longrightarrow> sh_index (pc_shard (proven ! i)) = of_nat i"
    "dr_data_shards root + dr_parity_shards root = 6" "dr_merkle root = compute_root H (da_leaves (map pc_shard proven))"
    "\<And>i. i < 6 \<Longrightarrow> verify_chunk H root (proven ! i)"
proof -
  obtain shards where S: "da_split R b = Ok shards" "length shards = 6" "\<And>i. i < 6 \<Longrightarrow> sh_index (shards ! i) = of_nat i"
    by (rule split_reconstruct [OF assms(1,3)]) blast
  let ?leaves = "da_leaves shards"
  have len: "length ?leaves = 6" using S(2) by (simp add: da_leaves_def)
  obtain srs where srs: "kzg_setup C H KZG_SRS_DEGREE KZG_SRS_SEED = Ok srs"
    by (simp add: kzg_setup_def KZG_SRS_DEGREE_def Let_def)
  obtain kzg where kzg: "kzg_commit C srs (map (chunk_hash_fr C H) ?leaves) = Ok kzg"
    using commit_setup [OF assms(2) srs] len by (simp add: KZG_SRS_DEGREE_def)
  obtain proven where P: "prove_chunks H ?leaves 0 shards = Ok proven" "map pc_shard proven = shards"
    "\<forall>k < 6. merkle_prove H ?leaves k = Some (pc_proof (proven ! k))"
    using prove_chunks_Ok [of 0 shards ?leaves H] len S(2) by auto
  let ?root = "\<lparr>dr_merkle = compute_root H ?leaves, dr_kzg = kzg, dr_data_shards = DATA_SHARDS, dr_parity_shards = PARITY_SHARDS\<rparr>"
  have n: "length proven = 6" using P(2) S(2) by (metis length_map)
  have shard: "pc_shard (proven ! i) = shards ! i" if "i < 6" for i using that P(2) n by (metis nth_map)
  have ok: "verify_chunk H ?root (proven ! i)" if "i < 6" for i
    using merkle_complete [of i ?leaves H] that len P(3) S(2) shard [OF that]
    by (auto simp: verify_chunk_def da_leaves_def)
  have "da_commit C H R b = Ok (?root, proven)" using S(1) srs kzg P(1) by (simp add: da_commit_def Let_def)
  then show thesis using that [of ?root proven] S(1,3) P(2) n shard ok shard_counts(1) by simp
qed

lemma from_proven_nth:
  assumes "length proven = 6" "\<And>i. i < 6 \<Longrightarrow> sh_index (pc_shard (proven ! i)) = of_nat i"
  shows "from_proven proven = map Some proven"
proof -
  obtain c0 c1 c2 c3 c4 c5 where p: "proven = [c0, c1, c2, c3, c4, c5]"
    using assms(1) by (auto simp: numeral_eq_Suc length_Suc_conv)
  have "sh_index (pc_shard c0) = 0" "sh_index (pc_shard c1) = 1" "sh_index (pc_shard c2) = 2"
    "sh_index (pc_shard c3) = 3" "sh_index (pc_shard c4) = 4" "sh_index (pc_shard c5) = 5"
    using assms(2) [of 0] assms(2) [of 1] assms(2) [of 2] assms(2) [of 3] assms(2) [of 4] assms(2) [of 5] by (simp_all add: p)
  moreover have "replicate 6 None = [None, None, None, None, None, None :: ProvenChunk option]" by (simp add: numeral_eq_Suc)
  ultimately show ?thesis unfolding p from_proven_def shard_counts(1) Let_def by simp
qed

lemma fetch_withheld:
  "unat i < length inner \<Longrightarrow> mem_fetch (withhold inner ws) i = (if i \<in> set ws then None else inner ! unat i)"
proof -
  assume i: "unat i < length inner"
  have len: "length (withhold inner ws) = length inner" for inner ws
    unfolding withhold_def by (induction ws arbitrary: inner) simp_all
  have "withhold inner ws ! unat i = (if i \<in> set ws then None else inner ! unat i)"
    using i unfolding withhold_def
    by (induction ws arbitrary: inner) (auto simp: nth_list_update word_unat_eq_iff)
  then show ?thesis using i by (simp add: mem_fetch_def len)
qed

lemma chunk_genuine:
  assumes "\<forall>x. length (H x) = 32" "\<forall>s\<in>set (mp_siblings (pc_proof c)). length s = 32" "shards \<noteq> []"
    and "inj_on H (set (tree_inputs H (da_leaves shards)) \<union> set (proof_inputs H (leaf_bytes (pc_shard c)) (pc_proof c)))"
    and "verify_chunk H root c" "dr_merkle root = compute_root H (da_leaves shards)"
  shows "pc_shard c \<in> set shards"
  using merkle_sound [OF assms(1,2) _ assms(4)] assms(3,5,6) leaf_bytes_inject
  by (fastforce simp: verify_chunk_def da_leaves_def)

text \<open>
  C32. Sampling against the commitment to a block. The commitment is always made.
  Three distinct chunks of the six are queried, and only their merkle root chooses
  them. If the answer is available, then a chunk came back for every queried
  index, and without hash collisions it is the chunk of the block at that index.
  With the committed chunks of which some are withheld, the answer is available
  exactly when no queried chunk is withheld.
\<close>

theorem das_sampling:
  assumes "rs_laws R DATA_SHARDS PARITY_SHARDS" "curve_laws C" "wf_body b" "\<forall>x. length (H x) = 32"
  shows "\<exists>root proven. da_commit C H R b = Ok (root, proven) \<and> da_split R b = Ok (map pc_shard proven) \<and>
    distinct (sample_indices root) \<and> length (sample_indices root) = 3 \<and> (\<forall>i\<in>set (sample_indices root). unat i < 6) \<and>
    (\<forall>ws. fail_closed (da_sample H root (mem_fetch (withhold (from_proven proven) ws))) = Available \<longleftrightarrow>
      set ws \<inter> set (sample_indices root) = {}) \<and>
    (\<forall>fetch. fail_closed (da_sample H root fetch) = Available \<longrightarrow> (\<forall>i\<in>set (sample_indices root). \<exists>c. fetch i = Some c \<and>
      ((\<forall>s\<in>set (mp_siblings (pc_proof c)). length s = 32) \<and>
       inj_on H (set (tree_inputs H (da_leaves (map pc_shard proven))) \<union>
         set (proof_inputs H (leaf_bytes (pc_shard c)) (pc_proof c))) \<longrightarrow>
       pc_shard c = pc_shard (proven ! unat i))))"
proof -
  obtain root proven where P: "da_commit C H R b = Ok (root, proven)" "da_split R b = Ok (map pc_shard proven)"
    "length proven = 6" "\<And>i. i < 6 \<Longrightarrow> sh_index (pc_shard (proven ! i)) = of_nat i"
    "dr_data_shards root + dr_parity_shards root = 6" "dr_merkle root = compute_root H (da_leaves (map pc_shard proven))"
    "\<And>i. i < 6 \<Longrightarrow> verify_chunk H root (proven ! i)"
    by (rule commit_Ok [OF assms(1-3), of H]) blast
  note spec = sample_indices_spec [OF P(5)] and avail = available_iff [OF P(5)]
  have held: "sampled_ok H root (mem_fetch (withhold (from_proven proven) ws)) i \<longleftrightarrow> i \<notin> set ws"
    if "i \<in> set (sample_indices root)" for i ws
  proof -
    have "unat i < 6" using that spec by blast
    then show ?thesis
      using fetch_withheld [of i "from_proven proven" ws] from_proven_nth [OF P(3,4)] P(3) P(4) [of "unat i"] P(7)
      by (simp add: sampled_ok_def)
  qed
  have genuine: "pc_shard c = pc_shard (proven ! unat i)"
    if "sh_index (pc_shard c) = i" "verify_chunk H root c" "\<forall>s\<in>set (mp_siblings (pc_proof c)). length s = 32"
      "inj_on H (set (tree_inputs H (da_leaves (map pc_shard proven))) \<union>
         set (proof_inputs H (leaf_bytes (pc_shard c)) (pc_proof c)))" for c i
  proof -
    have "pc_shard c \<in> set (map pc_shard proven)"
      using chunk_genuine [OF assms(4) that(3) _ that(4,2) P(6)] P(3) by fastforce
    then obtain k where k: "k < 6" "pc_shard c = pc_shard (proven ! k)" using P(3) by (auto simp: in_set_conv_nth)
    have "i = of_nat k" using P(4) [OF k(1)] that(1) k(2) by simp
    then have "unat i = k" using k(1) by (simp add: unat_of_nat)
    then show ?thesis using k(2) by simp
  qed
  have withheld: "fail_closed (da_sample H root (mem_fetch (withhold (from_proven proven) ws))) = Available \<longleftrightarrow>
      set ws \<inter> set (sample_indices root) = {}" for ws
    unfolding avail disjoint_iff using held by metis
  have fetched: "\<exists>c. fetch i = Some c \<and> sh_index (pc_shard c) = i \<and> verify_chunk H root c"
    if "fail_closed (da_sample H root fetch) = Available" "i \<in> set (sample_indices root)" for fetch i
    using that(1) [unfolded avail, rule_format, OF that(2)] by (simp add: sampled_ok_def split: option.splits)
  show ?thesis
  proof (intro exI [of _ root] exI [of _ proven] conjI allI)
    fix fetch
    show "fail_closed (da_sample H root fetch) = Available \<longrightarrow> (\<forall>i\<in>set (sample_indices root). \<exists>c. fetch i = Some c \<and>
      ((\<forall>s\<in>set (mp_siblings (pc_proof c)). length s = 32) \<and>
       inj_on H (set (tree_inputs H (da_leaves (map pc_shard proven))) \<union>
         set (proof_inputs H (leaf_bytes (pc_shard c)) (pc_proof c))) \<longrightarrow>
       pc_shard c = pc_shard (proven ! unat i)))"
      using fetched genuine by metis
  qed (use P(1,2) spec withheld in simp_all)
qed

theorem das_sampling_witness:
  "\<exists>root proven. da_commit toy_curve last32 toy_rs (example_block 4) = Ok (root, proven) \<and>
    fail_closed (da_sample last32 root (mem_fetch (withhold (from_proven proven) (sample_indices root)))) = NotAvailable \<and>
    fail_closed (da_sample last32 root (mem_fetch (withhold (from_proven proven)
      (filter (\<lambda>i. i \<notin> set (sample_indices root)) [0, 1, 2, 3, 4, 5])))) = Available"
proof -
  obtain root proven where P: "da_commit toy_curve last32 toy_rs (example_block 4) = Ok (root, proven)"
    "length (sample_indices root) = 3"
    "\<And>ws. fail_closed (da_sample last32 root (mem_fetch (withhold (from_proven proven) ws))) = Available \<longleftrightarrow>
      set ws \<inter> set (sample_indices root) = {}"
    using das_sampling [OF toy_rs_laws toy_curve_laws example_wf(2) [of 4], of last32] by auto
  have "sample_indices root \<noteq> []" using P(2) by auto
  then have "fail_closed (da_sample last32 root (mem_fetch (withhold (from_proven proven) (sample_indices root)))) \<noteq> Available"
    unfolding P(3) by simp
  then have "fail_closed (da_sample last32 root (mem_fetch (withhold (from_proven proven) (sample_indices root)))) = NotAvailable"
    by (cases "fail_closed (da_sample last32 root (mem_fetch (withhold (from_proven proven) (sample_indices root))))") simp_all
  moreover have "fail_closed (da_sample last32 root (mem_fetch (withhold (from_proven proven)
      (filter (\<lambda>i. i \<notin> set (sample_indices root)) [0, 1, 2, 3, 4, 5])))) = Available"
    unfolding P(3) by auto
  ultimately show ?thesis using P(1) by blast
qed

end
