(* ===== verification/Spec2Isabelle.thy ===== *)
theory Spec2Isabelle
  imports Network_Ingest Consensus_Protocol Consensus_Wal Storage_Wal State_Version Exec_Stm Mempool_Queue Light_Client Da_Sampling
begin

text \<open>
  Verification of the L1 chain (\<open>src/crates\<close>): a proof-of-stake blockchain in Rust
  with a voting protocol, an execution engine with contracts and staking, a
  Merkle Patricia state, a chain database, a mempool, data availability and a light
  client.

  \<^bold>\<open>How the parts interact.\<close> Transactions enter the mempool, which checks signature,
  nonce, balance and fee and keeps them by sender and nonce. The proposer takes
  ready transactions, the builder cuts them to the gas and byte limits and executes
  them, sequentially or speculatively, on the world of accounts, contract storage,
  stakes and code. Its roots go into the header of a proposal. Validators prevote and
  precommit; the precommits of more than two thirds of the power make a certificate,
  and the block is written through the log of the chain database. Light clients
  follow headers from a checkpoint, ask for proofs of accounts and sample chunks.

  \<^bold>\<open>Conventions.\<close> Rust integers are words of their width with the checked, saturating or
  wrapping operation the source uses. Byte strings are lists of 8-bit words, hashes,
  addresses and keys byte strings whose length is part of well-formedness. \<open>Result\<close> is
  \<open>result\<close> with the error enums of the sources. \<open>BTreeMap\<close> is an association list sorted
  by key. A panic or an overflow that aborts is the value \<open>None\<close>. Functions that change
  their argument return it. A trait is a record of operations.

  \<^bold>\<open>Theories and sources.\<close>
  \<^item> \<open>Prelude\<close>: machine integers, bytes, results, ordered maps. \<open>Types_Core\<close>,
    \<open>Types_Tx\<close>, \<open>Types_Block\<close> (\<open>crates/types\<close>): constants, identifiers, parameters, the
    frame encoding, Merkle hashing, transactions, blocks, headers and genesis. The
    interfaces \<open>codec\<close> and \<open>canonical\<close> hold the laws of a wire format and are
    interpreted on the frame, on transactions, on headers, signed transactions and
    block bodies, on accounts and on trie nodes.
  \<^item> \<open>Crypto\<close> (\<open>crates/crypto\<close>): domains and the BLS and Ed25519 wrappers. \<open>Crypto_Kzg\<close>
    (\<open>kzg.rs\<close>): setup, commitment, openings; an opening verifies for the value of the
    polynomial and no other.
  \<^item> \<open>Consensus_Vote\<close> (\<open>vote.rs\<close>, \<open>replay.rs\<close>), \<open>Consensus_Qc\<close> (\<open>qc.rs\<close>, the tally of
    \<open>steps.rs\<close>), \<open>Consensus_Leader\<close> (\<open>vrf.rs\<close>, \<open>leader.rs\<close>, \<open>timeout.rs\<close>), \<open>Consensus_Steps\<close>
    (\<open>state.rs\<close>, \<open>propose.rs\<close>, \<open>steps.rs\<close>, \<open>safety.rs\<close>, \<open>checkpoint.rs\<close>), \<open>Network_Ingest\<close>
    (\<open>topics.rs\<close>, \<open>validator_mesh.rs\<close> and the vote wiring of \<open>wire.rs\<close>) and \<open>Consensus_Wal\<close>
    (\<open>wal.rs\<close>, \<open>evidence.rs\<close>). They show that a commit needs a certified quorum, that two
    commits of a round agree, that leaders are elected in proportion to power, that
    the logs exclude equivocation, and what evidence is accepted. The interface
    \<open>weighted_quorums\<close> holds the intersection argument.
  \<^item> \<open>Consensus_Protocol\<close>: a step relation of several validators over any number of
    rounds, with the votes of \<open>prevote_step\<close> and \<open>precommit_step\<close>. Agreement across rounds
    is proved in the interface \<open>lock_history\<close> and holds of every reachable state. The
    driver keeps the lock between rounds, as the steps ask of their caller; the loop in
    \<open>node/src/main.rs\<close> does not, which the findings record.
  \<^item> \<open>Storage_Kv\<close> (\<open>kv.rs\<close>, \<open>memory.rs\<close>), \<open>Storage_Codec\<close> (\<open>codec.rs\<close>), \<open>Storage_Blocks\<close>
    (\<open>blocks.rs\<close>, \<open>index.rs\<close>, \<open>prune.rs\<close>, \<open>snapshot.rs\<close>), \<open>Storage_Wal\<close> (\<open>replay.rs\<close>, \<open>wal.rs\<close>).
    The interface \<open>kv_store\<close> and its extension \<open>reliable_store\<close> hold what clients rely on.
    The lemmas show that blocks are read back and what recovery does for a crash between
    any two single writes of a commit.
  \<^item> \<open>State_Node\<close>, \<open>State_Trie\<close>, \<open>State_Mpt\<close>, \<open>State_Proof\<close> (\<open>mpt\<close> of \<open>crates/state\<close>),
    \<open>State_Merkle\<close> (\<open>merkle.rs\<close>, \<open>root.rs\<close>), \<open>State_Accounts\<close> (\<open>account.rs\<close>, \<open>tries.rs\<close>,
    \<open>expiry.rs\<close>), \<open>State_Version\<close> (\<open>version.rs\<close>). The hash-addressed trie refines the tree of
    \<open>State_Trie\<close>, which refines a finite map; the root determines the contents; proofs
    are complete and sound. The interfaces \<open>keyed_map\<close> and \<open>keyed_map_delete\<close> are
    interpreted on accounts, contract slots and the queues of the mempool.
  \<^item> \<open>Exec_Base\<close>, \<open>Exec_Staking\<close>, \<open>Exec_Wasm\<close>, \<open>Exec_Seq\<close>, \<open>Exec_Builder\<close>, \<open>Exec_Local\<close>,
    \<open>Exec_Stm\<close> (\<open>crates/execution\<close>): gas, fees, checks and receipts; the staking ledger and
    slashing; contracts; sequential execution; the builder and rent; the keys a
    transaction touches; the speculative engine. They show that transactions are all or
    nothing, cannot be replayed and conserve tokens, that contracts stay in their
    storage, that the schedule has no conflicts, and that the speculative engine gives
    the result of sequential execution.
  \<^item> \<open>Mempool_Queue\<close> (\<open>crates/mempool\<close>): insertion keeps the queue sound, and the choice for
    a block ends and leaves nothing out that fits.
  \<^item> \<open>Da_Sampling\<close> (\<open>crates/da\<close>): four of six chunks give the block back; what sampling
    certifies. \<open>Light_Client\<close> (\<open>crates/light\<close>, the proof reader of \<open>crates/rpc\<close>): headers
    from a checkpoint, accounts from an untrusted source, packet commitments.

  \<^bold>\<open>Parameters.\<close> Code that is not in the repository is an argument of the definitions:
  BLAKE3 (\<open>H\<close>), blst (\<open>Blst\<close>), Ed25519 (\<open>Ed25519\<close>), the VRF check, wasmtime (\<open>Wasmtime\<close>),
  arkworks (\<open>Curve\<close>), the Reed-Solomon crate (\<open>RsCode\<close>), serde_json and hex (\<open>Json\<close>). What
  theorems assume of them is stated in each: hashes have 32 bytes and do not collide on
  the inputs named there, the honest signers of a given certificate signed its message,
  \<open>curve_laws\<close>, \<open>rs_laws\<close>. Witnesses discharge these on concrete instances.

  \<^bold>\<open>Bounds and fuel.\<close> Loops are recursive functions with termination proofs; none needs
  fuel of the model except \<open>execute\<close>, which nests through the host at most twice, since an
  entry into a running contract is refused: the depth 2 it starts with is never used up.
  Loops whose end depends on the state, as the eviction and selection of the mempool and
  the search for a free version, return \<open>option\<close> and are proved to return. A run of guest
  code is a finite tree of host calls: that the code itself stops is the effect of the
  fuel of wasmtime and is not proved here.

  \<^bold>\<open>Not modelled.\<close> The transport, gossip, discovery and peer policy of the network, the
  JSON-RPC server, the process and configuration of the node, RocksDB, the sdk, the
  faucet and observability: they are input and output around the parts above or state of
  libraries outside the repository. Key generation and the arithmetic of the VRF belong
  to curve libraries. Threads of the speculative engine do no work in the source and are
  left out, as are debug assertions. Timeouts are computed; the passing of time is not
  modelled, so nothing is claimed about liveness of the protocol.
\<close>

text \<open>
  C24. The transaction wire format is canonical: a byte string decodes to a
  transaction exactly when the transaction is well formed and the string is its
  encoding.
\<close>

theorem tx_decode_iff: "tx_decode b = Ok t \<longleftrightarrow> wf_tx t \<and> b = tx_bytes t"
  by (rule tx_format.dec_iff)

end
